(* ===== verification/Prelude.thy ===== *)
theory Prelude
  imports Main "HOL-Library.Word"
begin

text \<open>
  Shared vocabulary of the development: the fixed-width integers, byte strings and Rust
  strings the program computes with, the parts of the Rust standard library it uses
  (UTF-8, \<^verbatim>\<open>str\<close> methods, saturating arithmetic, \<^verbatim>\<open>Instant\<close> and \<^verbatim>\<open>Duration\<close>), hash-map iteration
  orders, and the generic list, map and result lemmas that the component theories share.

  Conventions. A Rust \<^verbatim>\<open>str\<close> is the list of its code points (natural numbers); \<^verbatim>\<open>s.len()\<close> and
  \<^verbatim>\<open>s.bytes()\<close> go through the UTF-8 encoding. An \<^verbatim>\<open>Instant\<close> and a \<^verbatim>\<open>Duration\<close> are
  nanosecond counts; \<^verbatim>\<open>duration_since\<close> saturates at zero, as the standard library's does, so it
  is subtraction on natural numbers. A \<^verbatim>\<open>usize\<close> is 64 bits wide; lengths are natural numbers, and
  the operations that can overflow say so. A \<^verbatim>\<open>HashMap\<close> is a partial function; wherever
  the program iterates over one, the order in which the keys come is an argument of the
  definition, because the standard library leaves it unspecified.
\<close>

named_theorems store_simps \<open>lookups after updates of the keyed stores\<close>
named_theorems frame_simps \<open>parts of a state that an operation leaves alone\<close>
named_theorems ui_simps \<open>projections of the client state after an operation\<close>


section \<open>Integers and bytes\<close>

type_synonym byte = "8 word"
type_synonym bytes = "byte list"
type_synonym u16 = "16 word"
type_synonym u32 = "32 word"
type_synonym u64 = "64 word"
type_synonym uuid = "128 word"

definition usize_max :: nat where
  "usize_max = 2 ^ 64 - 1"

text \<open>\<^verbatim>\<open>usize::saturating_add\<close> and \<^verbatim>\<open>u64::saturating_add\<close>; \<^verbatim>\<open>saturating_sub\<close> on \<^verbatim>\<open>usize\<close> is
  subtraction on natural numbers.\<close>

definition usize_saturating_add :: "nat \<Rightarrow> nat \<Rightarrow> nat" where
  "usize_saturating_add a b = min (a + b) usize_max"

definition u64_saturating_add :: "u64 \<Rightarrow> u64 \<Rightarrow> u64" where
  "u64_saturating_add a b = (if unat a + unat b < 2 ^ 64 then a + b else - 1)"

lemma u64_max: "unat (- 1 :: u64) = 2 ^ 64 - 1"
  by (simp add: unsigned_minus_1_eq_mask mask_eq_exp_minus_1)

lemma unat_u64_saturating_add:
  "unat (u64_saturating_add a b) = min (unat a + unat b) (2 ^ 64 - 1)"
  by (auto simp: u64_saturating_add_def unat_word_ariths u64_max)

lemma u64_saturating_succ_gt:
  "a \<noteq> - 1 \<Longrightarrow> a < u64_saturating_add a 1"
proof -
  assume "a \<noteq> - 1"
  then have "unat a \<noteq> 2 ^ 64 - 1"
    using u64_max by (metis word_unat_eq_iff)
  moreover have "unat a < 2 ^ 64"
    using unsigned_less [of a] by simp
  ultimately have "unat a < unat (u64_saturating_add a 1)"
    by (simp add: unat_u64_saturating_add)
  then show ?thesis
    by (simp add: word_less_nat_alt)
qed


section \<open>Time\<close>

type_synonym instant = nat
type_synonym duration = nat

definition from_secs :: "nat \<Rightarrow> duration" where
  "from_secs s = s * 1000000000"

definition from_millis :: "nat \<Rightarrow> duration" where
  "from_millis ms = ms * 1000000"

definition as_millis :: "duration \<Rightarrow> nat" where
  "as_millis d = d div 1000000"

definition duration_since :: "instant \<Rightarrow> instant \<Rightarrow> duration" where
  "duration_since now earlier = now - earlier"


section \<open>Rust strings\<close>

type_synonym str = "nat list"

definition lit :: "string \<Rightarrow> str" where
  "lit s = map of_char s"

lemma lit_simps [simp]: "lit [] = []" "lit (c # cs) = of_char c # lit cs"
  by (simp_all add: lit_def)

text \<open>
  The UTF-8 encoding of a code point. Reducing the leading byte's payload modulo 8 changes
  nothing below \<open>0x200000\<close>, so nothing for a Rust \<^verbatim>\<open>char\<close>.
\<close>

definition utf8_char :: "nat \<Rightarrow> bytes" where
  "utf8_char c =
     (if c < 128 then [of_nat c]
      else if c < 2048 then [of_nat (192 + c div 64), of_nat (128 + c mod 64)]
      else if c < 65536 then
        [of_nat (224 + c div 4096), of_nat (128 + c div 64 mod 64), of_nat (128 + c mod 64)]
      else
        [of_nat (240 + c div 262144 mod 8), of_nat (128 + c div 4096 mod 64),
         of_nat (128 + c div 64 mod 64), of_nat (128 + c mod 64)])"

definition utf8 :: "str \<Rightarrow> bytes" where
  "utf8 s = concat (map utf8_char s)"

definition str_len :: "str \<Rightarrow> nat" where
  "str_len s = length (utf8 s)"

lemma utf8_simps [simp]:
  "utf8 [] = []" "utf8 (c # s) = utf8_char c @ utf8 s" "utf8 (s @ t) = utf8 s @ utf8 t"
  by (simp_all add: utf8_def)

lemma utf8_char_nonempty [simp]: "utf8_char c \<noteq> []"
  by (simp add: utf8_char_def)

lemma utf8_eq_Nil [simp]: "utf8 s = [] \<longleftrightarrow> s = []"
  by (cases s) simp_all

lemma length_le_str_len: "length s \<le> str_len s"
proof (induction s)
  case (Cons c s)
  have "1 \<le> length (utf8_char c)" by (simp add: utf8_char_def)
  with Cons show ?case by (simp add: str_len_def)
qed (simp add: str_len_def)

text \<open>\<^verbatim>\<open>u8::is_ascii_alphanumeric\<close> and the charset test that room and user names share.\<close>

definition is_ascii_alphanumeric :: "byte \<Rightarrow> bool" where
  "is_ascii_alphanumeric b \<longleftrightarrow> 48 \<le> b \<and> b \<le> 57 \<or> 65 \<le> b \<and> b \<le> 90 \<or> 97 \<le> b \<and> b \<le> 122"

definition name_char :: "nat \<Rightarrow> bool" where
  "name_char c \<longleftrightarrow>
     48 \<le> c \<and> c \<le> 57 \<or> 65 \<le> c \<and> c \<le> 90 \<or> 97 \<le> c \<and> c \<le> 122 \<or> c = 95 \<or> c = 45"

lemma byte_le_iff: "n < 256 \<Longrightarrow> m < 256 \<Longrightarrow> (of_nat n :: byte) \<le> of_nat m \<longleftrightarrow> n \<le> m"
  by (simp add: word_le_nat_alt unat_of_nat)

lemma byte_eq_iff: "n < 256 \<Longrightarrow> m < 256 \<Longrightarrow> (of_nat n :: byte) = of_nat m \<longleftrightarrow> n = m"
  by (simp add: word_unat_eq_iff unat_of_nat)

lemma name_byte_iff:
  "n < 256 \<Longrightarrow>
     (is_ascii_alphanumeric (of_nat n) \<or> (of_nat n :: byte) = 95 \<or> (of_nat n :: byte) = 45)
       \<longleftrightarrow> name_char n"
  using byte_le_iff [of n 57] byte_le_iff [of 48 n] byte_le_iff [of n 90] byte_le_iff [of 65 n]
    byte_le_iff [of n 122] byte_le_iff [of 97 n] byte_eq_iff [of n 95] byte_eq_iff [of n 45]
  by (simp add: is_ascii_alphanumeric_def name_char_def)

lemma utf8_char_name:
  "(\<forall>b \<in> set (utf8_char c). is_ascii_alphanumeric b \<or> b = 95 \<or> b = 45) \<longleftrightarrow> name_char c"
proof (cases "c < 128")
  case True
  then show ?thesis by (simp add: utf8_char_def name_byte_iff)
next
  case False
  then have high: "\<not> name_char c" by (auto simp: name_char_def)
  have "\<exists>n b. 192 \<le> n \<and> n < 256 \<and> b = (of_nat n :: byte) \<and> b \<in> set (utf8_char c)"
  proof -
    consider "c < 2048" | "2048 \<le> c" "c < 65536" | "65536 \<le> c" by linarith
    then show ?thesis
    proof cases
      case 1
      with False show ?thesis
        by (intro exI [of _ "192 + c div 64"]) (simp add: utf8_char_def)
    next
      case 2
      with False show ?thesis
        by (intro exI [of _ "224 + c div 4096"]) (simp add: utf8_char_def)
    next
      case 3
      with False show ?thesis
        by (intro exI [of _ "240 + c div 262144 mod 8"]) (simp add: utf8_char_def)
    qed
  qed
  then obtain n where n: "192 \<le> n" "n < 256" "(of_nat n :: byte) \<in> set (utf8_char c)"
    by blast
  then have "\<not> name_char n" by (simp add: name_char_def)
  with n high show ?thesis using name_byte_iff [of n] by blast
qed

text \<open>\<^verbatim>\<open>name.bytes().all(|b| b.is_ascii_alphanumeric() || b == b'_' || b == b'-')\<close>\<close>

definition all_name_bytes :: "str \<Rightarrow> bool" where
  "all_name_bytes s \<longleftrightarrow> (\<forall>b \<in> set (utf8 s). is_ascii_alphanumeric b \<or> b = 95 \<or> b = 45)"

lemma all_name_bytes_iff: "all_name_bytes s \<longleftrightarrow> (\<forall>c \<in> set s. name_char c)"
proof (induction s)
  case (Cons c s)
  have "all_name_bytes (c # s) \<longleftrightarrow>
      (\<forall>b \<in> set (utf8_char c). is_ascii_alphanumeric b \<or> b = 95 \<or> b = 45) \<and> all_name_bytes s"
    by (auto simp: all_name_bytes_def)
  with Cons show ?case by (simp add: utf8_char_name)
qed (simp add: all_name_bytes_def)

lemma name_char_utf8_char: "name_char c \<Longrightarrow> utf8_char c = [of_nat c]"
  by (auto simp: name_char_def utf8_char_def)

lemma str_len_name: "\<forall>c \<in> set s. name_char c \<Longrightarrow> str_len s = length s"
  by (induction s) (auto simp: str_len_def name_char_utf8_char)


subsection \<open>White space, trimming, lines\<close>

text \<open>\<^verbatim>\<open>char::is_whitespace\<close>: the Unicode property White Space.\<close>

definition is_whitespace :: "nat \<Rightarrow> bool" where
  "is_whitespace c \<longleftrightarrow>
     9 \<le> c \<and> c \<le> 13 \<or> c = 32 \<or> c = 133 \<or> c = 160 \<or> c = 5760 \<or> 8192 \<le> c \<and> c \<le> 8202 \<or>
     c = 8232 \<or> c = 8233 \<or> c = 8239 \<or> c = 8287 \<or> c = 12288"

definition trim_start :: "str \<Rightarrow> str" where
  "trim_start s = dropWhile is_whitespace s"

definition trim_end :: "str \<Rightarrow> str" where
  "trim_end s = rev (dropWhile is_whitespace (rev s))"

definition trim :: "str \<Rightarrow> str" where
  "trim s = trim_end (trim_start s)"

lemma trim_end_last: "trim_end s \<noteq> [] \<Longrightarrow> \<not> is_whitespace (last (trim_end s))"
  by (simp add: trim_end_def last_rev hd_dropWhile)

lemma set_trim_end: "set (trim_end s) \<subseteq> set s"
  by (auto simp: trim_end_def dest: set_dropWhileD)

lemma trim_end_eq_Nil: "trim_end s = [] \<longleftrightarrow> (\<forall>c \<in> set s. is_whitespace c)"
  by (simp add: trim_end_def)

lemma trim_eq_Nil: "trim s = [] \<longleftrightarrow> (\<forall>c \<in> set s. is_whitespace c)"
proof
  assume "trim s = []"
  then have "\<forall>c \<in> set (dropWhile is_whitespace s). is_whitespace c"
    by (simp add: trim_def trim_end_eq_Nil trim_start_def)
  then have "dropWhile is_whitespace s = []"
    by (metis hd_dropWhile hd_in_set)
  then show "\<forall>c \<in> set s. is_whitespace c" by simp
next
  assume "\<forall>c \<in> set s. is_whitespace c"
  then show "trim s = []"
    by (auto simp: trim_def trim_start_def trim_end_eq_Nil dest: set_dropWhileD)
qed

lemma trim_id: "s = [] \<or> \<not> is_whitespace (hd s) \<and> \<not> is_whitespace (last s) \<Longrightarrow> trim s = s"
proof -
  assume ends: "s = [] \<or> \<not> is_whitespace (hd s) \<and> \<not> is_whitespace (last s)"
  then have "dropWhile is_whitespace s = s"
    by (cases s) simp_all
  moreover from ends have "dropWhile is_whitespace (rev s) = rev s"
    by (cases "rev s") (auto simp: hd_rev [symmetric])
  ultimately show ?thesis by (simp add: trim_def trim_start_def trim_end_def)
qed

lemma set_trim: "set (trim s) \<subseteq> set s"
  using set_trim_end by (fastforce simp: trim_def trim_start_def dest: set_dropWhileD)

lemma trim_ends: "trim s \<noteq> [] \<Longrightarrow> \<not> is_whitespace (hd (trim s)) \<and> \<not> is_whitespace (last (trim s))"
proof
  assume ne: "trim s \<noteq> []"
  then show "\<not> is_whitespace (last (trim s))"
    unfolding trim_def by (rule trim_end_last)
  obtain ws where ws: "trim_start s = trim s @ ws"
  proof
    let ?r = "rev (trim_start s)"
    have "rev (dropWhile is_whitespace ?r) @ rev (takeWhile is_whitespace ?r) = trim_start s"
      by (metis rev_append rev_rev_ident takeWhile_dropWhile_id)
    then show "trim_start s = trim s @ rev (takeWhile is_whitespace ?r)"
      by (simp add: trim_def trim_end_def)
  qed
  with ne have "trim_start s \<noteq> []" "hd (trim_start s) = hd (trim s)" by auto
  then show "\<not> is_whitespace (hd (trim s))"
    using hd_dropWhile [of is_whitespace s] by (auto simp: trim_start_def)
qed

lemma trim_idem [simp]: "trim (trim s) = trim s"
  using trim_id trim_ends by blast

lemma name_char_not_ws: "name_char c \<Longrightarrow> \<not> is_whitespace c"
  by (auto simp: name_char_def is_whitespace_def)

definition strip_cr :: "str \<Rightarrow> str" where
  "strip_cr l = (if l \<noteq> [] \<and> last l = 13 then butlast l else l)"

text \<open>\<^verbatim>\<open>str::lines\<close>: \<open>acc\<close> is the current line, reversed. A final line without line feed is
  kept as it is, an empty one is not yielded.\<close>

fun lines_from :: "str \<Rightarrow> str \<Rightarrow> str list" where
  "lines_from acc [] = (if acc = [] then [] else [rev acc])"
| "lines_from acc (c # cs) =
     (if c = 10 then strip_cr (rev acc) # lines_from [] cs else lines_from (c # acc) cs)"

definition lines :: "str \<Rightarrow> str list" where
  "lines s = lines_from [] s"

lemma lines_from_line:
  "10 \<notin> set l \<Longrightarrow> lines_from acc (l @ 10 # s) = strip_cr (rev acc @ l) # lines s"
  by (induction l arbitrary: acc) (auto simp: lines_def)

lemma lines_line: "10 \<notin> set l \<Longrightarrow> lines (l @ 10 # s) = strip_cr l # lines s"
  using lines_from_line [of l "[]" s] by (simp add: lines_def)

lemma lines_Nil [simp]: "lines [] = []"
  by (simp add: lines_def)

lemma set_strip_cr: "set (strip_cr l) \<subseteq> set l"
  by (auto simp: strip_cr_def dest: in_set_butlastD)

lemma lines_from_no_newline: "10 \<notin> set acc \<Longrightarrow> l \<in> set (lines_from acc s) \<Longrightarrow> 10 \<notin> set l"
  using set_strip_cr by (induction acc s rule: lines_from.induct) (fastforce split: if_splits)+

lemma lines_no_newline: "l \<in> set (lines s) \<Longrightarrow> 10 \<notin> set l"
  using lines_from_no_newline [of "[]" l s] by (simp add: lines_def)

text \<open>\<^verbatim>\<open>str::split_once\<close> on a character, and \<^verbatim>\<open>str::strip_prefix\<close>.\<close>

definition split_once :: "nat \<Rightarrow> str \<Rightarrow> (str \<times> str) option" where
  "split_once d s =
     (if d \<in> set s then Some (takeWhile (\<lambda>c. c \<noteq> d) s, tl (dropWhile (\<lambda>c. c \<noteq> d) s)) else None)"

lemma split_once_append:
  "d \<notin> set a \<Longrightarrow> split_once d (a @ d # b) = Some (a, b)"
  by (induction a) (auto simp: split_once_def)

lemma split_once_SomeD:
  assumes "split_once d s = Some (a, b)"
  shows "s = a @ d # b" and "d \<notin> set a"
proof -
  from assms have d: "d \<in> set s" and a: "a = takeWhile (\<lambda>c. c \<noteq> d) s"
    and b: "b = tl (dropWhile (\<lambda>c. c \<noteq> d) s)"
    by (auto simp: split_once_def split: if_splits)
  from d have ne: "dropWhile (\<lambda>c. c \<noteq> d) s \<noteq> []" by (auto simp: dropWhile_eq_Nil_conv)
  then have "hd (dropWhile (\<lambda>c. c \<noteq> d) s) = d"
    using hd_dropWhile [of "\<lambda>c. c \<noteq> d" s] by simp
  with ne b have "dropWhile (\<lambda>c. c \<noteq> d) s = d # b" by (metis list.collapse)
  with a show "s = a @ d # b" by (metis takeWhile_dropWhile_id)
  show "d \<notin> set a" unfolding a by (auto dest: set_takeWhileD)
qed

definition strip_prefix :: "str \<Rightarrow> str \<Rightarrow> str option" where
  "strip_prefix p s = (if take (length p) s = p then Some (drop (length p) s) else None)"

lemma strip_prefix_Some: "strip_prefix p s = Some r \<longleftrightarrow> s = p @ r"
  by (auto simp: strip_prefix_def split: if_splits) (metis append_take_drop_id)


section \<open>Lists, maps and iteration orders\<close>

lemma dropWhile_sorted_filter:
  "sorted xs \<Longrightarrow> (\<And>x y. x \<le> y \<Longrightarrow> P y \<Longrightarrow> P x) \<Longrightarrow> dropWhile P xs = filter (\<lambda>x. \<not> P x) xs"
proof (induction xs)
  case (Cons a xs)
  show ?case
  proof (cases "P a")
    case True
    with Cons show ?thesis by simp
  next
    case False
    with Cons.prems have "\<forall>x \<in> set xs. \<not> P x" by auto
    then have "filter (\<lambda>x. \<not> P x) xs = xs" by simp
    with False show ?thesis by simp
  qed
qed simp

lemma dropWhile_dropWhile_mono:
  "(\<And>x. P x \<Longrightarrow> Q x) \<Longrightarrow> dropWhile Q (dropWhile P xs) = dropWhile Q xs"
  by (induction xs) auto

lemma filter_filter_mono:
  "(\<And>x. Q x \<Longrightarrow> P x) \<Longrightarrow> filter Q (filter P xs) = filter Q xs"
  by (induction xs) auto

lemma length_filter_le_mono:
  "(\<And>x. x \<in> set xs \<Longrightarrow> P x \<Longrightarrow> Q x) \<Longrightarrow> length (filter P xs) \<le> length (filter Q xs)"
  by (induction xs) auto

text \<open>An order in which iterating over a \<^verbatim>\<open>HashMap\<close> may yield its keys, and the list of
  entries iterated over in such an order.\<close>

definition iteration_order :: "('k \<rightharpoonup> 'v) \<Rightarrow> 'k list \<Rightarrow> bool" where
  "iteration_order m ks \<longleftrightarrow> distinct ks \<and> set ks = dom m"

definition entries :: "('k \<rightharpoonup> 'v) \<Rightarrow> 'k list \<Rightarrow> ('k \<times> 'v) list" where
  "entries m ks = List.map_filter (\<lambda>k. map_option (Pair k) (m k)) ks"

lemma entries_simps [simp]:
  "entries m [] = []"
  "entries m (k # ks) = (case m k of None \<Rightarrow> entries m ks | Some v \<Rightarrow> (k, v) # entries m ks)"
  by (simp_all add: entries_def map_filter_simps split: option.split)

lemma set_entries: "set (entries m ks) = {(k, v). k \<in> set ks \<and> m k = Some v}"
  by (induction ks) (auto split: option.splits)

lemma distinct_entries: "distinct ks \<Longrightarrow> distinct (map fst (entries m ks))"
  by (induction ks) (auto simp: set_entries split: option.splits)

lemma set_entries_order:
  "iteration_order m ks \<Longrightarrow> set (entries m ks) = {(k, v). m k = Some v}"
  by (auto simp: set_entries iteration_order_def)

lemma map_fst_entries: "set ks \<subseteq> dom m \<Longrightarrow> map fst (entries m ks) = ks"
  by (induction ks) (auto split: option.splits)


section \<open>Results\<close>

text \<open>Chaining of fallible steps: the \<^verbatim>\<open>?\<close> operator.\<close>

definition and_then :: "'e + 'a \<Rightarrow> ('a \<Rightarrow> 'e + 'b) \<Rightarrow> 'e + 'b" where
  "and_then r f = (case r of Inl e \<Rightarrow> Inl e | Inr a \<Rightarrow> f a)"

lemma and_then_simps [simp]: "and_then (Inl e) f = Inl e" "and_then (Inr a) f = f a"
  by (simp_all add: and_then_def)

lemma and_then_Inr_iff: "and_then r f = Inr b \<longleftrightarrow> (\<exists>a. r = Inr a \<and> f a = Inr b)"
  by (cases r) simp_all

lemma and_then_Inl_iff:
  "and_then r f = Inl e \<longleftrightarrow> r = Inl e \<or> (\<exists>a. r = Inr a \<and> f a = Inl e)"
  by (cases r) simp_all

text \<open>\<^verbatim>\<open>Option::ok_or\<close>, also used for \<^verbatim>\<open>map_err\<close> that forgets the cause.\<close>

definition ok_or :: "'e \<Rightarrow> 'a option \<Rightarrow> 'e + 'a" where
  "ok_or e x = (case x of None \<Rightarrow> Inl e | Some a \<Rightarrow> Inr a)"

lemma ok_or_simps [simp]: "ok_or e None = Inl e" "ok_or e (Some a) = Inr a"
  by (simp_all add: ok_or_def)

lemma ok_or_Inr_iff: "ok_or e x = Inr a \<longleftrightarrow> x = Some a"
  by (cases x) simp_all

lemma ok_or_Inl_iff: "ok_or e x = Inl e' \<longleftrightarrow> x = None \<and> e' = e"
  by (cases x) auto

end
