(* ===== verification/Interfaces.thy ===== *)
theory Interfaces
  imports Prelude
begin

text \<open>
  The contracts that several components of the program share, stated once as locales:
  a keyed sliding-window limiter (per-address connection limiter and per-session message quota),
  a strictly increasing counter register (server-side and client-side replay protection), a
  bounded log (join-replay history and client scrollback) and a keyed store (sessions and
  connections). Each locale is interpreted on the program's own operations in the theory of the
  component that provides them.
\<close>

section \<open>Sliding windows\<close>

text \<open>
  The eviction loop that the connection limiter runs twice and the message quota once:
  \<^verbatim>\<open>while q.front().is_some_and(|t| now.duration_since(*t) > window) { q.pop_front(); }\<close>
\<close>

fun evict_expired :: "duration \<Rightarrow> instant \<Rightarrow> instant list \<Rightarrow> instant list" where
  "evict_expired win now [] = []"
| "evict_expired win now (t # q) =
     (if duration_since now t > win then evict_expired win now q else t # q)"

lemma evict_expired_dropWhile: "evict_expired win now q = dropWhile (\<lambda>t. t + win < now) q"
  by (induction q) (auto simp: duration_since_def)

lemma evict_expired_filter:
  "sorted q \<Longrightarrow> evict_expired win now q = filter (\<lambda>t. now \<le> t + win) q"
  by (subst evict_expired_dropWhile, subst dropWhile_sorted_filter) (auto simp: not_less)

lemma length_evict_expired: "length (evict_expired win now q) \<le> length q"
  by (induction q) auto

lemma set_evict_expired: "set (evict_expired win now q) \<subseteq> set q"
  by (auto simp: evict_expired_dropWhile dest: set_dropWhileD)

text \<open>What one attempt does to the queue of accepted time stamps of its key.\<close>

definition slide :: "nat \<Rightarrow> duration \<Rightarrow> instant \<Rightarrow> instant list \<Rightarrow> bool \<times> instant list" where
  "slide cap win now q =
     (let q' = evict_expired win now q
      in if length q' \<ge> cap then (False, q') else (True, q' @ [now]))"

text \<open>A well-formed queue: within the cap, in time order, nothing from the future.\<close>

definition queue_ok :: "nat \<Rightarrow> instant \<Rightarrow> instant list \<Rightarrow> bool" where
  "queue_ok cap now q \<longleftrightarrow> length q \<le> cap \<and> sorted q \<and> (\<forall>t \<in> set q. t \<le> now)"

lemma queue_ok_Nil [simp]: "queue_ok cap now []"
  by (simp add: queue_ok_def)

lemma queue_ok_mono: "queue_ok cap m q \<Longrightarrow> m \<le> now \<Longrightarrow> queue_ok cap now q"
  by (auto simp: queue_ok_def)

lemma queue_ok_evict: "queue_ok cap now q \<Longrightarrow> queue_ok cap now (evict_expired win now q)"
  using sorted_filter [of "\<lambda>t. t" q]
  by (auto simp: queue_ok_def evict_expired_filter intro: le_trans [OF length_filter_le])

lemma queue_ok_slide: "queue_ok cap now q \<Longrightarrow> queue_ok cap now (snd (slide cap win now q))"
  using queue_ok_evict [of cap now q win] by (auto simp: queue_ok_def slide_def Let_def sorted_append)

datatype ('k, 'o) window_event = Attempt instant 'k | Other instant 'o

primrec event_time :: "('k, 'o) window_event \<Rightarrow> instant" where
  "event_time (Attempt t k) = t"
| "event_time (Other t x) = t"

text \<open>A limiter run over a sequence of attempts and other operations on its state (clean-ups and
  the like): the accepted attempts, in order.\<close>

fun window_run ::
  "(instant \<Rightarrow> 'k \<Rightarrow> 's \<Rightarrow> bool \<times> 's) \<Rightarrow> (instant \<Rightarrow> 'o \<Rightarrow> 's \<Rightarrow> 's) \<Rightarrow> 's \<Rightarrow> ('k, 'o) window_event list
     \<Rightarrow> (instant \<times> 'k) list" where
  "window_run att oth s [] = []"
| "window_run att oth s (Attempt t k # es) =
     (if fst (att t k s) then (t, k) # window_run att oth (snd (att t k s)) es
      else window_run att oth (snd (att t k s)) es)"
| "window_run att oth s (Other t x # es) = window_run att oth (oth t x s) es"

definition admitted_for :: "'k \<Rightarrow> (instant \<times> 'k) list \<Rightarrow> instant list" where
  "admitted_for k acc = map fst (filter (\<lambda>a. snd a = k) acc)"

lemma admitted_for_simps [simp]:
  "admitted_for k [] = []"
  "admitted_for k ((t, k') # acc) = (if k' = k then t # admitted_for k acc else admitted_for k acc)"
  by (simp_all add: admitted_for_def)

text \<open>
  The specification: remember every accepted attempt of a key, and accept a new one exactly when
  fewer than \<open>cap\<close> of them lie within the last \<open>win\<close> nanoseconds. It never forgets, and the other
  operations mean nothing to it.
\<close>

definition recent :: "duration \<Rightarrow> instant \<Rightarrow> instant list \<Rightarrow> instant list" where
  "recent win now log = filter (\<lambda>t. now \<le> t + win) log"

fun spec_run :: "nat \<Rightarrow> duration \<Rightarrow> 'k \<Rightarrow> instant list \<Rightarrow> ('k, 'o) window_event list \<Rightarrow> instant list" where
  "spec_run cap win k log [] = []"
| "spec_run cap win k log (Attempt t k' # es) =
     (if k' = k \<and> length (recent win t log) < cap then t # spec_run cap win k (log @ [t]) es
      else spec_run cap win k log es)"
| "spec_run cap win k log (Other t x # es) = spec_run cap win k log es"

text \<open>No closed interval of length \<open>win\<close> holds more than \<open>cap\<close> of the times.\<close>

definition within_rate :: "nat \<Rightarrow> duration \<Rightarrow> instant list \<Rightarrow> bool" where
  "within_rate cap win log \<longleftrightarrow>
     (\<forall>t. length (filter (\<lambda>a. t \<le> a \<and> a \<le> t + win) log) \<le> cap)"

lemma within_rate_snoc:
  assumes "within_rate cap win log" and "\<forall>a \<in> set log. a \<le> now"
    and "length (recent win now log) < cap"
  shows "within_rate cap win (log @ [now])"
  unfolding within_rate_def
proof
  fix t
  show "length (filter (\<lambda>a. t \<le> a \<and> a \<le> t + win) (log @ [now])) \<le> cap"
  proof (cases "t \<le> now \<and> now \<le> t + win")
    case True
    have "length (filter (\<lambda>a. t \<le> a \<and> a \<le> t + win) log) \<le> length (recent win now log)"
      unfolding recent_def by (rule length_filter_le_mono) (use True in auto)
    with True assms(3) show ?thesis by simp
  next
    case False
    with assms(1) show ?thesis by (auto simp: within_rate_def)
  qed
qed

lemma spec_run_within_rate:
  assumes "within_rate cap win log" and "\<forall>a \<in> set log. \<forall>e \<in> set es. a \<le> event_time e"
    and "sorted (map event_time es)"
  shows "within_rate cap win (log @ spec_run cap win k log es)"
  using assms
proof (induction cap win k log es rule: spec_run.induct)
  case (2 cap win k log t k' es)
  show ?case
  proof (cases "k' = k \<and> length (recent win t log) < cap")
    case True
    with "2.prems" have "within_rate cap win (log @ [t])"
      by (intro within_rate_snoc) auto
    with "2.prems" "2.IH"(1) [OF True] True show ?thesis by simp
  next
    case False
    then have "spec_run cap win k log (Attempt t k' # es) = spec_run cap win k log es"
      by auto
    with "2.prems" "2.IH"(2) [OF False] show ?thesis by simp
  qed
qed simp_all

text \<open>At a cap of one, the accepted times are more than \<open>win\<close> apart.\<close>

lemma within_rate_one_gaps:
  "within_rate 1 win log \<Longrightarrow> sorted log \<Longrightarrow> sorted_wrt (\<lambda>a b. a + win < b) log"
proof (induction log)
  case (Cons a log)
  have "a + win < b" if "b \<in> set log" for b
  proof (rule ccontr)
    assume "\<not> a + win < b"
    with that Cons.prems have "b \<in> set (filter (\<lambda>x. a \<le> x \<and> x \<le> a + win) log)" by auto
    then have "0 < length (filter (\<lambda>x. a \<le> x \<and> x \<le> a + win) log)"
      by (simp only: length_pos_if_in_set)
    moreover have "length (filter (\<lambda>x. a \<le> x \<and> x \<le> a + win) (a # log)) \<le> 1"
      using Cons.prems(1) by (simp only: within_rate_def)
    ultimately show False by simp
  qed
  moreover have "within_rate 1 win log"
    unfolding within_rate_def
  proof
    fix t
    have "length (filter (\<lambda>x. t \<le> x \<and> x \<le> t + win) (a # log)) \<le> 1"
      using Cons.prems(1) by (simp only: within_rate_def)
    then show "length (filter (\<lambda>x. t \<le> x \<and> x \<le> t + win) log) \<le> 1"
      by (simp split: if_splits)
  qed
  ultimately show ?case using Cons by simp
qed simp

lemma spec_run_times: "set (spec_run cap win k log es) \<subseteq> event_time ` set es"
  by (induction cap win k log es rule: spec_run.induct) auto

lemma spec_run_sorted: "sorted (map event_time es) \<Longrightarrow> sorted (spec_run cap win k log es)"
proof (induction cap win k log es rule: spec_run.induct)
  case (2 cap win k log t k' es)
  moreover have "t \<le> a" if "a \<in> set (spec_run cap win k log' es)" for a log'
    using that spec_run_times [of cap win k log' es] "2.prems" by fastforce
  ultimately show ?case by simp
qed simp_all

locale keyed_window =
  fixes attempt :: "instant \<Rightarrow> 'k \<Rightarrow> 's \<Rightarrow> bool \<times> 's"
    and other :: "instant \<Rightarrow> 'o \<Rightarrow> 's \<Rightarrow> 's"
    and stamps :: "'s \<Rightarrow> 'k \<Rightarrow> instant list"
    and ready :: "'s \<Rightarrow> 'k \<Rightarrow> bool"
    and cap :: "'s \<Rightarrow> nat"
    and win :: "'s \<Rightarrow> duration"
  assumes refused: "\<not> ready s k \<Longrightarrow> attempt t k s = (False, s)"
    and attempt_own: "ready s k \<Longrightarrow>
      (fst (attempt t k s), stamps (snd (attempt t k s)) k) = slide (cap s) (win s) t (stamps s k)"
    and attempt_other: "k' \<noteq> k \<Longrightarrow> stamps (snd (attempt t k s)) k' = stamps s k'"
    and attempt_ready: "ready (snd (attempt t k s)) k' = ready s k'"
    and attempt_limits: "cap (snd (attempt t k s)) = cap s" "win (snd (attempt t k s)) = win s"
    and other_ready: "ready (other t x s) k = ready s k"
    and other_limits: "cap (other t x s) = cap s" "win (other t x s) = win s"
    and other_stamps: "stamps (other t x s) k = stamps s k \<or>
      stamps (other t x s) k = evict_expired (win s) t (stamps s k)"
begin

text \<open>The queue of a key holds the recent part of its log, as of some past moment \<open>m\<close>.\<close>

lemma window_run_refines:
  assumes "ready s k" and "sorted log" and "stamps s k = recent (win s) m log"
    and "\<forall>e \<in> set es. m \<le> event_time e" and "\<forall>a \<in> set log. \<forall>e \<in> set es. a \<le> event_time e"
    and "sorted (map event_time es)"
  shows "admitted_for k (window_run attempt other s es) = spec_run (cap s) (win s) k log es"
  using assms
proof (induction es arbitrary: s m log)
  case Nil
  then show ?case by simp
next
  case (Cons e es)
  have evict: "evict_expired (win s) (event_time e) (stamps s k) = recent (win s) (event_time e) log"
  proof -
    from Cons.prems have "sorted (stamps s k)"
      using sorted_filter [of "\<lambda>t. t" log] by (simp add: recent_def)
    then have "evict_expired (win s) (event_time e) (stamps s k)
        = filter (\<lambda>t. event_time e \<le> t + win s) (stamps s k)"
      by (rule evict_expired_filter)
    also have "\<dots> = recent (win s) (event_time e) log"
      using Cons.prems unfolding recent_def
      by (simp only:) (rule filter_filter_mono, auto)
    finally show ?thesis .
  qed
  have later: "\<forall>e' \<in> set es. event_time e \<le> event_time e'"
    using Cons.prems by simp
  show ?case
  proof (cases e)
    case (Other t x)
    let ?s = "other t x s"
    from other_stamps obtain m' where "stamps ?s k = recent (win s) m' log" "m' = m \<or> m' = t"
      using Cons.prems(3) evict Other by (metis event_time.simps(2))
    with Cons.prems Cons.IH [of ?s log m'] Other later show ?thesis
      by (auto simp: other_ready other_limits)
  next
    case (Attempt t k')
    let ?s = "snd (attempt t k' s)"
    show ?thesis
    proof (cases "k' = k")
      case False
      with Cons.prems Cons.IH [of ?s log m] Attempt show ?thesis
        by (simp add: attempt_other attempt_ready attempt_limits)
    next
      case True
      let ?ok = "length (recent (win s) t log) < cap s"
      have own: "fst (attempt t k s) = ?ok"
        "stamps (snd (attempt t k s)) k = recent (win s) t (if ?ok then log @ [t] else log)"
        using attempt_own [OF Cons.prems(1), of t] evict Attempt
        by (cases ?ok; simp add: slide_def Let_def recent_def)+
      from Cons.prems Attempt have "sorted (log @ [t])"
        by (auto simp: sorted_append)
      with Cons.prems Attempt True own later
        Cons.IH [of ?s "if ?ok then log @ [t] else log" t]
      show ?thesis by (auto simp: attempt_ready attempt_limits)
    qed
  qed
qed

lemma window_run_spec:
  assumes "ready s k" and "stamps s k = []" and "sorted (map event_time es)"
  shows "admitted_for k (window_run attempt other s es) = spec_run (cap s) (win s) k [] es"
  by (rule window_run_refines [where m = 0]) (use assms in \<open>auto simp: recent_def\<close>)

lemma window_run_within_rate:
  assumes "ready s k" and "stamps s k = []" and "sorted (map event_time es)"
  shows "within_rate (cap s) (win s) (admitted_for k (window_run attempt other s es))"
  using spec_run_within_rate [of "cap s" "win s" "[]" es k] assms
  by (simp add: window_run_spec within_rate_def)

lemma window_run_refused:
  "\<not> ready s k \<Longrightarrow> admitted_for k (window_run attempt other s es) = []"
proof (induction es arbitrary: s)
  case (Cons e es)
  then show ?case
    by (cases e) (auto simp: refused attempt_ready other_ready)
qed simp

end


section \<open>Counter registers\<close>

text \<open>A register run over a sequence of presented counters: the accepted ones, in order.\<close>

fun accept_run :: "('k \<Rightarrow> u64 \<Rightarrow> 's \<Rightarrow> bool \<times> 's) \<Rightarrow> 's \<Rightarrow> ('k \<times> u64) list \<Rightarrow> ('k \<times> u64) list" where
  "accept_run acc s [] = []"
| "accept_run acc s ((k, c) # xs) =
     (if fst (acc k c s) then (k, c) # accept_run acc (snd (acc k c s)) xs
      else accept_run acc (snd (acc k c s)) xs)"

definition counters_of :: "'k \<Rightarrow> ('k \<times> u64) list \<Rightarrow> u64 list" where
  "counters_of k xs = map snd (filter (\<lambda>x. fst x = k) xs)"

lemma counters_of_simps [simp]:
  "counters_of k [] = []"
  "counters_of k ((k', c) # xs) = (if k' = k then c # counters_of k xs else counters_of k xs)"
  by (simp_all add: counters_of_def)

lemma distinct_counters_of: "(\<And>k. distinct (counters_of k xs)) \<Longrightarrow> distinct xs"
proof (induction xs)
  case (Cons x xs)
  obtain k c where x: "x = (k, c)" by (cases x)
  have "distinct (counters_of k' xs)" for k'
    using Cons.prems [of k'] x by (auto split: if_splits)
  moreover have "c \<notin> set (counters_of k xs)"
    using Cons.prems [of k] x by simp
  then have "(k, c) \<notin> set xs"
    by (auto simp: counters_of_def image_iff)
  ultimately show ?case using Cons.IH x by simp
qed simp

locale counter_register =
  fixes accept :: "'k \<Rightarrow> u64 \<Rightarrow> 's \<Rightarrow> bool \<times> 's"
    and high :: "'s \<Rightarrow> 'k \<Rightarrow> u64"
    and ready :: "'s \<Rightarrow> 'k \<Rightarrow> bool"
  assumes accept_iff: "fst (accept k c s) \<longleftrightarrow> ready s k \<and> high s k < c"
    and high_accept: "high (snd (accept k c s)) k' =
      (if k' = k \<and> fst (accept k c s) then c else high s k')"
    and ready_accept: "ready (snd (accept k c s)) k' = ready s k'"
begin

lemma accept_run_increasing:
  "sorted_wrt (<) (counters_of k (accept_run accept s xs)) \<and>
   (\<forall>c \<in> set (counters_of k (accept_run accept s xs)). high s k < c)"
proof (induction xs arbitrary: s)
  case (Cons x xs)
  obtain k' c where x: "x = (k', c)" by (cases x)
  let ?s = "snd (accept k' c s)"
  have IH: "sorted_wrt (<) (counters_of k (accept_run accept ?s xs))"
    "\<forall>d \<in> set (counters_of k (accept_run accept ?s xs)). high ?s k < d"
    using Cons.IH [of ?s] by auto
  show ?case
  proof (cases "fst (accept k' c s) \<and> k' = k")
    case True
    then have "high s k < c" by (auto simp: accept_iff)
    with IH True x show ?thesis by (auto simp: high_accept intro: less_trans)
  next
    case False
    then have "high ?s k = high s k" by (auto simp: high_accept)
    with IH False x show ?thesis by auto
  qed
qed simp

lemma accept_run_distinct: "distinct (accept_run accept s xs)"
proof (rule distinct_counters_of)
  fix k
  show "distinct (counters_of k (accept_run accept s xs))"
    using accept_run_increasing [of k s xs] strict_sorted_iff by blast
qed

text \<open>An honest sender loses nothing: increasing counters above the register are all accepted.\<close>

lemma accept_run_complete:
  assumes "ready s k" and "sorted_wrt (<) (counters_of k xs)"
    and "\<forall>c \<in> set (counters_of k xs). high s k < c"
  shows "counters_of k (accept_run accept s xs) = counters_of k xs"
  using assms
proof (induction xs arbitrary: s)
  case (Cons x xs)
  obtain k' c where x: "x = (k', c)" by (cases x)
  let ?s = "snd (accept k' c s)"
  show ?case
  proof (cases "k' = k")
    case True
    with Cons.prems x have ok: "fst (accept k c s)" by (simp add: accept_iff)
    with True have high: "high ?s k = c" by (simp add: high_accept)
    have "counters_of k (accept_run accept ?s xs) = counters_of k xs"
      by (rule Cons.IH) (use Cons.prems x True high in \<open>auto simp: ready_accept\<close>)
    with True ok x show ?thesis by simp
  next
    case False
    then have high: "high ?s k = high s k" by (simp add: high_accept)
    have "counters_of k (accept_run accept ?s xs) = counters_of k xs"
      by (rule Cons.IH) (use Cons.prems x False high in \<open>auto simp: ready_accept\<close>)
    with False x show ?thesis by simp
  qed
qed simp

end


section \<open>Bounded logs\<close>

definition last_n :: "nat \<Rightarrow> 'a list \<Rightarrow> 'a list" where
  "last_n n xs = drop (length xs - n) xs"

lemma length_last_n: "length (last_n n xs) = min n (length xs)"
  by (simp add: last_n_def)

lemma last_n_all: "length xs \<le> n \<Longrightarrow> last_n n xs = xs"
  by (simp add: last_n_def)

lemma set_last_n: "set (last_n n xs) \<subseteq> set xs"
  by (simp add: last_n_def set_drop_subset)

lemma last_n_snoc:
  "0 < n \<Longrightarrow> last_n n (xs @ [x]) = (if length xs < n then xs else tl (last_n n xs)) @ [x]"
  by (auto simp: last_n_def tl_drop drop_Suc Suc_diff_le not_less)

lemma last_n_last_n_append: "last_n n (last_n n xs @ ys) = last_n n (xs @ ys)"
proof (cases "length xs \<le> n")
  case False
  let ?d = "length xs - n"
  have "last_n n (xs @ ys) = drop (length xs + length ys - n) (xs @ ys)"
    by (simp add: last_n_def)
  also have "\<dots> = drop (length ys) (drop ?d (xs @ ys))"
    using False by (simp add: add.commute)
  also have "\<dots> = last_n n (drop ?d xs @ ys)"
    using False by (simp add: last_n_def)
  finally show ?thesis by (simp add: last_n_def)
qed (simp add: last_n_all)

locale bounded_log =
  fixes push :: "'m \<Rightarrow> 's \<Rightarrow> 's"
    and items :: "'s \<Rightarrow> 'm list"
    and limit :: nat
  assumes limit_pos: "0 < limit"
    and items_push: "items (push m s) =
      (if length (items s) = limit then tl (items s) else items s) @ [m]"
begin

lemma items_push_last_n:
  assumes "length (items s) \<le> limit"
  shows "items (push m s) = last_n limit (items s @ [m])"
proof (cases "length (items s) = limit")
  case True
  then show ?thesis by (simp add: items_push last_n_snoc limit_pos last_n_all)
next
  case False
  with assms show ?thesis by (simp add: items_push last_n_snoc limit_pos)
qed

lemma length_items_push: "length (items s) \<le> limit \<Longrightarrow> length (items (push m s)) \<le> limit"
  by (simp add: items_push_last_n length_last_n)

lemma items_pushes:
  "length (items s) \<le> limit \<Longrightarrow> items (fold push ms s) = last_n limit (items s @ ms)"
proof (induction ms arbitrary: s)
  case (Cons m ms)
  have "items (fold push ms (push m s)) = last_n limit (items (push m s) @ ms)"
    by (rule Cons.IH) (rule length_items_push [OF Cons.prems])
  also have "\<dots> = last_n limit ((items s @ [m]) @ ms)"
    by (simp only: items_push_last_n [OF Cons.prems] last_n_last_n_append)
  finally show ?case by simp
qed (simp add: last_n_all)

lemma length_items_pushes: "length (items s) \<le> limit \<Longrightarrow> length (items (fold push ms s)) \<le> limit"
  by (simp add: items_pushes length_last_n)

end


section \<open>Keyed stores\<close>

locale keyed_store =
  fixes put :: "'k \<Rightarrow> 'v \<Rightarrow> 's \<Rightarrow> 's"
    and remove :: "'k \<Rightarrow> 's \<Rightarrow> 's"
    and lookup :: "'s \<Rightarrow> 'k \<Rightarrow> 'e option"
    and entry :: "'k \<Rightarrow> 'v \<Rightarrow> 'e"
  assumes lookup_put: "lookup (put k v s) k' = (if k' = k then Some (entry k v) else lookup s k')"
    and lookup_remove: "lookup (remove k s) k' = (if k' = k then None else lookup s k')"
begin

lemma lookup_removes:
  "lookup (fold remove ks s) k = (if k \<in> set ks then None else lookup s k)"
  by (induction ks arbitrary: s) (auto simp: lookup_remove)

lemma remove_put_fresh:
  "lookup s k = None \<Longrightarrow> lookup (remove k (put k v s)) k' = lookup s k'"
  by (simp add: lookup_remove lookup_put)

end

end
