(* ===== verification/RateLimit.thy ===== *)
theory RateLimit
  imports Interfaces
begin

text \<open>
  \<^verbatim>\<open>src/server/ratelimit.rs\<close>: the per-address sliding-window connection limiter. The mutex around the
  table is its poison flag: \<^verbatim>\<open>lock()\<close> fails on a poisoned mutex, and the limiter then denies.
  \<open>check\<close> and \<open>cleanup\<close> take the instant that \<^verbatim>\<open>Instant::now()\<close> returns in their body.
\<close>

datatype ip_addr = V4 "32 word" | V6 "128 word"

record rate_limiter =
  rl_by_ip :: "ip_addr \<rightharpoonup> instant list"
  rl_poisoned :: bool
  rl_window :: duration
  rl_max :: nat

definition rate_limiter_new :: "nat \<Rightarrow> duration \<Rightarrow> rate_limiter" where
  "rate_limiter_new max_per_window window =
     \<lparr>rl_by_ip = Map.empty, rl_poisoned = False, rl_window = window, rl_max = max_per_window\<rparr>"

definition check :: "instant \<Rightarrow> ip_addr \<Rightarrow> rate_limiter \<Rightarrow> bool \<times> rate_limiter" where
  "check now ip rl =
     (if rl_poisoned rl then (False, rl)
      else
        let entry = (case rl_by_ip rl ip of None \<Rightarrow> [] | Some q \<Rightarrow> q);
            entry = evict_expired (rl_window rl) now entry
        in if length entry \<ge> rl_max rl
           then (False, rl\<lparr>rl_by_ip := (rl_by_ip rl)(ip \<mapsto> entry)\<rparr>)
           else (True, rl\<lparr>rl_by_ip := (rl_by_ip rl)(ip \<mapsto> entry @ [now])\<rparr>))"

definition cleanup :: "instant \<Rightarrow> rate_limiter \<Rightarrow> rate_limiter" where
  "cleanup now rl =
     (if rl_poisoned rl then rl
      else rl\<lparr>rl_by_ip := (\<lambda>ip.
        case rl_by_ip rl ip of
          None \<Rightarrow> None
        | Some q \<Rightarrow>
            let q = evict_expired (rl_window rl) now q
            in if q = [] then None else Some q)\<rparr>)"

section \<open>The limiter implements the sliding-window contract\<close>

definition rl_stamps :: "rate_limiter \<Rightarrow> ip_addr \<Rightarrow> instant list" where
  "rl_stamps rl ip = (case rl_by_ip rl ip of None \<Rightarrow> [] | Some q \<Rightarrow> q)"

lemma rate_limiter_new_simps [simp]:
  "rl_stamps (rate_limiter_new m w) ip = []" "\<not> rl_poisoned (rate_limiter_new m w)"
  "rl_max (rate_limiter_new m w) = m" "rl_window (rate_limiter_new m w) = w"
  by (simp_all add: rate_limiter_new_def rl_stamps_def)

lemma check_frame [frame_simps]:
  "rl_poisoned (snd (check t ip rl)) = rl_poisoned rl"
  "rl_max (snd (check t ip rl)) = rl_max rl"
  "rl_window (snd (check t ip rl)) = rl_window rl"
  by (simp_all add: check_def Let_def)

lemma cleanup_frame [frame_simps]:
  "rl_poisoned (cleanup t rl) = rl_poisoned rl"
  "rl_max (cleanup t rl) = rl_max rl"
  "rl_window (cleanup t rl) = rl_window rl"
  by (simp_all add: cleanup_def)

lemma check_stamps:
  "\<not> rl_poisoned rl \<Longrightarrow>
     (fst (check t ip rl), rl_stamps (snd (check t ip rl)) ip)
       = slide (rl_max rl) (rl_window rl) t (rl_stamps rl ip)"
  by (simp add: check_def slide_def rl_stamps_def Let_def)

lemma check_other: "ip' \<noteq> ip \<Longrightarrow> rl_stamps (snd (check t ip rl)) ip' = rl_stamps rl ip'"
  by (simp add: check_def rl_stamps_def Let_def)

lemma cleanup_stamps:
  "rl_stamps (cleanup t rl) ip =
     (if rl_poisoned rl then rl_stamps rl ip
      else evict_expired (rl_window rl) t (rl_stamps rl ip))"
  by (simp add: cleanup_def rl_stamps_def Let_def split: option.split)

interpretation limiter: keyed_window check "\<lambda>t (_ :: unit). cleanup t" rl_stamps
  "\<lambda>rl _. \<not> rl_poisoned rl" rl_max rl_window
proof unfold_locales
  fix rl t and ip :: ip_addr
  show "\<not> \<not> rl_poisoned rl \<Longrightarrow> check t ip rl = (False, rl)"
    by (simp add: check_def)
qed (auto simp: check_stamps check_other cleanup_stamps frame_simps)

section \<open>Well-formed tables\<close>

text \<open>No queue is longer than the cap, queues are in time order, and no stamp lies in the future.\<close>

definition rl_inv :: "instant \<Rightarrow> rate_limiter \<Rightarrow> bool" where
  "rl_inv now rl \<longleftrightarrow> (\<forall>ip. queue_ok (rl_max rl) now (rl_stamps rl ip))"

lemma rl_inv_new: "rl_inv now (rate_limiter_new m w)"
  by (simp add: rl_inv_def)

lemma rl_inv_mono: "rl_inv m rl \<Longrightarrow> m \<le> now \<Longrightarrow> rl_inv now rl"
  by (auto simp: rl_inv_def intro: queue_ok_mono)

lemma rl_inv_check:
  assumes "rl_inv m rl" and "m \<le> now"
  shows "rl_inv now (snd (check now ip rl))"
proof (cases "rl_poisoned rl")
  case True
  with rl_inv_mono [OF assms] show ?thesis by (simp add: check_def)
next
  case False
  have own: "rl_stamps (snd (check now ip rl)) ip
      = snd (slide (rl_max rl) (rl_window rl) now (rl_stamps rl ip))"
    using check_stamps [OF False] by (metis snd_conv)
  have "queue_ok (rl_max rl) now (rl_stamps (snd (check now ip rl)) ip')" for ip'
    using rl_inv_mono [OF assms] own
    by (cases "ip' = ip") (simp_all add: rl_inv_def check_other queue_ok_slide)
  then show ?thesis by (simp add: rl_inv_def frame_simps)
qed

lemma rl_inv_cleanup:
  "rl_inv m rl \<Longrightarrow> m \<le> now \<Longrightarrow> rl_inv now (cleanup now rl)"
  using rl_inv_mono [of m rl now]
  by (simp add: rl_inv_def cleanup_stamps frame_simps queue_ok_evict)

lemma dom_cleanup:
  "\<not> rl_poisoned rl \<Longrightarrow>
     dom (rl_by_ip (cleanup now rl)) =
       {ip. evict_expired (rl_window rl) now (rl_stamps rl ip) \<noteq> []}"
  by (auto simp: cleanup_def rl_stamps_def Let_def split: option.splits if_splits)

text \<open>On a well-formed table the clean-up only drops what no later decision looks at.\<close>

lemma evict_expired_idem: "evict_expired w now (evict_expired w now q) = evict_expired w now q"
  by (induction q) simp_all

lemma check_cleanup:
  assumes "\<not> rl_poisoned rl"
  shows "fst (check now ip (cleanup now rl)) = fst (check now ip rl)"
proof -
  have p: "\<not> rl_poisoned (cleanup now rl)" using assms by (simp add: frame_simps)
  show ?thesis
    using arg_cong [OF check_stamps [OF p, of now ip], of fst] assms
      arg_cong [OF check_stamps [OF assms, of now ip], of fst]
    by (simp add: cleanup_stamps frame_simps slide_def evict_expired_idem Let_def)
qed

lemma cleanup_window:
  assumes "rl_inv m rl" and "m \<le> now" and "\<not> rl_poisoned rl"
  shows "rl_stamps (cleanup now rl) ip = filter (\<lambda>t. now \<le> t + rl_window rl) (rl_stamps rl ip)"
    and "dom (rl_by_ip (cleanup now rl)) = {ip. \<exists>t \<in> set (rl_stamps rl ip). now \<le> t + rl_window rl}"
    and "fst (check now ip (cleanup now rl)) = fst (check now ip rl)"
proof -
  have evict: "evict_expired (rl_window rl) now (rl_stamps rl ip)
      = filter (\<lambda>t. now \<le> t + rl_window rl) (rl_stamps rl ip)" for ip
    using assms(1) by (intro evict_expired_filter) (auto simp: rl_inv_def queue_ok_def)
  show "rl_stamps (cleanup now rl) ip = filter (\<lambda>t. now \<le> t + rl_window rl) (rl_stamps rl ip)"
    using assms(3) by (simp add: cleanup_stamps evict)
  show "dom (rl_by_ip (cleanup now rl)) = {ip. \<exists>t \<in> set (rl_stamps rl ip). now \<le> t + rl_window rl}"
    using assms(3) by (auto simp: dom_cleanup evict filter_empty_conv)
qed (rule check_cleanup [OF assms(3)])

end
