(* ===== verification/Proto.thy ===== *)
theory Proto
  imports Prelude
begin

text \<open>
  The wire protocol of \<^verbatim>\<open>src/proto.rs\<close> and the error type of \<^verbatim>\<open>src/error.rs\<close>: the protocol
  constants, \<^verbatim>\<open>MessageAd\<close>, \<^verbatim>\<open>RoomMessage\<close>, the two frame enums, \<^verbatim>\<open>ErrorKind\<close> and \<^verbatim>\<open>Error\<close>.
  The payload of an error that wraps a third-party error value is not modelled: the program
  only prints it.
\<close>

section \<open>Constants\<close>

definition PROTOCOL_VERSION :: u16 where "PROTOCOL_VERSION = 2"
definition MAX_FRAME_LEN :: nat where "MAX_FRAME_LEN = 64 * 1024"
definition HISTORY_LEN :: nat where "HISTORY_LEN = 15"
definition MAX_USERNAME_LEN :: nat where "MAX_USERNAME_LEN = 32"
definition MAX_ROOM_ID_LEN :: nat where "MAX_ROOM_ID_LEN = 32"
definition MAX_CIPHERTEXT_LEN :: nat where "MAX_CIPHERTEXT_LEN = 4096"
definition EPHEMERAL_TTL_MS :: nat where "EPHEMERAL_TTL_MS = 30000"
definition EPHEMERAL_REVEAL_MS :: nat where "EPHEMERAL_REVEAL_MS = 3000"
definition EPHEMERAL_MASK :: str where "EPHEMERAL_MASK = lit ''*******''"

text \<open>\<^verbatim>\<open>now_ms\<close>: \<open>since_epoch\<close> is the time since 1970, \<open>None\<close> when the clock stands before it; the cast to
  \<^verbatim>\<open>u64\<close> reduces modulo \<open>2 ^ 64\<close>.\<close>

definition now_ms :: "duration option \<Rightarrow> u64" where
  "now_ms since_epoch = (case since_epoch of None \<Rightarrow> 0 | Some d \<Rightarrow> of_nat (as_millis d))"

section \<open>Errors\<close>

datatype error_kind = AuthFailed | BadFrame | RateLimited | UnsupportedVersionKind | Internal

datatype error =
    Io
  | Postcard
  | Noise
  | Argon2
  | Kdf
  | Aead
  | Random
  | Closed
  | UnsupportedVersion u16
  | Protocol string
  | MissingEnv string
  | ServerErr error_kind

type_synonym 'a result = "error + 'a"

section \<open>Frames\<close>

record message_ad =
  ad_from :: uuid
  ad_username :: str
  ad_counter :: u64
  ad_timestamp_ms :: u64
  ad_ephemeral :: bool

record room_message =
  rm_from :: uuid
  rm_username :: str
  rm_ad :: message_ad
  rm_ciphertext :: bytes

datatype client_frame =
    RoomSelect str
  | ClientHello str
  | ClientMessage message_ad bytes
  | Clear

datatype server_frame =
    ServerHello bytes u16
  | Welcome uuid "room_message list"
  | ServerMessage room_message
  | Cleared uuid str
  | ServerError error_kind

end
