(* ===== verification/Stores.thy ===== *)
theory Stores
  imports Proto Interfaces
begin

text \<open>
  \<^verbatim>\<open>src/server/stores.rs\<close> and \<^verbatim>\<open>src/server/managers.rs\<close>: the per-room message history, the session
  store with its replay counter, message quota and clear cooldown, and the connection table.
  An operation that calls \<^verbatim>\<open>Instant::now()\<close> takes that instant as its first argument; one that
  iterates over the sessions takes the iteration order. An outgoing channel end
  (\<^verbatim>\<open>mpsc::Sender\<close>) is a value of a type parameter.
\<close>

definition MSG_RATE_MAX :: nat where "MSG_RATE_MAX = 30"
definition MSG_RATE_WINDOW :: duration where "MSG_RATE_WINDOW = from_secs 10"
definition CLEAR_COOLDOWN :: duration where "CLEAR_COOLDOWN = from_secs 30"

section \<open>Message history\<close>

record message_store =
  ms_history :: "room_message list"

definition message_store_new :: message_store where
  "message_store_new = \<lparr>ms_history = []\<rparr>"

definition ms_push :: "room_message \<Rightarrow> message_store \<Rightarrow> message_store" where
  "ms_push msg m =
     (let h = (if length (ms_history m) = HISTORY_LEN then tl (ms_history m) else ms_history m)
      in m\<lparr>ms_history := h @ [msg]\<rparr>)"

definition ms_snapshot :: "message_store \<Rightarrow> room_message list" where
  "ms_snapshot m = ms_history m"

definition ms_clear :: "message_store \<Rightarrow> message_store" where
  "ms_clear m = m\<lparr>ms_history := []\<rparr>"

interpretation history: bounded_log ms_push ms_snapshot HISTORY_LEN
  by unfold_locales (simp_all add: ms_push_def ms_snapshot_def HISTORY_LEN_def Let_def)

lemma ms_snapshot_simps [simp]:
  "ms_snapshot message_store_new = []" "ms_snapshot (ms_clear m) = []"
  by (simp_all add: ms_snapshot_def message_store_new_def ms_clear_def)

lemma set_ms_push: "set (ms_snapshot (ms_push msg m)) \<subseteq> insert msg (set (ms_snapshot m))"
  by (auto simp: ms_push_def ms_snapshot_def Let_def dest: list.set_sel(2) split: if_splits)
    (metis list.sel(2) list.set_sel(2))


section \<open>Sessions\<close>

record user_session =
  us_user_id :: uuid
  us_username :: str
  us_last_active :: instant
  us_last_counter :: u64
  us_message_window :: "instant list"
  us_last_clear :: "instant option"

record user_session_store =
  ss_sessions :: "uuid \<rightharpoonup> user_session"
  ss_timeout :: duration

definition session_store_new :: "duration \<Rightarrow> user_session_store" where
  "session_store_new timeout = \<lparr>ss_sessions = Map.empty, ss_timeout = timeout\<rparr>"

definition ss_insert :: "instant \<Rightarrow> uuid \<Rightarrow> str \<Rightarrow> user_session_store \<Rightarrow> user_session_store" where
  "ss_insert now user_id username st =
     st\<lparr>ss_sessions := (ss_sessions st)(user_id \<mapsto>
       \<lparr>us_user_id = user_id, us_username = username, us_last_active = now, us_last_counter = 0,
        us_message_window = [], us_last_clear = None\<rparr>)\<rparr>"

definition ss_touch :: "instant \<Rightarrow> uuid \<Rightarrow> user_session_store \<Rightarrow> user_session_store" where
  "ss_touch now user_id st =
     (case ss_sessions st user_id of
        None \<Rightarrow> st
      | Some s \<Rightarrow> st\<lparr>ss_sessions := (ss_sessions st)(user_id \<mapsto> s\<lparr>us_last_active := now\<rparr>)\<rparr>)"

definition try_advance_counter ::
  "uuid \<Rightarrow> u64 \<Rightarrow> user_session_store \<Rightarrow> bool \<times> user_session_store" where
  "try_advance_counter user_id counter st =
     (case ss_sessions st user_id of
        None \<Rightarrow> (False, st)
      | Some s \<Rightarrow>
          if counter > us_last_counter s
          then (True,
            st\<lparr>ss_sessions := (ss_sessions st)(user_id \<mapsto> s\<lparr>us_last_counter := counter\<rparr>)\<rparr>)
          else (False, st))"

definition try_consume_message_quota ::
  "instant \<Rightarrow> uuid \<Rightarrow> user_session_store \<Rightarrow> bool \<times> user_session_store" where
  "try_consume_message_quota now user_id st =
     (case ss_sessions st user_id of
        None \<Rightarrow> (False, st)
      | Some s \<Rightarrow>
          let w = evict_expired MSG_RATE_WINDOW now (us_message_window s)
          in if length w \<ge> MSG_RATE_MAX
             then (False,
               st\<lparr>ss_sessions := (ss_sessions st)(user_id \<mapsto> s\<lparr>us_message_window := w\<rparr>)\<rparr>)
             else (True,
               st\<lparr>ss_sessions :=
                 (ss_sessions st)(user_id \<mapsto> s\<lparr>us_message_window := w @ [now]\<rparr>)\<rparr>))"

definition try_consume_clear ::
  "instant \<Rightarrow> uuid \<Rightarrow> user_session_store \<Rightarrow> bool \<times> user_session_store" where
  "try_consume_clear now user_id st =
     (case ss_sessions st user_id of
        None \<Rightarrow> (False, st)
      | Some s \<Rightarrow>
          if (case us_last_clear s of
                None \<Rightarrow> False
              | Some prev \<Rightarrow> duration_since now prev < CLEAR_COOLDOWN)
          then (False, st)
          else (True,
            st\<lparr>ss_sessions := (ss_sessions st)(user_id \<mapsto> s\<lparr>us_last_clear := Some now\<rparr>)\<rparr>))"

definition ss_remove ::
  "uuid \<Rightarrow> user_session_store \<Rightarrow> user_session option \<times> user_session_store" where
  "ss_remove user_id st =
     (ss_sessions st user_id, st\<lparr>ss_sessions := (ss_sessions st)(user_id := None)\<rparr>)"

definition ss_stale :: "instant \<Rightarrow> uuid list \<Rightarrow> user_session_store \<Rightarrow> uuid list" where
  "ss_stale now order st =
     map fst (filter (\<lambda>(_, s). duration_since now (us_last_active s) > ss_timeout st)
       (entries (ss_sessions st) order))"


section \<open>Connections\<close>

record 'tx connection_manager =
  cm_senders :: "uuid \<rightharpoonup> 'tx"

definition connection_manager_new :: "'tx connection_manager" where
  "connection_manager_new = \<lparr>cm_senders = Map.empty\<rparr>"

definition cm_insert :: "uuid \<Rightarrow> 'tx \<Rightarrow> 'tx connection_manager \<Rightarrow> 'tx connection_manager" where
  "cm_insert user_id tx c = c\<lparr>cm_senders := (cm_senders c)(user_id \<mapsto> tx)\<rparr>"

definition cm_remove :: "uuid \<Rightarrow> 'tx connection_manager \<Rightarrow> 'tx connection_manager" where
  "cm_remove user_id c = c\<lparr>cm_senders := (cm_senders c)(user_id := None)\<rparr>"

definition cm_snapshot :: "uuid list \<Rightarrow> 'tx connection_manager \<Rightarrow> (uuid \<times> 'tx) list" where
  "cm_snapshot order c = entries (cm_senders c) order"

lemma connection_manager_new_simps [simp]: "cm_senders connection_manager_new = Map.empty"
  by (simp add: connection_manager_new_def)

lemma cm_senders_simps [store_simps]:
  "cm_senders (cm_insert u tx c) = (cm_senders c)(u \<mapsto> tx)"
  "cm_senders (cm_remove u c) = (cm_senders c)(u := None)"
  by (simp_all add: cm_insert_def cm_remove_def)

interpretation conns: keyed_store cm_insert cm_remove cm_senders "\<lambda>_ tx. tx"
  by unfold_locales (simp_all add: store_simps)

lemma dom_cm_removes: "dom (cm_senders (fold cm_remove us c)) = dom (cm_senders c) - set us"
  by (auto simp: conns.lookup_removes dom_def)


section \<open>The session store as a keyed store\<close>

definition fresh_session :: "uuid \<Rightarrow> str \<times> instant \<Rightarrow> user_session" where
  "fresh_session u v =
     \<lparr>us_user_id = u, us_username = fst v, us_last_active = snd v, us_last_counter = 0,
      us_message_window = [], us_last_clear = None\<rparr>"

lemma session_store_new_simps [simp]:
  "ss_sessions (session_store_new t) = Map.empty" "ss_timeout (session_store_new t) = t"
  by (simp_all add: session_store_new_def)

lemma ss_insert_sessions [store_simps]:
  "ss_sessions (ss_insert now u name st) = (ss_sessions st)(u \<mapsto> fresh_session u (name, now))"
  by (simp add: ss_insert_def fresh_session_def)

lemma ss_remove_sessions [store_simps]:
  "ss_sessions (snd (ss_remove u st)) = (ss_sessions st)(u := None)"
  by (simp add: ss_remove_def)

lemma ss_touch_sessions [store_simps]:
  "ss_sessions (ss_touch now u st) =
     (case ss_sessions st u of None \<Rightarrow> ss_sessions st
      | Some s \<Rightarrow> (ss_sessions st)(u \<mapsto> s\<lparr>us_last_active := now\<rparr>))"
  by (simp add: ss_touch_def split: option.split)

interpretation sessions: keyed_store "\<lambda>u v. ss_insert (snd v) u (fst v)"
  "\<lambda>u st. snd (ss_remove u st)" ss_sessions fresh_session
  by unfold_locales (simp_all add: store_simps)

lemma dom_ss_removes:
  "dom (ss_sessions (fold (\<lambda>u st. snd (ss_remove u st)) us st)) = dom (ss_sessions st) - set us"
  by (auto simp: sessions.lookup_removes dom_def)

lemma ss_timeout_simps [frame_simps]:
  "ss_timeout (ss_insert t u n st) = ss_timeout st"
  "ss_timeout (ss_touch t u st) = ss_timeout st"
  "ss_timeout (snd (try_advance_counter u c st)) = ss_timeout st"
  "ss_timeout (snd (try_consume_message_quota t u st)) = ss_timeout st"
  "ss_timeout (snd (try_consume_clear t u st)) = ss_timeout st"
  "ss_timeout (snd (ss_remove u st)) = ss_timeout st"
  by (simp_all add: ss_insert_def ss_touch_def try_advance_counter_def Let_def
      try_consume_message_quota_def try_consume_clear_def ss_remove_def split: option.split)

text \<open>The operations in the middle of a session neither create nor remove one.\<close>

lemma dom_session_ops [frame_simps]:
  "dom (ss_sessions (ss_touch t u st)) = dom (ss_sessions st)"
  "dom (ss_sessions (snd (try_advance_counter u c st))) = dom (ss_sessions st)"
  "dom (ss_sessions (snd (try_consume_message_quota t u st))) = dom (ss_sessions st)"
  "dom (ss_sessions (snd (try_consume_clear t u st))) = dom (ss_sessions st)"
  by (auto simp: ss_touch_def try_advance_counter_def try_consume_message_quota_def
      try_consume_clear_def Let_def split: option.split if_splits)

lemma set_ss_stale:
  assumes "iteration_order (ss_sessions st) order"
  shows "set (ss_stale now order st) =
    {u. \<exists>s. ss_sessions st u = Some s \<and> ss_timeout st < duration_since now (us_last_active s)}"
  using set_entries_order [OF assms] by (force simp: ss_stale_def)

lemma distinct_ss_stale: "distinct order \<Longrightarrow> distinct (ss_stale now order st)"
  unfolding ss_stale_def
  using distinct_entries [of order "ss_sessions st"] by (simp add: distinct_map_filter)

end
