(* ===== verification/SessionRules.thy ===== *)
theory SessionRules
  imports Stores
begin

text \<open>
  The contracts that the session store meets: its replay counter is a strictly increasing
  register, its message quota a sliding window of \<open>MSG_RATE_MAX\<close> sends, and its clear cooldown a
  sliding window of one clear. The window contracts allow every other mid-session operation of
  every session in between. Also the well-formedness invariant of the store.
\<close>

section \<open>Replay counters\<close>

definition session_counter :: "user_session_store \<Rightarrow> uuid \<Rightarrow> u64" where
  "session_counter st u = (case ss_sessions st u of None \<Rightarrow> 0 | Some s \<Rightarrow> us_last_counter s)"

definition has_session :: "user_session_store \<Rightarrow> uuid \<Rightarrow> bool" where
  "has_session st u \<longleftrightarrow> ss_sessions st u \<noteq> None"

interpretation replay: counter_register try_advance_counter session_counter has_session
  by unfold_locales
    (auto simp: try_advance_counter_def session_counter_def has_session_def split: option.splits)

lemma has_session_ops [frame_simps]:
  "has_session (ss_touch t u st) u' = has_session st u'"
  "has_session (snd (try_advance_counter u c st)) u' = has_session st u'"
  "has_session (snd (try_consume_message_quota t u st)) u' = has_session st u'"
  "has_session (snd (try_consume_clear t u st)) u' = has_session st u'"
  using dom_session_ops unfolding has_session_def by blast+

lemma session_counter_ops [frame_simps]:
  "session_counter (ss_touch t u st) u' = session_counter st u'"
  "session_counter (snd (try_consume_message_quota t u st)) u' = session_counter st u'"
  "session_counter (snd (try_consume_clear t u st)) u' = session_counter st u'"
  by (auto simp: session_counter_def ss_touch_def try_consume_message_quota_def
      try_consume_clear_def Let_def split: option.split)

section \<open>Message quota\<close>

definition msg_stamps :: "user_session_store \<Rightarrow> uuid \<Rightarrow> instant list" where
  "msg_stamps st u = (case ss_sessions st u of None \<Rightarrow> [] | Some s \<Rightarrow> us_message_window s)"

datatype quota_side = QTouch uuid | QAdvance uuid u64 | QClear uuid

primrec quota_side_step :: "instant \<Rightarrow> quota_side \<Rightarrow> user_session_store \<Rightarrow> user_session_store" where
  "quota_side_step t (QTouch u) st = ss_touch t u st"
| "quota_side_step t (QAdvance u c) st = snd (try_advance_counter u c st)"
| "quota_side_step t (QClear u) st = snd (try_consume_clear t u st)"

lemma msg_stamps_ops [frame_simps]:
  "msg_stamps (ss_touch t u st) u' = msg_stamps st u'"
  "msg_stamps (snd (try_advance_counter u c st)) u' = msg_stamps st u'"
  "msg_stamps (snd (try_consume_clear t u st)) u' = msg_stamps st u'"
  by (auto simp: msg_stamps_def ss_touch_def try_advance_counter_def try_consume_clear_def
      split: option.split)

lemma quota_slide:
  "has_session st u \<Longrightarrow>
     (fst (try_consume_message_quota t u st), msg_stamps (snd (try_consume_message_quota t u st)) u)
       = slide MSG_RATE_MAX MSG_RATE_WINDOW t (msg_stamps st u)"
  by (auto simp: has_session_def try_consume_message_quota_def msg_stamps_def slide_def Let_def)

lemma quota_other:
  "u' \<noteq> u \<Longrightarrow> msg_stamps (snd (try_consume_message_quota t u st)) u' = msg_stamps st u'"
  by (simp add: try_consume_message_quota_def msg_stamps_def Let_def split: option.split)

interpretation quota: keyed_window try_consume_message_quota quota_side_step msg_stamps has_session
  "\<lambda>_. MSG_RATE_MAX" "\<lambda>_. MSG_RATE_WINDOW"
proof unfold_locales
  fix st t and u u' :: uuid and x
  show "\<not> has_session st u \<Longrightarrow> try_consume_message_quota t u st = (False, st)"
    by (simp add: has_session_def try_consume_message_quota_def)
  show "has_session (quota_side_step t x st) u = has_session st u"
    by (cases x) (simp_all add: frame_simps)
  show "msg_stamps (quota_side_step t x st) u = msg_stamps st u \<or>
      msg_stamps (quota_side_step t x st) u = evict_expired MSG_RATE_WINDOW t (msg_stamps st u)"
    by (cases x) (simp_all add: frame_simps)
qed (simp_all add: quota_slide quota_other frame_simps)

section \<open>Clear cooldown\<close>

definition clear_stamps :: "user_session_store \<Rightarrow> uuid \<Rightarrow> instant list" where
  "clear_stamps st u =
     (case ss_sessions st u of None \<Rightarrow> []
      | Some s \<Rightarrow> (case us_last_clear s of None \<Rightarrow> [] | Some t \<Rightarrow> [t]))"

datatype clear_side = CTouch uuid | CAdvance uuid u64 | CQuota uuid

primrec clear_side_step :: "instant \<Rightarrow> clear_side \<Rightarrow> user_session_store \<Rightarrow> user_session_store" where
  "clear_side_step t (CTouch u) st = ss_touch t u st"
| "clear_side_step t (CAdvance u c) st = snd (try_advance_counter u c st)"
| "clear_side_step t (CQuota u) st = snd (try_consume_message_quota t u st)"

lemma clear_stamps_ops [frame_simps]:
  "clear_stamps (ss_touch t u st) u' = clear_stamps st u'"
  "clear_stamps (snd (try_advance_counter u c st)) u' = clear_stamps st u'"
  "clear_stamps (snd (try_consume_message_quota t u st)) u' = clear_stamps st u'"
  by (auto simp: clear_stamps_def ss_touch_def try_advance_counter_def
      try_consume_message_quota_def Let_def split: option.split)

text \<open>
  A clear is refused when the previous one is less than \<open>CLEAR_COOLDOWN\<close> old, that is, at most
  \<open>CLEAR_COOLDOWN - 1\<close> nanoseconds.
\<close>

lemma clear_slide:
  "has_session st u \<Longrightarrow>
     (fst (try_consume_clear t u st), clear_stamps (snd (try_consume_clear t u st)) u)
       = slide 1 (CLEAR_COOLDOWN - 1) t (clear_stamps st u)"
  by (auto simp: has_session_def try_consume_clear_def clear_stamps_def slide_def Let_def
      duration_since_def CLEAR_COOLDOWN_def from_secs_def split: option.splits)

lemma clear_other:
  "u' \<noteq> u \<Longrightarrow> clear_stamps (snd (try_consume_clear t u st)) u' = clear_stamps st u'"
  by (simp add: try_consume_clear_def clear_stamps_def split: option.split)

interpretation cooldown: keyed_window try_consume_clear clear_side_step clear_stamps has_session
  "\<lambda>_. 1" "\<lambda>_. CLEAR_COOLDOWN - 1"
proof unfold_locales
  fix st t and u u' :: uuid and x
  show "\<not> has_session st u \<Longrightarrow> try_consume_clear t u st = (False, st)"
    by (simp add: has_session_def try_consume_clear_def)
  show "has_session (clear_side_step t x st) u = has_session st u"
    by (cases x) (simp_all add: frame_simps)
  show "clear_stamps (clear_side_step t x st) u = clear_stamps st u \<or>
      clear_stamps (clear_side_step t x st) u
        = evict_expired (CLEAR_COOLDOWN - 1) t (clear_stamps st u)"
    by (cases x) (simp_all add: frame_simps)
qed (simp_all add: clear_slide clear_other frame_simps)

section \<open>Well-formed session stores\<close>

definition session_ok :: "instant \<Rightarrow> uuid \<Rightarrow> user_session \<Rightarrow> bool" where
  "session_ok now u s \<longleftrightarrow>
     us_user_id s = u \<and> us_last_active s \<le> now \<and> queue_ok MSG_RATE_MAX now (us_message_window s) \<and>
     (case us_last_clear s of None \<Rightarrow> True | Some t \<Rightarrow> t \<le> now)"

definition ss_inv :: "instant \<Rightarrow> user_session_store \<Rightarrow> bool" where
  "ss_inv now st \<longleftrightarrow> (\<forall>u s. ss_sessions st u = Some s \<longrightarrow> session_ok now u s)"

lemma session_ok_mono: "session_ok m u s \<Longrightarrow> m \<le> now \<Longrightarrow> session_ok now u s"
  by (auto simp: session_ok_def intro: queue_ok_mono split: option.splits)

lemma ss_inv_mono: "ss_inv m st \<Longrightarrow> m \<le> now \<Longrightarrow> ss_inv now st"
  by (auto simp: ss_inv_def intro: session_ok_mono)

lemma ss_inv_upd:
  "ss_inv now st \<Longrightarrow> session_ok now u s \<Longrightarrow> ss_inv now (st\<lparr>ss_sessions := (ss_sessions st)(u \<mapsto> s)\<rparr>)"
  by (simp add: ss_inv_def)

lemma ss_inv_new: "ss_inv now (session_store_new t)"
  by (simp add: ss_inv_def)

lemma ss_inv_insert: "ss_inv now st \<Longrightarrow> t \<le> now \<Longrightarrow> ss_inv now (ss_insert t u name st)"
  by (simp add: ss_insert_def ss_inv_upd session_ok_def)

lemma ss_inv_touch: "ss_inv now st \<Longrightarrow> ss_inv now (ss_touch now u st)"
  unfolding ss_touch_def
  by (auto split: option.split intro!: ss_inv_upd simp: ss_inv_def session_ok_def)

lemma ss_inv_advance: "ss_inv now st \<Longrightarrow> ss_inv now (snd (try_advance_counter u c st))"
  unfolding try_advance_counter_def
  by (auto split: option.split intro!: ss_inv_upd simp: ss_inv_def session_ok_def)

lemma ss_inv_quota:
  assumes "ss_inv now st"
  shows "ss_inv now (snd (try_consume_message_quota now u st))"
proof (cases "ss_sessions st u")
  case (Some s)
  with assms have ok: "session_ok now u s" by (simp add: ss_inv_def)
  let ?w = "snd (slide MSG_RATE_MAX MSG_RATE_WINDOW now (us_message_window s))"
  have "session_ok now u (s\<lparr>us_message_window := ?w\<rparr>)"
    using ok queue_ok_slide [of MSG_RATE_MAX now "us_message_window s"]
    by (simp add: session_ok_def)
  then have "ss_inv now (st\<lparr>ss_sessions := (ss_sessions st)(u \<mapsto> s\<lparr>us_message_window := ?w\<rparr>)\<rparr>)"
    by (rule ss_inv_upd [OF assms])
  with Some show ?thesis
    by (auto simp: try_consume_message_quota_def slide_def Let_def split: if_splits)
qed (simp add: assms try_consume_message_quota_def)

lemma ss_inv_clear: "ss_inv now st \<Longrightarrow> ss_inv now (snd (try_consume_clear now u st))"
  unfolding try_consume_clear_def
  by (auto split: option.split intro!: ss_inv_upd simp: ss_inv_def session_ok_def)

lemma ss_inv_remove: "ss_inv now st \<Longrightarrow> ss_inv now (snd (ss_remove u st))"
  by (simp add: ss_inv_def ss_remove_def)

lemmas ss_inv_intros = ss_inv_insert ss_inv_touch ss_inv_advance ss_inv_quota ss_inv_clear ss_inv_remove

end
