(* ===== verification/Rooms.thy ===== *)
theory Rooms
  imports Proto
begin

text \<open>
  \<^verbatim>\<open>src/server/rooms.rs\<close>: the parser of the \<^verbatim>\<open>CHAT_RS_ROOMS\<close> variable and the room-name check. The
  loop over the lines carries the rooms found so far and the set of names seen.
\<close>

definition MIN_PW_LEN :: nat where "MIN_PW_LEN = 12"

record room_config =
  rc_name :: str
  rc_password :: str

definition validate_name :: "str \<Rightarrow> unit result" where
  "validate_name name =
     (if name = [] \<or> str_len name > MAX_ROOM_ID_LEN then
        Inl (Protocol ''invalid room name length'')
      else if \<not> all_name_bytes name then
        Inl (Protocol ''room name must match [A-Za-z0-9_-]'')
      else Inr ())"

definition missing_equals :: error where
  "missing_equals = Protocol (''rooms config: line missing '='' @ [CHR 0x27])"

definition starts_with_hash :: "str \<Rightarrow> bool" where
  "starts_with_hash s \<longleftrightarrow> take 1 s = lit ''#''"

fun parse_from :: "str list \<Rightarrow> room_config list \<Rightarrow> str set \<Rightarrow> room_config list result" where
  "parse_from [] rooms seen = Inr rooms"
| "parse_from (line # rest) rooms seen =
     (let line = trim line in
      if line = [] \<or> starts_with_hash line then parse_from rest rooms seen
      else
        and_then (ok_or missing_equals (split_once 61 line)) (\<lambda>(name, password).
          let name = trim name; password = trim password in
          and_then (validate_name name) (\<lambda>_.
            if str_len password < MIN_PW_LEN then
              Inl (Protocol ''rooms config: password too short'')
            else if name \<in> seen then
              Inl (Protocol ''rooms config: duplicate room name'')
            else
              parse_from rest (rooms @ [\<lparr>rc_name = name, rc_password = password\<rparr>])
                (insert name seen))))"

definition parse :: "str \<Rightarrow> room_config list result" where
  "parse text =
     and_then (parse_from (lines text) [] {}) (\<lambda>rooms.
       if rooms = [] then Inl (Protocol ''rooms config: no rooms'') else Inr rooms)"

section \<open>Room names\<close>

lemma validate_name_Inr:
  "validate_name name = Inr () \<longleftrightarrow>
     name \<noteq> [] \<and> length name \<le> MAX_ROOM_ID_LEN \<and> (\<forall>c \<in> set name. name_char c)"
proof -
  have "str_len name \<le> MAX_ROOM_ID_LEN \<longleftrightarrow> length name \<le> MAX_ROOM_ID_LEN"
    if "\<forall>c \<in> set name. name_char c"
    using str_len_name [OF that] by simp
  then show ?thesis
    by (auto simp: validate_name_def all_name_bytes_iff)
qed

lemma valid_name_trim: "validate_name name = Inr () \<Longrightarrow> trim name = name"
  by (intro trim_id) (auto simp: validate_name_Inr name_char_not_ws)

section \<open>One line\<close>

text \<open>What a line contributes: nothing, an error, or a room whose name must be new.\<close>

definition parse_line :: "str \<Rightarrow> room_config option result" where
  "parse_line line =
     (let line = trim line in
      if line = [] \<or> starts_with_hash line then Inr None
      else
        and_then (ok_or missing_equals (split_once 61 line)) (\<lambda>(name, password).
          and_then (validate_name (trim name)) (\<lambda>_.
            if str_len (trim password) < MIN_PW_LEN then
              Inl (Protocol ''rooms config: password too short'')
            else Inr (Some \<lparr>rc_name = trim name, rc_password = trim password\<rparr>))))"

lemma parse_from_line:
  "parse_from (line # rest) rooms seen =
     and_then (parse_line line) (\<lambda>r.
       case r of None \<Rightarrow> parse_from rest rooms seen
       | Some rc \<Rightarrow>
           if rc_name rc \<in> seen then Inl (Protocol ''rooms config: duplicate room name'')
           else parse_from rest (rooms @ [rc]) (insert (rc_name rc) seen))"
proof -
  let ?l = "trim line"
  show ?thesis
  proof (cases "?l = [] \<or> starts_with_hash ?l")
    case False
    then show ?thesis
      by (cases "split_once 61 ?l")
        (auto simp: parse_line_def Let_def and_then_def split: sum.split)
  qed (simp add: parse_line_def Let_def)
qed

text \<open>A configuration the parser accepts: a checked name, and a password that is long enough,
  has no line break and no white space at its ends.\<close>

definition config_ok :: "room_config \<Rightarrow> bool" where
  "config_ok rc \<longleftrightarrow>
     validate_name (rc_name rc) = Inr () \<and> MIN_PW_LEN \<le> str_len (rc_password rc) \<and>
     10 \<notin> set (rc_password rc) \<and> trim (rc_password rc) = rc_password rc"

lemma parse_line_ok:
  assumes "parse_line line = Inr (Some rc)" and "10 \<notin> set line"
  shows "config_ok rc"
proof -
  let ?l = "trim line"
  from assms(1) obtain name pw where split: "split_once 61 ?l = Some (name, pw)"
    and rc: "validate_name (trim name) = Inr ()" "\<not> str_len (trim pw) < MIN_PW_LEN"
      "rc = \<lparr>rc_name = trim name, rc_password = trim pw\<rparr>"
    by (auto simp: parse_line_def Let_def and_then_Inr_iff ok_or_Inr_iff split: if_splits)
  from split have "set pw \<subseteq> set ?l" by (auto dest: split_once_SomeD)
  with assms(2) have "10 \<notin> set (trim pw)" using set_trim by blast
  with rc show ?thesis by (simp add: config_ok_def)
qed

section \<open>The accepted configurations\<close>

lemma parse_from_sound:
  assumes "parse_from ls rooms seen = Inr out" and "\<forall>l \<in> set ls. 10 \<notin> set l"
    and "\<forall>rc \<in> set rooms. config_ok rc" and "distinct (map rc_name rooms)"
    and "seen = rc_name ` set rooms"
  shows "(\<forall>rc \<in> set out. config_ok rc) \<and> distinct (map rc_name out)"
  using assms
proof (induction ls arbitrary: rooms seen)
  case (Cons l ls)
  from Cons.prems(1) obtain r where r: "parse_line l = Inr r"
    by (auto simp: parse_from_line and_then_Inr_iff simp del: parse_from.simps)
  show ?case
  proof (cases r)
    case None
    with Cons r show ?thesis by (simp add: parse_from_line del: parse_from.simps)
  next
    case (Some rc)
    with Cons.prems r have "config_ok rc" by (auto intro: parse_line_ok)
    with Cons.prems Some r Cons.IH [of "rooms @ [rc]" "insert (rc_name rc) seen"] show ?thesis
      by (simp add: parse_from_line del: parse_from.simps split: if_splits)
  qed
qed simp

lemma parse_sound:
  assumes "parse text = Inr rooms"
  shows "rooms \<noteq> [] \<and> (\<forall>rc \<in> set rooms. config_ok rc) \<and> distinct (map rc_name rooms)"
  using assms parse_from_sound [of "lines text" "[]" "{}" rooms] lines_no_newline
  by (auto simp: parse_def and_then_Inr_iff split: if_splits)

section \<open>Printing a configuration\<close>

text \<open>A configuration in the documented format, one \<^verbatim>\<open>name=password\<close> per line.\<close>

definition print_line :: "room_config \<Rightarrow> str" where
  "print_line rc = rc_name rc @ lit ''='' @ rc_password rc"

definition print_rooms :: "room_config list \<Rightarrow> str" where
  "print_rooms rooms = concat (map (\<lambda>rc. print_line rc @ [10]) rooms)"

lemma parse_line_print:
  assumes "config_ok rc"
  shows "parse_line (print_line rc) = Inr (Some rc)" and "strip_cr (print_line rc) = print_line rc"
    and "10 \<notin> set (print_line rc)"
proof -
  let ?n = "rc_name rc" and ?p = "rc_password rc" and ?l = "print_line rc"
  from assms have n: "?n \<noteq> []" "\<forall>c \<in> set ?n. name_char c" and v: "validate_name ?n = Inr ()"
    and p: "12 \<le> str_len ?p" "trim ?p = ?p" "10 \<notin> set ?p"
    by (auto simp: config_ok_def validate_name_Inr MIN_PW_LEN_def)
  from p have "?p \<noteq> []" by (auto simp: str_len_def)
  with p trim_ends [of ?p] have last: "\<not> is_whitespace (last ?l)" by (simp add: print_line_def)
  from n have hd: "name_char (hd ?l)" by (simp add: print_line_def)
  then have trim: "trim ?l = ?l" using last by (intro trim_id) (simp add: name_char_not_ws)
  from n have eq: "61 \<notin> set ?n" by (auto simp: name_char_def)
  from n have "\<not> starts_with_hash ?l"
    by (cases ?n) (auto simp: starts_with_hash_def print_line_def name_char_def)
  moreover have "?l \<noteq> []" by (simp add: print_line_def)
  moreover have "split_once 61 ?l = Some (?n, ?p)"
    using split_once_append [OF eq, of ?p] by (simp add: print_line_def)
  ultimately show "parse_line ?l = Inr (Some rc)"
    using p v valid_name_trim [OF v] trim
    by (simp add: parse_line_def MIN_PW_LEN_def Let_def)
  have "last ?l \<noteq> 13" using last by (auto simp: is_whitespace_def)
  then show "strip_cr ?l = ?l" by (simp add: strip_cr_def)
  show "10 \<notin> set ?l" using n p by (auto simp: print_line_def name_char_def)
qed

lemma lines_print_rooms:
  "\<forall>rc \<in> set rooms. config_ok rc \<Longrightarrow> lines (print_rooms rooms) = map print_line rooms"
  by (induction rooms) (simp_all add: print_rooms_def lines_line parse_line_print)

lemma parse_from_print:
  assumes "\<forall>rc \<in> set rooms. config_ok rc" and "distinct (map rc_name rooms)"
    and "rc_name ` set rooms \<inter> seen = {}"
  shows "parse_from (map print_line rooms) acc seen = Inr (acc @ rooms)"
  using assms
  by (induction rooms arbitrary: acc seen)
    (auto simp: parse_from_line parse_line_print simp del: parse_from.simps(2))

lemma parse_print:
  assumes "rooms \<noteq> []" and "\<forall>rc \<in> set rooms. config_ok rc" and "distinct (map rc_name rooms)"
  shows "parse (print_rooms rooms) = Inr rooms"
  using assms parse_from_print [of rooms "{}" "[]"] by (simp add: parse_def lines_print_rooms)

end
