(* ===== verification/Wire.thy ===== *)
theory Wire
  imports Proto
begin

text \<open>
  \<^verbatim>\<open>src/wire.rs\<close>: framed byte streams and postcard messages on them. The framing codec
  (\<^verbatim>\<open>tokio_util::codec::Framed\<close> over \<^verbatim>\<open>LengthDelimitedCodec\<close>) and the postcard serializer are not
  part of the program, so they are parameters: a record of the two stream operations over a
  stream state \<open>'s\<close>, and an encoding and a decoding function per message type.
\<close>

text \<open>What \<^verbatim>\<open>framed.next().await\<close> yields: \<^verbatim>\<open>Some(Ok(bytes))\<close>, \<^verbatim>\<open>Some(Err(e))\<close> or \<^verbatim>\<open>None\<close>.\<close>

datatype recv_event = Frame bytes | ReadError | EndOfStream

record 's stream_ops =
  so_send :: "bytes \<Rightarrow> 's \<Rightarrow> bool \<times> 's"
  so_next :: "'s \<Rightarrow> recv_event \<times> 's"

text \<open>The codec settings that \<open>frame\<close> builds a stream with.\<close>

record codec_config =
  length_field_length :: nat
  max_frame_length :: nat

definition frame_config :: codec_config where
  "frame_config = \<lparr>length_field_length = 4, max_frame_length = MAX_FRAME_LEN\<rparr>"

definition send_bytes :: "'s stream_ops \<Rightarrow> bytes \<Rightarrow> 's \<Rightarrow> unit result \<times> 's" where
  "send_bytes so payload s =
     (case so_send so payload s of (ok, s) \<Rightarrow> (if ok then Inr () else Inl Io, s))"

definition recv_bytes :: "'s stream_ops \<Rightarrow> 's \<Rightarrow> bytes result \<times> 's" where
  "recv_bytes so s =
     (case so_next so s of (ev, s) \<Rightarrow>
        (case ev of Frame b \<Rightarrow> Inr b | ReadError \<Rightarrow> Inl Io | EndOfStream \<Rightarrow> Inl Closed, s))"

definition send_postcard ::
  "'s stream_ops \<Rightarrow> ('a \<Rightarrow> bytes option) \<Rightarrow> 'a \<Rightarrow> 's \<Rightarrow> unit result \<times> 's" where
  "send_postcard so to_vec v s =
     (case to_vec v of None \<Rightarrow> (Inl Postcard, s) | Some b \<Rightarrow> send_bytes so b s)"

definition recv_postcard ::
  "'s stream_ops \<Rightarrow> (bytes \<Rightarrow> 'a option) \<Rightarrow> 's \<Rightarrow> 'a result \<times> 's" where
  "recv_postcard so from_bytes s =
     (case recv_bytes so s of (r, s) \<Rightarrow>
        (and_then r (\<lambda>b. ok_or Postcard (from_bytes b)), s))"

end
