(* ===== verification/Crypto.thy ===== *)
theory Crypto
  imports Wire
begin

text \<open>
  \<^verbatim>\<open>src/crypto/\<close>: key derivation, room-level sealing, and the Noise handshake and transport.
  The primitives come from third-party crates and are parameters: Argon2id and keyed BLAKE2s for
  \<^verbatim>\<open>password.rs\<close>, XChaCha20-Poly1305 for \<^verbatim>\<open>room.rs\<close>, the snow state machines for \<^verbatim>\<open>noise.rs\<close>. An
  operating-system random draw is an argument, \<open>None\<close> when \<^verbatim>\<open>getrandom::fill\<close> fails.
\<close>

section \<open>Key derivation (password.rs)\<close>

definition KEY_LEN :: nat where "KEY_LEN = 32"
definition ARGON2_M_KIB :: nat where "ARGON2_M_KIB = 64 * 1024"
definition ARGON2_T :: nat where "ARGON2_T = 4"
definition ARGON2_P :: nat where "ARGON2_P = 1"
definition PSK_LABEL :: bytes where "PSK_LABEL = utf8 (lit ''chat-rs/v1/psk'')"
definition ROOM_LABEL :: bytes where "ROOM_LABEL = utf8 (lit ''chat-rs/v1/room'')"

record derived_keys =
  dk_psk :: bytes
  dk_room_key :: bytes

text \<open>
  \<open>argon m t p len pw salt\<close> is the Argon2id hash, \<open>mac key msg\<close> the keyed BLAKE2s-256 of a message;
  \<open>None\<close> is the crate's error.
\<close>

record kdf_ops =
  kdf_argon :: "nat \<Rightarrow> nat \<Rightarrow> nat \<Rightarrow> nat \<Rightarrow> bytes \<Rightarrow> bytes \<Rightarrow> bytes option"
  kdf_mac :: "bytes \<Rightarrow> bytes \<Rightarrow> bytes option"

definition blake2s_kdf :: "kdf_ops \<Rightarrow> bytes \<Rightarrow> bytes \<Rightarrow> bytes result" where
  "blake2s_kdf kdf master label = ok_or Kdf (kdf_mac kdf master label)"

definition derive_keys :: "kdf_ops \<Rightarrow> bytes \<Rightarrow> bytes \<Rightarrow> derived_keys result" where
  "derive_keys kdf password room_salt =
     and_then
       (ok_or Argon2 (kdf_argon kdf ARGON2_M_KIB ARGON2_T ARGON2_P KEY_LEN password room_salt))
       (\<lambda>master.
         and_then (blake2s_kdf kdf master PSK_LABEL) (\<lambda>psk.
         and_then (blake2s_kdf kdf master ROOM_LABEL) (\<lambda>room_key.
         Inr \<lparr>dk_psk = psk, dk_room_key = room_key\<rparr>)))"

section \<open>Room messages (room.rs)\<close>

definition NONCE_LEN :: nat where "NONCE_LEN = 24"

text \<open>\<open>encrypt key nonce msg aad\<close> and \<open>decrypt key nonce ct aad\<close>; \<open>to_vec\<close> serializes the
  associated data.\<close>

record aead_ops =
  ae_encrypt :: "bytes \<Rightarrow> bytes \<Rightarrow> bytes \<Rightarrow> bytes \<Rightarrow> bytes option"
  ae_decrypt :: "bytes \<Rightarrow> bytes \<Rightarrow> bytes \<Rightarrow> bytes \<Rightarrow> bytes option"
  ae_ad_to_vec :: "message_ad \<Rightarrow> bytes option"

definition seal ::
  "aead_ops \<Rightarrow> bytes option \<Rightarrow> bytes \<Rightarrow> bytes \<Rightarrow> message_ad \<Rightarrow> bytes result" where
  "seal ae random room_key plaintext ad =
     and_then (ok_or Random random) (\<lambda>nonce.
     and_then (ok_or Postcard (ae_ad_to_vec ae ad)) (\<lambda>aad.
     and_then (ok_or Aead (ae_encrypt ae room_key nonce plaintext aad)) (\<lambda>ct.
     Inr (nonce @ ct))))"

definition room_open :: "aead_ops \<Rightarrow> bytes \<Rightarrow> bytes \<Rightarrow> message_ad \<Rightarrow> bytes result" where
  "room_open ae room_key ciphertext ad =
     (if length ciphertext < NONCE_LEN then Inl Aead
      else
        let nonce = take NONCE_LEN ciphertext; ct = drop NONCE_LEN ciphertext in
        and_then (ok_or Postcard (ae_ad_to_vec ae ad)) (\<lambda>aad.
        ok_or Aead (ae_decrypt ae room_key nonce ct aad)))"

text \<open>
  Documented behaviour of the primitive: decryption inverts encryption, and a ciphertext does not
  decrypt under other associated data than it was sealed with (authenticity, in its ideal form).
  The serializer of the associated data is injective.
\<close>

definition aead_correct :: "aead_ops \<Rightarrow> bool" where
  "aead_correct ae \<longleftrightarrow>
     (\<forall>k n m a c. ae_encrypt ae k n m a = Some c \<longrightarrow> ae_decrypt ae k n c a = Some m)"

definition aead_binding :: "aead_ops \<Rightarrow> bool" where
  "aead_binding ae \<longleftrightarrow>
     (\<forall>k n m a a' c. ae_encrypt ae k n m a = Some c \<longrightarrow> a' \<noteq> a \<longrightarrow> ae_decrypt ae k n c a' = None)"

definition ad_injective :: "aead_ops \<Rightarrow> bool" where
  "ad_injective ae \<longleftrightarrow>
     (\<forall>ad ad' b. ae_ad_to_vec ae ad = Some b \<longrightarrow> ae_ad_to_vec ae ad' = Some b \<longrightarrow> ad' = ad)"

lemma seal_InrD:
  assumes "seal ae random key pt ad = Inr out"
  obtains nonce aad ct where "random = Some nonce" "ae_ad_to_vec ae ad = Some aad"
    "ae_encrypt ae key nonce pt aad = Some ct" "out = nonce @ ct"
  using assms by (auto simp: seal_def and_then_Inr_iff ok_or_Inr_iff)

lemma room_open_nonce_ct:
  assumes "length nonce = NONCE_LEN"
  shows "room_open ae key (nonce @ ct) ad =
    and_then (ok_or Postcard (ae_ad_to_vec ae ad)) (\<lambda>aad. ok_or Aead (ae_decrypt ae key nonce ct aad))"
  using assms by (simp add: room_open_def)

section \<open>Noise (noise.rs)\<close>

definition PATTERN :: string where "PATTERN = ''Noise_NNpsk0_25519_ChaChaPoly_BLAKE2s''"
definition NOISE_BUF :: nat where "NOISE_BUF = 65535"
definition AEAD_TAG_LEN :: nat where "AEAD_TAG_LEN = 16"

text \<open>\<^verbatim>\<open>u16::to_be_bytes\<close>\<close>

definition to_be_bytes :: "u16 \<Rightarrow> bytes" where
  "to_be_bytes v = [of_nat (unat v div 256), of_nat (unat v mod 256)]"

definition build_prologue :: "str \<Rightarrow> bytes \<Rightarrow> u16 \<Rightarrow> bytes" where
  "build_prologue room_id salt server_version =
     of_nat (str_len room_id) # utf8 room_id @ salt @ to_be_bytes server_version"

lemma to_be_bytes_inject: "to_be_bytes v = to_be_bytes w \<longleftrightarrow> v = w"
proof
  assume eq: "to_be_bytes v = to_be_bytes w"
  have "unat v < 65536" "unat w < 65536"
    using unsigned_less [of v] unsigned_less [of w] by simp_all
  then have "unat v div 256 < 256" "unat w div 256 < 256" by simp_all
  with eq have "unat v div 256 = unat w div 256" "unat v mod 256 = unat w mod 256"
    by (simp_all add: to_be_bytes_def byte_eq_iff)
  then have "unat v = unat w" by (metis div_mult_mod_eq)
  then show "v = w" by (simp add: word_unat_eq_iff)
qed simp

lemma length_to_be_bytes [simp]: "length (to_be_bytes v) = 2"
  by (simp add: to_be_bytes_def)

text \<open>
  The snow state machines, as functions of their states. \<open>nz_build\<close> is the whole builder chain:
  role, pattern, prologue, psk position and psk. A write returns the bytes written, a read the
  payload; the buffer length is passed along, and \<open>None\<close> is the crate's error.
\<close>

datatype role = Initiator | Responder

record ('h, 't) noise_ops =
  nz_build :: "role \<Rightarrow> string \<Rightarrow> bytes \<Rightarrow> nat \<Rightarrow> bytes \<Rightarrow> 'h option"
  nz_write :: "'h \<Rightarrow> bytes \<Rightarrow> nat \<Rightarrow> (bytes \<times> 'h) option"
  nz_read :: "'h \<Rightarrow> bytes \<Rightarrow> nat \<Rightarrow> (bytes \<times> 'h) option"
  nz_into_transport :: "'h \<Rightarrow> 't option"
  nz_seal :: "'t \<Rightarrow> bytes \<Rightarrow> nat \<Rightarrow> bytes option \<times> 't"
  nz_open :: "'t \<Rightarrow> bytes \<Rightarrow> nat \<Rightarrow> bytes option \<times> 't"

definition initiator :: "('h, 't) noise_ops \<Rightarrow> bytes \<Rightarrow> bytes \<Rightarrow> 'h result" where
  "initiator nz psk prologue = ok_or Noise (nz_build nz Initiator PATTERN prologue 0 psk)"

definition responder :: "('h, 't) noise_ops \<Rightarrow> bytes \<Rightarrow> bytes \<Rightarrow> 'h result" where
  "responder nz psk prologue = ok_or Noise (nz_build nz Responder PATTERN prologue 0 psk)"

definition handshake_initiator ::
  "('h, 't) noise_ops \<Rightarrow> 's stream_ops \<Rightarrow> bytes \<Rightarrow> bytes \<Rightarrow> 's \<Rightarrow> 't result \<times> 's" where
  "handshake_initiator nz so psk prologue s =
     (case initiator nz psk prologue of
        Inl e \<Rightarrow> (Inl e, s)
      | Inr hs \<Rightarrow>
     (case nz_write nz hs [] NOISE_BUF of
        None \<Rightarrow> (Inl Noise, s)
      | Some (m0, hs) \<Rightarrow>
     (case send_bytes so m0 s of
        (Inl e, s) \<Rightarrow> (Inl e, s)
      | (Inr _, s) \<Rightarrow>
     (case recv_bytes so s of
        (Inl e, s) \<Rightarrow> (Inl e, s)
      | (Inr m1, s) \<Rightarrow>
     (case nz_read nz hs m1 NOISE_BUF of
        None \<Rightarrow> (Inl Noise, s)
      | Some (_, hs) \<Rightarrow> (ok_or Noise (nz_into_transport nz hs), s))))))"

definition handshake_responder ::
  "('h, 't) noise_ops \<Rightarrow> 's stream_ops \<Rightarrow> bytes \<Rightarrow> bytes \<Rightarrow> 's \<Rightarrow> 't result \<times> 's" where
  "handshake_responder nz so psk prologue s =
     (case responder nz psk prologue of
        Inl e \<Rightarrow> (Inl e, s)
      | Inr hs \<Rightarrow>
     (case recv_bytes so s of
        (Inl e, s) \<Rightarrow> (Inl e, s)
      | (Inr m0, s) \<Rightarrow>
     (case nz_read nz hs m0 NOISE_BUF of
        None \<Rightarrow> (Inl Noise, s)
      | Some (_, hs) \<Rightarrow>
     (case nz_write nz hs [] NOISE_BUF of
        None \<Rightarrow> (Inl Noise, s)
      | Some (m1, hs) \<Rightarrow>
     (case send_bytes so m1 s of
        (Inl e, s) \<Rightarrow> (Inl e, s)
      | (Inr _, s) \<Rightarrow> (ok_or Noise (nz_into_transport nz hs), s))))))"

definition transport_seal ::
  "('h, 't) noise_ops \<Rightarrow> 't \<Rightarrow> bytes \<Rightarrow> bytes result \<times> 't" where
  "transport_seal nz t plaintext =
     (case nz_seal nz t plaintext (length plaintext + AEAD_TAG_LEN) of
        (r, t) \<Rightarrow> (ok_or Noise r, t))"

definition transport_open ::
  "('h, 't) noise_ops \<Rightarrow> 't \<Rightarrow> bytes \<Rightarrow> bytes result \<times> 't" where
  "transport_open nz t ciphertext =
     (case nz_open nz t ciphertext (length ciphertext) of
        (r, t) \<Rightarrow> (ok_or Noise r, t))"

definition send_encrypted ::
  "('h, 't) noise_ops \<Rightarrow> 's stream_ops \<Rightarrow> ('a \<Rightarrow> bytes option) \<Rightarrow> 'a \<Rightarrow> 's \<Rightarrow> 't
     \<Rightarrow> unit result \<times> 's \<times> 't" where
  "send_encrypted nz so to_vec v s t =
     (case to_vec v of
        None \<Rightarrow> (Inl Postcard, s, t)
      | Some pt \<Rightarrow>
     (case transport_seal nz t pt of
        (Inl e, t) \<Rightarrow> (Inl e, s, t)
      | (Inr ct, t) \<Rightarrow> (case send_bytes so ct s of (r, s) \<Rightarrow> (r, s, t))))"

definition recv_encrypted ::
  "('h, 't) noise_ops \<Rightarrow> 's stream_ops \<Rightarrow> (bytes \<Rightarrow> 'a option) \<Rightarrow> 's \<Rightarrow> 't
     \<Rightarrow> 'a result \<times> 's \<times> 't" where
  "recv_encrypted nz so from_bytes s t =
     (case recv_bytes so s of
        (Inl e, s) \<Rightarrow> (Inl e, s, t)
      | (Inr b, s) \<Rightarrow>
     (case transport_open nz t b of
        (r, t) \<Rightarrow> (and_then r (\<lambda>pt. ok_or Postcard (from_bytes pt)), s, t)))"

end
