(* ===== verification/Server.thy ===== *)
theory Server
  imports RateLimit SessionRules Rooms Crypto
begin

text \<open>
  \<^verbatim>\<open>src/server/mod.rs\<close>, first part: the room and hub state, the connection guard, broadcasting
  and the handler of an authenticated client's frame. The bounded outbox of a connection is a
  channel of the tokio crate: its sender is an abstract handle \<open>'tx\<close>, the channels' contents are
  an abstract state \<open>'w\<close>, and \<^verbatim>\<open>try_send\<close> is a parameter.
\<close>

definition SESSION_TIMEOUT :: duration where "SESSION_TIMEOUT = from_secs 3600"
definition OUTBOX_DEPTH :: nat where "OUTBOX_DEPTH = 64"
definition RATELIMIT_MAX :: nat where "RATELIMIT_MAX = 60"
definition RATELIMIT_WINDOW :: duration where "RATELIMIT_WINDOW = from_secs 60"
definition MAX_ACTIVE_CONNS :: u64 where "MAX_ACTIVE_CONNS = 4096"

section \<open>Rooms and the hub\<close>

record 'tx room_state =
  rs_room_id :: str
  rs_room_salt :: bytes
  rs_psk :: bytes
  rs_messages :: message_store
  rs_sessions :: user_session_store
  rs_connections :: "'tx connection_manager"

definition room_state_new :: "str \<Rightarrow> bytes \<Rightarrow> bytes \<Rightarrow> 'tx room_state" where
  "room_state_new room_id room_salt psk =
     \<lparr>rs_room_id = room_id, rs_room_salt = room_salt, rs_psk = psk,
      rs_messages = message_store_new, rs_sessions = session_store_new SESSION_TIMEOUT,
      rs_connections = connection_manager_new\<rparr>"

record 'tx server_hub =
  hub_rooms :: "str \<rightharpoonup> 'tx room_state"
  hub_ratelimit :: rate_limiter
  hub_active_conns :: u64

text \<open>
  \<^verbatim>\<open>ServerHub::new\<close>: the loop over the configured rooms. Each iteration draws a salt; \<open>draws\<close> are
  the results of these calls, in order, and \<open>None\<close> is a failing call. A missing draw counts as
  failing.
\<close>

fun hub_rooms_from ::
  "kdf_ops \<Rightarrow> room_config list \<Rightarrow> bytes option list \<Rightarrow> (str \<rightharpoonup> 'tx room_state)
     \<Rightarrow> (str \<rightharpoonup> 'tx room_state) result" where
  "hub_rooms_from kdf [] draws rooms = Inr rooms"
| "hub_rooms_from kdf (cfg # cfgs) draws rooms =
     (case draws of
        Some salt # draws \<Rightarrow>
          and_then (derive_keys kdf (utf8 (rc_password cfg)) salt) (\<lambda>keys.
            hub_rooms_from kdf cfgs draws
              (rooms(rc_name cfg \<mapsto> room_state_new (rc_name cfg) salt (dk_psk keys))))
      | _ \<Rightarrow> Inl Random)"

definition server_hub_new ::
  "kdf_ops \<Rightarrow> room_config list \<Rightarrow> bytes option list \<Rightarrow> 'tx server_hub result" where
  "server_hub_new kdf configs draws =
     and_then (hub_rooms_from kdf configs draws Map.empty) (\<lambda>rooms.
       Inr \<lparr>hub_rooms = rooms,
            hub_ratelimit = rate_limiter_new RATELIMIT_MAX RATELIMIT_WINDOW,
            hub_active_conns = 0\<rparr>)"

text \<open>\<open>salt\<close> and \<open>psk\<close> are the two random draws.\<close>

definition fake_room :: "str \<Rightarrow> bytes option \<Rightarrow> bytes option \<Rightarrow> 'tx room_state result" where
  "fake_room room_name salt psk =
     and_then (ok_or Random salt) (\<lambda>salt.
     and_then (ok_or Random psk) (\<lambda>psk.
     Inr (room_state_new room_name salt psk)))"

section \<open>The connection guard\<close>

text \<open>\<^verbatim>\<open>ConnGuard::try_acquire\<close> on an otherwise idle counter, and the guard's \<^verbatim>\<open>drop\<close>.\<close>

definition try_acquire :: "u64 \<Rightarrow> u64 \<Rightarrow> bool \<times> u64" where
  "try_acquire max_conns active =
     (let old = active; active = active + 1 in
      if old \<ge> max_conns then (False, active - 1) else (True, active))"

definition guard_drop :: "u64 \<Rightarrow> u64" where
  "guard_drop active = active - 1"

section \<open>Broadcast\<close>

datatype send_outcome = Sent | OutboxFull | OutboxClosed

type_synonym ('tx, 'w) sender = "'tx \<Rightarrow> server_frame \<Rightarrow> 'w \<Rightarrow> send_outcome \<times> 'w"

text \<open>The loop over the snapshot: the ids whose outbox was full or closed, in order.\<close>

fun send_all ::
  "('tx, 'w) sender \<Rightarrow> server_frame \<Rightarrow> (uuid \<times> 'tx) list \<Rightarrow> 'w \<Rightarrow> uuid list \<times> 'w" where
  "send_all try_send f [] w = ([], w)"
| "send_all try_send f ((u, tx) # snapshot) w =
     (case try_send tx f w of
        (Sent, w) \<Rightarrow> send_all try_send f snapshot w
      | (OutboxFull, w) \<Rightarrow> (case send_all try_send f snapshot w of (dead, w) \<Rightarrow> (u # dead, w))
      | (OutboxClosed, w) \<Rightarrow> (case send_all try_send f snapshot w of (dead, w) \<Rightarrow> (u # dead, w)))"

definition broadcast ::
  "('tx, 'w) sender \<Rightarrow> uuid list \<Rightarrow> 'tx room_state \<Rightarrow> server_frame \<Rightarrow> 'w
     \<Rightarrow> 'tx room_state \<times> 'w" where
  "broadcast try_send order room frame_out w =
     (let snapshot = cm_snapshot order (rs_connections room) in
      case send_all try_send frame_out snapshot w of (dead, w) \<Rightarrow>
        if dead \<noteq> []
        then (room\<lparr>rs_connections := fold cm_remove dead (rs_connections room)\<rparr>, w)
        else (room, w))"

section \<open>Frames of an authenticated client\<close>

text \<open>
  The clock readings of one call: \<open>hc_touch\<close> in \<^verbatim>\<open>touch\<close>, \<open>hc_check\<close> in the quota or cooldown test.
  \<open>hc_order\<close> is the order in which the broadcast iterates over the connections.
\<close>

record handler_clock =
  hc_touch :: instant
  hc_check :: instant
  hc_order :: "uuid list"

definition handle_client_frame ::
  "('tx, 'w) sender \<Rightarrow> handler_clock \<Rightarrow> 'tx room_state \<Rightarrow> uuid \<Rightarrow> str \<Rightarrow> client_frame \<Rightarrow> 'w
     \<Rightarrow> unit result \<times> 'tx room_state \<times> 'w" where
  "handle_client_frame try_send clk room user_id username msg w =
     (let room = room\<lparr>rs_sessions := ss_touch (hc_touch clk) user_id (rs_sessions room)\<rparr> in
      case msg of
        RoomSelect _ \<Rightarrow> (Inl (Protocol ''unexpected handshake frame after auth''), room, w)
      | ClientHello _ \<Rightarrow> (Inl (Protocol ''unexpected handshake frame after auth''), room, w)
      | ClientMessage ad ciphertext \<Rightarrow>
          if ad_from ad \<noteq> user_id then
            (Inl (Protocol ''ad.from does not match session user_id''), room, w)
          else if ad_username ad \<noteq> username then
            (Inl (Protocol ''ad.username does not match session''), room, w)
          else if length ciphertext > MAX_CIPHERTEXT_LEN then
            (Inl (Protocol ''ciphertext exceeds MAX_CIPHERTEXT_LEN''), room, w)
          else
            (case try_advance_counter user_id (ad_counter ad) (rs_sessions room) of
               (False, ss) \<Rightarrow>
                 (Inl (Protocol ''ad.counter not strictly increasing''),
                  room\<lparr>rs_sessions := ss\<rparr>, w)
             | (True, ss) \<Rightarrow>
            (case try_consume_message_quota (hc_check clk) user_id ss of
               (False, ss) \<Rightarrow>
                 (Inl (Protocol ''message rate exceeded''), room\<lparr>rs_sessions := ss\<rparr>, w)
             | (True, ss) \<Rightarrow>
                 let room = room\<lparr>rs_sessions := ss\<rparr>;
                     room_msg = \<lparr>rm_from = user_id, rm_username = username, rm_ad = ad,
                                 rm_ciphertext = ciphertext\<rparr>;
                     room =
                       (if \<not> ad_ephemeral (rm_ad room_msg)
                        then room\<lparr>rs_messages := ms_push room_msg (rs_messages room)\<rparr>
                        else room)
                 in case broadcast try_send (hc_order clk) room (ServerMessage room_msg) w of
                      (room, w) \<Rightarrow> (Inr (), room, w)))
      | Clear \<Rightarrow>
          (case try_consume_clear (hc_check clk) user_id (rs_sessions room) of
             (False, ss) \<Rightarrow>
               (Inl (Protocol ''clear cooldown active''), room\<lparr>rs_sessions := ss\<rparr>, w)
           | (True, ss) \<Rightarrow>
               let room = room\<lparr>rs_sessions := ss\<rparr>;
                   room = room\<lparr>rs_messages := ms_clear (rs_messages room)\<rparr>
               in case broadcast try_send (hc_order clk) room (Cleared user_id username) w of
                    (room, w) \<Rightarrow> (Inr (), room, w)))"

definition is_valid_username :: "str \<Rightarrow> bool" where
  "is_valid_username name = all_name_bytes name"

end
