(* ===== verification/Channels.thy ===== *)
theory Channels
  imports Server
begin

text \<open>
  Broadcasting under the documented behaviour of a bounded tokio channel, stated as a hypothesis
  on the \<open>try_send\<close> parameter: \<open>queued w tx\<close> are the frames waiting in a channel, \<open>accepting w tx\<close>
  says that it is open and has room. Sending to an accepting channel appends; sending to another
  one fails and changes nothing; no channel affects another.
\<close>

definition mpsc_laws ::
  "('tx, 'w) sender \<Rightarrow> ('w \<Rightarrow> 'tx \<Rightarrow> server_frame list) \<Rightarrow> ('w \<Rightarrow> 'tx \<Rightarrow> bool) \<Rightarrow> bool" where
  "mpsc_laws try_send queued accepting \<longleftrightarrow>
     (\<forall>tx f w. (fst (try_send tx f w) = Sent \<longleftrightarrow> accepting w tx) \<and>
        queued (snd (try_send tx f w)) tx = queued w tx @ (if accepting w tx then [f] else []) \<and>
        (\<forall>tx'. tx' \<noteq> tx \<longrightarrow> queued (snd (try_send tx f w)) tx' = queued w tx' \<and>
           accepting (snd (try_send tx f w)) tx' = accepting w tx'))"

lemma mpsc_lawsD:
  assumes "mpsc_laws try_send queued accepting"
  shows "fst (try_send tx f w) = Sent \<longleftrightarrow> accepting w tx"
    and "queued (snd (try_send tx f w)) tx = queued w tx @ (if accepting w tx then [f] else [])"
    and "tx' \<noteq> tx \<Longrightarrow> queued (snd (try_send tx f w)) tx' = queued w tx'"
    and "tx' \<noteq> tx \<Longrightarrow> accepting (snd (try_send tx f w)) tx' = accepting w tx'"
  using assms unfolding mpsc_laws_def by blast+

lemma send_all_Cons:
  "send_all try_send f ((u, tx) # snapshot) w =
     (let (out, w1) = try_send tx f w; (dead, w2) = send_all try_send f snapshot w1
      in (if out = Sent then dead else u # dead, w2))"
  by (cases "try_send tx f w"; cases "fst (try_send tx f w)";
      cases "send_all try_send f snapshot (snd (try_send tx f w))")
    (simp_all add: Let_def)

lemma send_all_dead_subset: "set (fst (send_all try_send f snapshot w)) \<subseteq> fst ` set snapshot"
proof (induction snapshot arbitrary: w)
  case (Cons x snapshot)
  obtain u tx where x: "x = (u, tx)" by (cases x)
  show ?case
    using Cons.IH [of "snd (try_send tx f w)"] x
    by (auto simp: send_all_Cons Let_def split_def simp del: send_all.simps)
qed simp

lemma send_all_both:
  assumes laws: "mpsc_laws try_send queued accepting"
  shows "distinct (map snd snapshot) \<Longrightarrow> send_all try_send f snapshot w = (dead, w') \<Longrightarrow>
    dead = map fst (filter (\<lambda>x. \<not> accepting w (snd x)) snapshot) \<and>
    (\<forall>tx. queued w' tx =
      queued w tx @ (if tx \<in> snd ` set snapshot \<and> accepting w tx then [f] else []))"
proof (induction snapshot arbitrary: w dead)
  case (Cons x snapshot)
  obtain u tx0 where x: "x = (u, tx0)" by (cases x)
  note law = mpsc_lawsD [OF laws, where tx = tx0 and f = f and w = w]
  obtain out w1 where ts: "try_send tx0 f w = (out, w1)" by (cases "try_send tx0 f w")
  obtain dead1 w2 where rest: "send_all try_send f snapshot w1 = (dead1, w2)"
    by (cases "send_all try_send f snapshot w1")
  have w': "w' = w2" and dead: "dead = (if accepting w tx0 then dead1 else u # dead1)"
    using Cons.prems(2) ts rest law(1) x
    by (auto simp: send_all_Cons simp del: send_all.simps split: if_splits)
  have notin: "tx0 \<notin> snd ` set snapshot" and d: "distinct (map snd snapshot)"
    using Cons.prems(1) x by simp_all
  have IH: "dead1 = map fst (filter (\<lambda>x. \<not> accepting w1 (snd x)) snapshot)"
    "queued w' tx =
      queued w1 tx @ (if tx \<in> snd ` set snapshot \<and> accepting w1 tx then [f] else [])" for tx
    using Cons.IH [OF d, of w1 dead1] rest w' by blast+
  have "accepting w1 (snd y) = accepting w (snd y)" if "y \<in> set snapshot" for y
    using law(4) ts notin that by force
  then have "filter (\<lambda>x. \<not> accepting w1 (snd x)) snapshot
      = filter (\<lambda>x. \<not> accepting w (snd x)) snapshot"
    by (intro filter_cong) simp_all
  moreover have "queued w' tx = queued w tx @
      (if tx \<in> snd ` set (x # snapshot) \<and> accepting w tx then [f] else [])" for tx
    using IH(2) [of tx] law(2-4) ts notin x by (cases "tx = tx0") auto
  ultimately show ?case using IH(1) dead x by simp
qed simp

lemma send_all_correct:
  assumes "mpsc_laws try_send queued accepting" and "distinct (map snd snapshot)"
    and "send_all try_send f snapshot w = (dead, w')"
  shows "dead = map fst (filter (\<lambda>x. \<not> accepting w (snd x)) snapshot)"
    and "queued w' tx =
      queued w tx @ (if tx \<in> snd ` set snapshot \<and> accepting w tx then [f] else [])"
  using send_all_both [OF assms] by blast+

section \<open>Broadcast\<close>

text \<open>Distinct connections have distinct channels.\<close>

definition distinct_channels :: "'tx connection_manager \<Rightarrow> bool" where
  "distinct_channels c \<longleftrightarrow>
     (\<forall>u v tx. cm_senders c u = Some tx \<longrightarrow> cm_senders c v = Some tx \<longrightarrow> u = v)"

lemma distinct_snd_entries:
  assumes "distinct_channels c" and "distinct order"
  shows "distinct (map snd (cm_snapshot order c))"
  using assms(2)
proof (induction order)
  case (Cons u order)
  then show ?case
    using assms(1) by (auto simp: cm_snapshot_def set_entries distinct_channels_def split: option.splits)
      blast
qed (simp add: cm_snapshot_def)

lemma broadcast_frame [frame_simps]:
  "rs_room_id (fst (broadcast ts order room f w)) = rs_room_id room"
  "rs_room_salt (fst (broadcast ts order room f w)) = rs_room_salt room"
  "rs_psk (fst (broadcast ts order room f w)) = rs_psk room"
  "rs_messages (fst (broadcast ts order room f w)) = rs_messages room"
  "rs_sessions (fst (broadcast ts order room f w)) = rs_sessions room"
  by (simp_all add: broadcast_def Let_def split: prod.split)

lemma broadcast_connections:
  "rs_connections (fst (broadcast ts order room f w)) =
     fold cm_remove (fst (send_all ts f (cm_snapshot order (rs_connections room)) w))
       (rs_connections room)"
  by (simp add: broadcast_def Let_def split: prod.split)

lemma broadcast_world:
  "snd (broadcast ts order room f w) =
     snd (send_all ts f (cm_snapshot order (rs_connections room)) w)"
  by (simp add: broadcast_def Let_def split: prod.split)

lemma broadcast_senders_le:
  "cm_senders (rs_connections (fst (broadcast ts order room f w))) u = Some tx \<Longrightarrow>
     cm_senders (rs_connections room) u = Some tx"
  by (simp add: broadcast_connections conns.lookup_removes split: if_splits)

lemma broadcast_dom:
  "dom (cm_senders (rs_connections (fst (broadcast ts order room f w))))
     \<subseteq> dom (cm_senders (rs_connections room))"
  using broadcast_senders_le by fastforce

lemma broadcast_delivery:
  assumes laws: "mpsc_laws ts queued accepting"
    and order: "iteration_order (cm_senders (rs_connections room)) order"
    and inj: "distinct_channels (rs_connections room)"
    and b: "broadcast ts order room f w = (room', w')"
  shows "cm_senders (rs_connections room') u =
      (case cm_senders (rs_connections room) u of
         None \<Rightarrow> None | Some tx \<Rightarrow> if accepting w tx then Some tx else None)"
    and "queued w' tx =
      queued w tx @
        (if tx \<in> ran (cm_senders (rs_connections room)) \<and> accepting w tx then [f] else [])"
proof -
  let ?c = "rs_connections room"
  let ?snap = "cm_snapshot order ?c"
  obtain dead w2 where sa: "send_all ts f ?snap w = (dead, w2)"
    by (cases "send_all ts f ?snap w")
  have d: "distinct (map snd ?snap)"
    using distinct_snd_entries [OF inj] order by (simp add: iteration_order_def)
  have snap: "set ?snap = {(v, tx). cm_senders ?c v = Some tx}"
    using set_entries_order [OF order] by (simp add: cm_snapshot_def)
  then have ran: "snd ` set ?snap = ran (cm_senders ?c)" by (force simp: ran_def)
  note sac = send_all_correct [OF laws d sa]
  have w': "w' = w2" using b sa broadcast_world [of ts order room f w] by simp
  show "queued w' tx =
      queued w tx @ (if tx \<in> ran (cm_senders ?c) \<and> accepting w tx then [f] else [])"
    using sac(2) w' ran by simp
  have dead: "u \<in> set dead \<longleftrightarrow> (\<exists>tx. cm_senders ?c u = Some tx \<and> \<not> accepting w tx)"
    unfolding sac(1) using snap by force
  have "rs_connections room' = fold cm_remove dead ?c"
    using b sa broadcast_connections [of ts order room f w] by simp
  then have "cm_senders (rs_connections room') u =
      (if u \<in> set dead then None else cm_senders ?c u)"
    by (simp add: conns.lookup_removes)
  with dead show "cm_senders (rs_connections room') u =
      (case cm_senders ?c u of None \<Rightarrow> None | Some tx \<Rightarrow> if accepting w tx then Some tx else None)"
    by (auto split: option.split)
qed

end
