(* ===== verification/Handler.thy ===== *)
theory Handler
  imports Channels
begin

text \<open>
  The handler of an authenticated client's frame, branch by branch: when a message or a clear is
  accepted, what an accepted one does, and that a rejected one changes nothing but its own
  session's bookkeeping.
\<close>

section \<open>Messages\<close>

text \<open>The session store after the three session operations of a message.\<close>

definition message_sessions ::
  "handler_clock \<Rightarrow> uuid \<Rightarrow> message_ad \<Rightarrow> user_session_store \<Rightarrow> user_session_store" where
  "message_sessions clk u ad st =
     snd (try_consume_message_quota (hc_check clk) u
       (snd (try_advance_counter u (ad_counter ad) (ss_touch (hc_touch clk) u st))))"

text \<open>The conditions under which a message is accepted, over the state before the call.\<close>

definition message_accepted ::
  "handler_clock \<Rightarrow> 'tx room_state \<Rightarrow> uuid \<Rightarrow> str \<Rightarrow> message_ad \<Rightarrow> bytes \<Rightarrow> bool" where
  "message_accepted clk room u name ad ct \<longleftrightarrow>
     ad_from ad = u \<and> ad_username ad = name \<and> length ct \<le> MAX_CIPHERTEXT_LEN \<and>
     has_session (rs_sessions room) u \<and> session_counter (rs_sessions room) u < ad_counter ad \<and>
     length (evict_expired MSG_RATE_WINDOW (hc_check clk) (msg_stamps (rs_sessions room) u))
       < MSG_RATE_MAX"

text \<open>The stored form of a message, and the history after it.\<close>

definition stored_message :: "uuid \<Rightarrow> str \<Rightarrow> message_ad \<Rightarrow> bytes \<Rightarrow> room_message" where
  "stored_message u name ad ct =
     \<lparr>rm_from = u, rm_username = name, rm_ad = ad, rm_ciphertext = ct\<rparr>"

definition message_room ::
  "handler_clock \<Rightarrow> 'tx room_state \<Rightarrow> uuid \<Rightarrow> str \<Rightarrow> message_ad \<Rightarrow> bytes \<Rightarrow> 'tx room_state" where
  "message_room clk room u name ad ct =
     room\<lparr>rs_sessions := message_sessions clk u ad (rs_sessions room),
          rs_messages := (if ad_ephemeral ad then rs_messages room
                          else ms_push (stored_message u name ad ct) (rs_messages room))\<rparr>"

lemma advance_True:
  "try_advance_counter u c st = (True, st') \<longleftrightarrow>
     has_session st u \<and> session_counter st u < c \<and> st' = snd (try_advance_counter u c st)"
  using replay.accept_iff [of u c st] by (cases "try_advance_counter u c st") auto

lemma quota_True:
  "try_consume_message_quota t u st = (True, st') \<longleftrightarrow>
     has_session st u \<and> length (evict_expired MSG_RATE_WINDOW t (msg_stamps st u)) < MSG_RATE_MAX \<and>
     st' = snd (try_consume_message_quota t u st)"
proof (cases "has_session st u")
  case True
  from quota_slide [OF this, of t]
  have "fst (try_consume_message_quota t u st) \<longleftrightarrow>
      length (evict_expired MSG_RATE_WINDOW t (msg_stamps st u)) < MSG_RATE_MAX"
    by (auto simp: slide_def Let_def not_less split: if_splits)
  with True show ?thesis by (cases "try_consume_message_quota t u st") auto
next
  case False
  then show ?thesis using quota.refused [of st u t] by auto
qed

lemma handle_message_accept:
  assumes "message_accepted clk room u name ad ct"
  shows "handle_client_frame ts clk room u name (ClientMessage ad ct) w =
    (Inr (), broadcast ts (hc_order clk) (message_room clk room u name ad ct)
        (ServerMessage (stored_message u name ad ct)) w)"
proof -
  let ?s0 = "ss_touch (hc_touch clk) u (rs_sessions room)"
  obtain s1 where s1: "try_advance_counter u (ad_counter ad) ?s0 = (True, s1)"
    using assms advance_True [of u "ad_counter ad" ?s0]
    by (simp add: message_accepted_def frame_simps)
  then have "s1 = snd (try_advance_counter u (ad_counter ad) ?s0)" by simp
  then obtain s2 where s2: "try_consume_message_quota (hc_check clk) u s1 = (True, s2)"
    using assms quota_True [of "hc_check clk" u s1]
    by (simp add: message_accepted_def frame_simps)
  then have "s2 = message_sessions clk u ad (rs_sessions room)"
    using s1 by (simp add: message_sessions_def)
  with s1 s2 assms show ?thesis
    by (simp add: handle_client_frame_def message_accepted_def message_room_def
        stored_message_def Let_def split: prod.split)
qed

text \<open>A rejected message leaves everything but the session store alone, and in it only the
  sender's bookkeeping.\<close>

lemma handle_message_reject:
  assumes "\<not> message_accepted clk room u name ad ct"
  obtains e ss where
    "handle_client_frame ts clk room u name (ClientMessage ad ct) w =
       (Inl e, room\<lparr>rs_sessions := ss\<rparr>, w)"
    and "ss = ss_touch (hc_touch clk) u (rs_sessions room) \<or>
      ss = snd (try_advance_counter u (ad_counter ad) (ss_touch (hc_touch clk) u (rs_sessions room))) \<or>
      ss = message_sessions clk u ad (rs_sessions room)"
proof -
  let ?s0 = "ss_touch (hc_touch clk) u (rs_sessions room)"
  obtain ok1 s1 where a: "try_advance_counter u (ad_counter ad) ?s0 = (ok1, s1)"
    by (cases "try_advance_counter u (ad_counter ad) ?s0")
  obtain ok2 s2 where q: "try_consume_message_quota (hc_check clk) u s1 = (ok2, s2)"
    by (cases "try_consume_message_quota (hc_check clk) u s1")
  have s2: "s2 = message_sessions clk u ad (rs_sessions room)"
    using a q by (simp add: message_sessions_def)
  let ?h = "handle_client_frame ts clk room u name (ClientMessage ad ct) w"
  consider "ad_from ad \<noteq> u \<or> ad_username ad \<noteq> name \<or> length ct > MAX_CIPHERTEXT_LEN"
    | "ad_from ad = u" "ad_username ad = name" "length ct \<le> MAX_CIPHERTEXT_LEN" "\<not> ok1"
    | "ad_from ad = u" "ad_username ad = name" "length ct \<le> MAX_CIPHERTEXT_LEN" "ok1" "\<not> ok2"
    | "ad_from ad = u" "ad_username ad = name" "length ct \<le> MAX_CIPHERTEXT_LEN" "ok1" "ok2"
    by linarith
  then show thesis
  proof cases
    case 1
    then have "\<exists>e. ?h = (Inl e, room\<lparr>rs_sessions := ?s0\<rparr>, w)"
      by (auto simp: handle_client_frame_def Let_def)
    then show thesis using that by blast
  next
    case 2
    then have "?h = (Inl (Protocol ''ad.counter not strictly increasing''),
        room\<lparr>rs_sessions := s1\<rparr>, w)"
      using a by (simp add: handle_client_frame_def Let_def)
    moreover have "s1 = snd (try_advance_counter u (ad_counter ad) ?s0)" using a by simp
    ultimately show thesis using that by blast
  next
    case 3
    then have "?h = (Inl (Protocol ''message rate exceeded''), room\<lparr>rs_sessions := s2\<rparr>, w)"
      using a q by (simp add: handle_client_frame_def Let_def)
    then show thesis using that s2 by blast
  next
    case 4
    then have "message_accepted clk room u name ad ct"
      using a q advance_True [of u "ad_counter ad" ?s0 s1] quota_True [of "hc_check clk" u s1 s2]
      by (simp add: message_accepted_def frame_simps)
    with assms show thesis by contradiction
  qed
qed

section \<open>Clears\<close>

definition clear_sessions :: "handler_clock \<Rightarrow> uuid \<Rightarrow> user_session_store \<Rightarrow> user_session_store" where
  "clear_sessions clk u st = snd (try_consume_clear (hc_check clk) u (ss_touch (hc_touch clk) u st))"

definition clear_accepted :: "handler_clock \<Rightarrow> 'tx room_state \<Rightarrow> uuid \<Rightarrow> bool" where
  "clear_accepted clk room u \<longleftrightarrow>
     (\<exists>s. ss_sessions (rs_sessions room) u = Some s \<and>
        (\<forall>prev. us_last_clear s = Some prev \<longrightarrow>
           CLEAR_COOLDOWN \<le> duration_since (hc_check clk) prev))"

definition clear_room :: "handler_clock \<Rightarrow> 'tx room_state \<Rightarrow> uuid \<Rightarrow> 'tx room_state" where
  "clear_room clk room u =
     room\<lparr>rs_sessions := clear_sessions clk u (rs_sessions room),
          rs_messages := ms_clear (rs_messages room)\<rparr>"

lemma clear_True:
  "fst (try_consume_clear (hc_check clk) u (ss_touch (hc_touch clk) u (rs_sessions room)))
     \<longleftrightarrow> clear_accepted clk room u"
  by (auto simp: try_consume_clear_def clear_accepted_def store_simps not_less split: option.splits)

lemma handle_clear_accept:
  assumes "clear_accepted clk room u"
  shows "handle_client_frame ts clk room u name Clear w =
    (Inr (), broadcast ts (hc_order clk) (clear_room clk room u) (Cleared u name) w)"
proof -
  obtain s1 where s1: "try_consume_clear (hc_check clk) u
      (ss_touch (hc_touch clk) u (rs_sessions room)) = (True, s1)"
    using assms clear_True [of clk u room] by (metis (full_types) prod.collapse)
  then have "s1 = clear_sessions clk u (rs_sessions room)"
    by (simp add: clear_sessions_def)
  with s1 show ?thesis
    by (simp add: handle_client_frame_def clear_room_def Let_def split: prod.split)
qed

lemma handle_clear_reject:
  assumes "\<not> clear_accepted clk room u"
  shows "handle_client_frame ts clk room u name Clear w =
    (Inl (Protocol ''clear cooldown active''),
     room\<lparr>rs_sessions := clear_sessions clk u (rs_sessions room)\<rparr>, w)"
proof -
  obtain s1 where s1: "try_consume_clear (hc_check clk) u
      (ss_touch (hc_touch clk) u (rs_sessions room)) = (False, s1)"
    using assms clear_True [of clk u room] by (metis (full_types) prod.collapse)
  then have "s1 = clear_sessions clk u (rs_sessions room)"
    by (simp add: clear_sessions_def)
  with s1 show ?thesis by (simp add: handle_client_frame_def Let_def)
qed

lemma handle_handshake_reject:
  "msg = RoomSelect r \<or> msg = ClientHello n \<Longrightarrow>
     handle_client_frame ts clk room u name msg w =
       (Inl (Protocol ''unexpected handshake frame after auth''),
        room\<lparr>rs_sessions := ss_touch (hc_touch clk) u (rs_sessions room)\<rparr>, w)"
  by (auto simp: handle_client_frame_def Let_def)

text \<open>Every call is one of three: an accepted message, an accepted clear, or a rejection.\<close>

lemma handle_cases:
  obtains
    (message) ad ct where "msg = ClientMessage ad ct" "message_accepted clk room u name ad ct"
      "handle_client_frame ts clk room u name msg w =
        (Inr (), broadcast ts (hc_order clk) (message_room clk room u name ad ct)
            (ServerMessage (stored_message u name ad ct)) w)"
  | (clear) "msg = Clear" "clear_accepted clk room u"
      "handle_client_frame ts clk room u name msg w =
        (Inr (), broadcast ts (hc_order clk) (clear_room clk room u) (Cleared u name) w)"
  | (reject) e ss where
      "handle_client_frame ts clk room u name msg w = (Inl e, room\<lparr>rs_sessions := ss\<rparr>, w)"
      "ss \<in> {ss_touch (hc_touch clk) u (rs_sessions room),
        clear_sessions clk u (rs_sessions room)} \<union>
        (\<Union>ad. {snd (try_advance_counter u (ad_counter ad) (ss_touch (hc_touch clk) u (rs_sessions room))),
          message_sessions clk u ad (rs_sessions room)})"
proof (cases msg)
  case (RoomSelect r)
  then have "msg = RoomSelect r \<or> msg = ClientHello []" by simp
  from reject [OF handle_handshake_reject [OF this]] show thesis by simp
next
  case (ClientHello n)
  then have "msg = RoomSelect [] \<or> msg = ClientHello n" by simp
  from reject [OF handle_handshake_reject [OF this]] show thesis by simp
next
  case (ClientMessage ad ct)
  show thesis
  proof (cases "message_accepted clk room u name ad ct")
    case True
    then show thesis
      by (rule message [OF ClientMessage]) (simp add: ClientMessage handle_message_accept True)
  next
    case False
    from handle_message_reject [OF this, of ts w] obtain e ss where
      "handle_client_frame ts clk room u name (ClientMessage ad ct) w =
         (Inl e, room\<lparr>rs_sessions := ss\<rparr>, w)"
      and "ss = ss_touch (hc_touch clk) u (rs_sessions room) \<or>
        ss = snd (try_advance_counter u (ad_counter ad)
          (ss_touch (hc_touch clk) u (rs_sessions room))) \<or>
        ss = message_sessions clk u ad (rs_sessions room)" .
    with ClientMessage reject [of e ss] show thesis by auto
  qed
next
  case Clear
  show thesis
  proof (cases "clear_accepted clk room u")
    case True
    then show thesis
      by (rule clear [OF Clear]) (simp add: Clear handle_clear_accept True)
  next
    case False
    from reject [OF handle_clear_reject [OF this, folded Clear]] show thesis by simp
  qed
qed

section \<open>Sessions of other users\<close>

text \<open>A session operation concerns one user.\<close>

lemma own_session_ops:
  "ss_sessions (ss_touch t u st) |` (- {u}) = ss_sessions st |` (- {u})"
  "ss_sessions (snd (try_advance_counter u c st)) |` (- {u}) = ss_sessions st |` (- {u})"
  "ss_sessions (snd (try_consume_message_quota t u st)) |` (- {u}) = ss_sessions st |` (- {u})"
  "ss_sessions (snd (try_consume_clear t u st)) |` (- {u}) = ss_sessions st |` (- {u})"
  by (auto simp: ss_touch_def try_advance_counter_def try_consume_message_quota_def
      try_consume_clear_def Let_def restrict_map_def fun_eq_iff split: option.split)

end
