(* ===== verification/RoomInvariant.thy ===== *)
theory RoomInvariant
  imports Handler
begin

text \<open>
  Registration, removal and the sweeper's eviction (\<^verbatim>\<open>src/server/mod.rs\<close>, the lock blocks of
  \<^verbatim>\<open>handle_connection\<close> and \<^verbatim>\<open>sweeper\<close>), and the invariant of a room: who is connected has a
  session, the history holds at most \<open>HISTORY_LEN\<close> well-formed, non-ephemeral messages with
  strictly increasing counters per sender, and no session's counter is behind its messages. Every
  lock block of the server keeps it.
\<close>

section \<open>The remaining lock blocks\<close>

text \<open>\<^verbatim>\<open>handle_connection\<close>: the block that inserts a session and its outbox.\<close>

definition register :: "instant \<Rightarrow> uuid \<Rightarrow> str \<Rightarrow> 'tx \<Rightarrow> 'tx room_state \<Rightarrow> 'tx room_state" where
  "register now user_id username tx room =
     room\<lparr>rs_sessions := ss_insert now user_id username (rs_sessions room),
          rs_connections := cm_insert user_id tx (rs_connections room)\<rparr>"

text \<open>\<^verbatim>\<open>handle_connection\<close>: the block after the pump has returned.\<close>

definition unregister :: "uuid \<Rightarrow> 'tx room_state \<Rightarrow> 'tx room_state" where
  "unregister user_id room =
     room\<lparr>rs_sessions := snd (ss_remove user_id (rs_sessions room)),
          rs_connections := cm_remove user_id (rs_connections room)\<rparr>"

text \<open>\<^verbatim>\<open>sweeper\<close>: the loop over the stale ids, with both locks held.\<close>

fun evict_sessions :: "uuid list \<Rightarrow> 'tx room_state \<Rightarrow> 'tx room_state" where
  "evict_sessions [] room = room"
| "evict_sessions (u # us) room = evict_sessions us (unregister u room)"

text \<open>\<^verbatim>\<open>sweeper\<close>: one room, with nothing happening between the two lock acquisitions.\<close>

definition sweep_room :: "instant \<Rightarrow> uuid list \<Rightarrow> 'tx room_state \<Rightarrow> 'tx room_state" where
  "sweep_room now order room =
     (let stale = ss_stale now order (rs_sessions room)
      in if stale = [] then room else evict_sessions stale room)"

lemma unregister_stores [store_simps]:
  "ss_sessions (rs_sessions (unregister u room)) = (ss_sessions (rs_sessions room))(u := None)"
  "cm_senders (rs_connections (unregister u room)) = (cm_senders (rs_connections room))(u := None)"
  "rs_messages (unregister u room) = rs_messages room"
  by (simp_all add: unregister_def store_simps)

lemma register_stores [store_simps]:
  "ss_sessions (rs_sessions (register t u n tx room)) =
     (ss_sessions (rs_sessions room))(u \<mapsto> fresh_session u (n, t))"
  "cm_senders (rs_connections (register t u n tx room)) =
     (cm_senders (rs_connections room))(u \<mapsto> tx)"
  "rs_messages (register t u n tx room) = rs_messages room"
  by (simp_all add: register_def store_simps)

lemma evict_sessions_stores:
  "ss_sessions (rs_sessions (evict_sessions us room)) v =
     (if v \<in> set us then None else ss_sessions (rs_sessions room) v)"
  "cm_senders (rs_connections (evict_sessions us room)) v =
     (if v \<in> set us then None else cm_senders (rs_connections room) v)"
  "rs_messages (evict_sessions us room) = rs_messages room"
  by (induction us arbitrary: room) (auto simp: store_simps)

section \<open>The invariant\<close>

definition username_ok :: "str \<Rightarrow> bool" where
  "username_ok name \<longleftrightarrow>
     name \<noteq> [] \<and> str_len name \<le> MAX_USERNAME_LEN \<and> is_valid_username name"

definition message_ok :: "room_message \<Rightarrow> bool" where
  "message_ok m \<longleftrightarrow>
     ad_from (rm_ad m) = rm_from m \<and> ad_username (rm_ad m) = rm_username m \<and>
     \<not> ad_ephemeral (rm_ad m) \<and> length (rm_ciphertext m) \<le> MAX_CIPHERTEXT_LEN \<and>
     username_ok (rm_username m)"

definition history_counters :: "uuid \<Rightarrow> room_message list \<Rightarrow> u64 list" where
  "history_counters u h = map (\<lambda>m. ad_counter (rm_ad m)) (filter (\<lambda>m. rm_from m = u) h)"

definition history_ok :: "room_message list \<Rightarrow> bool" where
  "history_ok h \<longleftrightarrow>
     length h \<le> HISTORY_LEN \<and> (\<forall>m \<in> set h. message_ok m) \<and>
     (\<forall>u. sorted_wrt (<) (history_counters u h))"

definition sessions_ok :: "instant \<Rightarrow> user_session_store \<Rightarrow> room_message list \<Rightarrow> bool" where
  "sessions_ok now st h \<longleftrightarrow>
     ss_inv now st \<and>
     (\<forall>u s. ss_sessions st u = Some s \<longrightarrow> username_ok (us_username s) \<and>
        (\<forall>c \<in> set (history_counters u h). c \<le> us_last_counter s))"

definition room_inv :: "instant \<Rightarrow> 'tx room_state \<Rightarrow> bool" where
  "room_inv now room \<longleftrightarrow>
     dom (cm_senders (rs_connections room)) \<subseteq> dom (ss_sessions (rs_sessions room)) \<and>
     distinct_channels (rs_connections room) \<and>
     history_ok (ms_snapshot (rs_messages room)) \<and>
     sessions_ok now (rs_sessions room) (ms_snapshot (rs_messages room))"

lemma room_inv_new: "room_inv now (room_state_new name salt psk)"
  by (simp add: room_inv_def room_state_new_def distinct_channels_def history_ok_def
      sessions_ok_def history_counters_def ss_inv_new)

lemma room_inv_mono: "room_inv m room \<Longrightarrow> m \<le> now \<Longrightarrow> room_inv now room"
  by (auto simp: room_inv_def sessions_ok_def intro: ss_inv_mono)

subsection \<open>Session blocks\<close>

text \<open>A session block changes clocks, windows and counters of existing sessions only, and never
  lowers a counter.\<close>

definition session_block :: "user_session_store \<Rightarrow> user_session_store \<Rightarrow> bool" where
  "session_block st st' \<longleftrightarrow>
     dom (ss_sessions st') = dom (ss_sessions st) \<and>
     (\<forall>u s s'. ss_sessions st u = Some s \<longrightarrow> ss_sessions st' u = Some s' \<longrightarrow>
        us_username s' = us_username s \<and> us_last_counter s \<le> us_last_counter s')"

lemma session_block_refl: "session_block st st"
  by (simp add: session_block_def)

lemma session_block_trans:
  assumes "session_block a b" and "session_block b c"
  shows "session_block a c"
  unfolding session_block_def
proof (intro conjI allI impI)
  show "dom (ss_sessions c) = dom (ss_sessions a)"
    using assms by (simp add: session_block_def)
  fix u s s'
  assume s: "ss_sessions a u = Some s" "ss_sessions c u = Some s'"
  then have "u \<in> dom (ss_sessions b)" using assms(1) by (auto simp: session_block_def)
  then obtain r where r: "ss_sessions b u = Some r" by blast
  show "us_username s' = us_username s"
    using assms s r by (simp add: session_block_def)
  have "us_last_counter s \<le> us_last_counter r" "us_last_counter r \<le> us_last_counter s'"
    using assms s r by (auto simp: session_block_def)
  then show "us_last_counter s \<le> us_last_counter s'" by (rule order_trans)
qed

lemma session_block_touch: "session_block st (ss_touch t u st)"
  by (auto simp: session_block_def store_simps split: option.splits if_splits)

lemma session_block_advance: "session_block st (snd (try_advance_counter u c st))"
  by (auto simp: session_block_def try_advance_counter_def split: option.splits if_splits)

lemma session_block_quota: "session_block st (snd (try_consume_message_quota t u st))"
  by (auto simp: session_block_def try_consume_message_quota_def Let_def
      split: option.splits if_splits)

lemma session_block_clear: "session_block st (snd (try_consume_clear t u st))"
  by (auto simp: session_block_def try_consume_clear_def split: option.splits if_splits)

lemmas session_blocks =
  session_block_touch session_block_advance session_block_quota session_block_clear

lemma session_block_message: "session_block st (message_sessions clk u ad st)"
  unfolding message_sessions_def by (blast intro: session_blocks session_block_trans)

lemma session_block_clear_sessions: "session_block st (clear_sessions clk u st)"
  unfolding clear_sessions_def by (blast intro: session_blocks session_block_trans)

lemma sessions_ok_block:
  assumes "sessions_ok m st h" and "session_block st st'" and "ss_inv now st'"
  shows "sessions_ok now st' h"
  unfolding sessions_ok_def
proof (intro conjI allI impI ballI)
  fix u s'
  assume s': "ss_sessions st' u = Some s'"
  then have "u \<in> dom (ss_sessions st)" using assms(2) by (auto simp: session_block_def)
  then obtain s where s: "ss_sessions st u = Some s" by blast
  show "username_ok (us_username s')"
    using assms(1,2) s s' by (simp add: sessions_ok_def session_block_def)
  fix c
  assume "c \<in> set (history_counters u h)"
  with assms(1) s have "c \<le> us_last_counter s" by (simp add: sessions_ok_def)
  also have "\<dots> \<le> us_last_counter s'"
    using assms(2) s s' by (simp add: session_block_def)
  finally show "c \<le> us_last_counter s'" .
qed (rule assms(3))

lemma room_inv_session_block:
  assumes "room_inv m room" and "session_block (rs_sessions room) st'" and "ss_inv now st'"
  shows "room_inv now (room\<lparr>rs_sessions := st'\<rparr>)"
  using assms sessions_ok_block by (auto simp: room_inv_def session_block_def)

lemma ss_inv_message_sessions:
  "ss_inv m st \<Longrightarrow> m \<le> hc_touch clk \<Longrightarrow> hc_touch clk \<le> hc_check clk \<Longrightarrow>
     ss_inv (hc_check clk) (message_sessions clk u ad st)"
  unfolding message_sessions_def
  by (intro ss_inv_quota ss_inv_advance, rule ss_inv_mono, rule ss_inv_touch)
    (auto intro: ss_inv_mono)

lemma ss_inv_clear_sessions:
  "ss_inv m st \<Longrightarrow> m \<le> hc_touch clk \<Longrightarrow> hc_touch clk \<le> hc_check clk \<Longrightarrow>
     ss_inv (hc_check clk) (clear_sessions clk u st)"
  unfolding clear_sessions_def
  by (intro ss_inv_clear, rule ss_inv_mono, rule ss_inv_touch) (auto intro: ss_inv_mono)

subsection \<open>History blocks\<close>

lemma history_counters_snoc:
  "history_counters u (h @ [m]) =
     history_counters u h @ (if rm_from m = u then [ad_counter (rm_ad m)] else [])"
  by (simp add: history_counters_def)

lemma history_counters_tl:
  "history_counters u (tl h) = history_counters u h \<or>
     history_counters u (tl h) = tl (history_counters u h)"
  by (cases h) (auto simp: history_counters_def)

lemma set_history_counters_tl: "set (history_counters u (tl h)) \<subseteq> set (history_counters u h)"
  using history_counters_tl [of u h] by (cases "history_counters u h") auto

lemma sorted_history_counters_tl:
  "sorted_wrt (<) (history_counters u h) \<Longrightarrow> sorted_wrt (<) (history_counters u (tl h))"
  using history_counters_tl [of u h] by (cases "history_counters u h") auto

lemma history_counters_push:
  "set (history_counters u (ms_snapshot (ms_push m st)))
     \<subseteq> set (history_counters u (ms_snapshot st)) \<union> (if rm_from m = u then {ad_counter (rm_ad m)} else {})"
  using set_history_counters_tl [of u "ms_snapshot st"]
  by (auto simp: history.items_push history_counters_snoc split: if_splits)

lemma history_ok_push:
  assumes "history_ok (ms_snapshot st)" and "message_ok m"
    and "\<forall>c \<in> set (history_counters (rm_from m) (ms_snapshot st)). c < ad_counter (rm_ad m)"
  shows "history_ok (ms_snapshot (ms_push m st))"
proof -
  let ?h = "ms_snapshot st"
  let ?t = "if length ?h = HISTORY_LEN then tl ?h else ?h"
  have "set ?t \<subseteq> set ?h" by (cases ?h) auto
  moreover have "sorted_wrt (<) (history_counters u (?t @ [m]))" for u
  proof -
    have "sorted_wrt (<) (history_counters u ?t)"
      using assms(1) sorted_history_counters_tl by (auto simp: history_ok_def)
    moreover have "set (history_counters u ?t) \<subseteq> set (history_counters u ?h)"
      using set_history_counters_tl by auto
    ultimately show ?thesis
      using assms(3) by (auto simp: history_counters_snoc sorted_wrt_append)
  qed
  moreover have "length (ms_snapshot (ms_push m st)) \<le> HISTORY_LEN"
    using assms(1) by (intro history.length_items_push) (simp add: history_ok_def)
  ultimately show ?thesis
    using assms(1,2) by (auto simp: history_ok_def history.items_push)
qed

text \<open>Pushing an admitted message: its counter is above its sender's stored ones, and covered by
  the sender's session if that still exists.\<close>

lemma room_inv_push:
  assumes "room_inv now room" and "message_ok m"
    and "\<forall>c \<in> set (history_counters (rm_from m) (ms_snapshot (rs_messages room))).
      c < ad_counter (rm_ad m)"
    and "\<forall>s. ss_sessions (rs_sessions room) (rm_from m) = Some s \<longrightarrow>
      ad_counter (rm_ad m) \<le> us_last_counter s"
  shows "room_inv now (room\<lparr>rs_messages := ms_push m (rs_messages room)\<rparr>)"
proof -
  have "sessions_ok now (rs_sessions room) (ms_snapshot (ms_push m (rs_messages room)))"
    using assms(1,4) history_counters_push [of _ m "rs_messages room"]
    unfolding room_inv_def sessions_ok_def by (fastforce split: if_splits)
  with assms show ?thesis by (simp add: room_inv_def history_ok_push)
qed

lemma room_inv_ms_clear:
  "room_inv now room \<Longrightarrow> room_inv now (room\<lparr>rs_messages := ms_clear (rs_messages room)\<rparr>)"
  by (simp add: room_inv_def history_ok_def sessions_ok_def history_counters_def)

subsection \<open>Connection blocks\<close>

lemma room_inv_connections:
  assumes "room_inv now room"
    and "\<And>u tx. cm_senders c u = Some tx \<Longrightarrow> cm_senders (rs_connections room) u = Some tx"
  shows "room_inv now (room\<lparr>rs_connections := c\<rparr>)"
proof -
  have "distinct_channels c"
    using assms by (fastforce simp: room_inv_def distinct_channels_def)
  moreover have "dom (cm_senders c) \<subseteq> dom (cm_senders (rs_connections room))"
    using assms(2) by fastforce
  ultimately show ?thesis using assms(1) by (auto simp: room_inv_def)
qed

lemma broadcast_update:
  "fst (broadcast ts order room f w) =
     room\<lparr>rs_connections := rs_connections (fst (broadcast ts order room f w))\<rparr>"
  by (simp add: broadcast_def Let_def split: prod.split)

lemma room_inv_broadcast:
  assumes "room_inv now room"
  shows "room_inv now (fst (broadcast ts order room f w))"
proof (subst broadcast_update, rule room_inv_connections [OF assms])
qed (rule broadcast_senders_le)

lemma room_inv_unregister:
  assumes "room_inv now room"
  shows "room_inv now (unregister u room)"
proof -
  have "sessions_ok now (rs_sessions (unregister u room)) (ms_snapshot (rs_messages room))"
    using assms ss_inv_remove [of now "rs_sessions room" u]
    by (auto simp: room_inv_def sessions_ok_def store_simps unregister_def split: if_splits)
  with assms show ?thesis
    by (auto simp: room_inv_def store_simps distinct_channels_def split: if_splits)
qed

lemma room_inv_evict: "room_inv now room \<Longrightarrow> room_inv now (evict_sessions us room)"
  by (induction us arbitrary: room) (auto intro: room_inv_unregister)

lemma room_inv_sweep: "room_inv now room \<Longrightarrow> room_inv now (sweep_room t order room)"
  by (simp add: sweep_room_def Let_def room_inv_evict)

text \<open>A joining user has a fresh id (a version 4 UUID) and a fresh channel.\<close>

lemma room_inv_register:
  assumes "room_inv now room" and "username_ok name"
    and "history_counters u (ms_snapshot (rs_messages room)) = []"
    and "tx \<notin> ran (cm_senders (rs_connections room))"
    and "t \<le> now"
  shows "room_inv now (register t u name tx room)"
proof -
  have "distinct_channels (rs_connections (register t u name tx room))"
    using assms(1,4) by (auto simp: room_inv_def distinct_channels_def store_simps ran_def)
  moreover have "sessions_ok now (rs_sessions (register t u name tx room))
      (ms_snapshot (rs_messages room))"
    using assms ss_inv_insert [of now "rs_sessions room" t u name]
    by (auto simp: room_inv_def sessions_ok_def store_simps register_def fresh_session_def)
  ultimately show ?thesis using assms(1) by (auto simp: room_inv_def store_simps)
qed

section \<open>The handler keeps the invariant\<close>

lemma accepted_message_ok:
  assumes "message_accepted clk room u name ad ct" and "room_inv m room"
    and "\<forall>s. ss_sessions (rs_sessions room) u = Some s \<longrightarrow> us_username s = name"
    and "\<not> ad_ephemeral ad"
  shows "message_ok (stored_message u name ad ct)"
proof -
  obtain s where "ss_sessions (rs_sessions room) u = Some s"
    using assms(1) by (auto simp: message_accepted_def has_session_def)
  with assms(2,3) have "username_ok name"
    by (auto simp: room_inv_def sessions_ok_def)
  with assms(1,4) show ?thesis
    by (simp add: message_accepted_def message_ok_def stored_message_def)
qed

lemma session_counter_message:
  assumes "message_accepted clk room u name ad ct"
  shows "session_counter (message_sessions clk u ad (rs_sessions room)) u = ad_counter ad"
proof -
  have "fst (try_advance_counter u (ad_counter ad) (ss_touch (hc_touch clk) u (rs_sessions room)))"
    using assms by (simp add: message_accepted_def replay.accept_iff frame_simps)
  then show ?thesis by (simp add: message_sessions_def frame_simps replay.high_accept)
qed

lemma room_inv_message_room:
  assumes inv: "room_inv m room" and acc: "message_accepted clk room u name ad ct"
    and name: "\<forall>s. ss_sessions (rs_sessions room) u = Some s \<longrightarrow> us_username s = name"
    and clk: "m \<le> hc_touch clk" "hc_touch clk \<le> hc_check clk"
  shows "room_inv (hc_check clk) (message_room clk room u name ad ct)"
proof -
  let ?st = "message_sessions clk u ad (rs_sessions room)"
  let ?r = "room\<lparr>rs_sessions := ?st\<rparr>"
  let ?m = "stored_message u name ad ct"
  have inv': "room_inv (hc_check clk) ?r"
    using inv clk ss_inv_message_sessions
    by (intro room_inv_session_block [OF inv session_block_message])
      (auto simp: room_inv_def sessions_ok_def)
  show ?thesis
  proof (cases "ad_ephemeral ad")
    case True
    with inv' show ?thesis by (simp add: message_room_def)
  next
    case False
    obtain s where s: "ss_sessions (rs_sessions room) u = Some s"
      "us_last_counter s < ad_counter ad"
      using acc by (auto simp: message_accepted_def has_session_def session_counter_def)
    have "c < ad_counter ad" if "c \<in> set (history_counters u (ms_snapshot (rs_messages room)))" for c
    proof -
      have "c \<le> us_last_counter s"
        using that inv s by (auto simp: room_inv_def sessions_ok_def)
      also note s(2)
      finally show ?thesis .
    qed
    moreover have "ad_counter ad \<le> us_last_counter s'" if "ss_sessions ?st u = Some s'" for s'
      using session_counter_message [OF acc] that by (simp add: session_counter_def)
    ultimately have "room_inv (hc_check clk) (?r\<lparr>rs_messages := ms_push ?m (rs_messages ?r)\<rparr>)"
      using accepted_message_ok [OF acc inv name False]
      by (intro room_inv_push [OF inv']) (simp_all add: stored_message_def)
    with False show ?thesis by (simp add: message_room_def)
  qed
qed

lemma room_inv_clear_room:
  assumes "room_inv m room" and "m \<le> hc_touch clk" "hc_touch clk \<le> hc_check clk"
  shows "room_inv (hc_check clk) (clear_room clk room u)"
proof -
  have "room_inv (hc_check clk) (room\<lparr>rs_sessions := clear_sessions clk u (rs_sessions room)\<rparr>)"
    using assms ss_inv_clear_sessions
    by (intro room_inv_session_block [OF assms(1) session_block_clear_sessions])
      (auto simp: room_inv_def sessions_ok_def)
  then show ?thesis using room_inv_ms_clear by (fastforce simp: clear_room_def)
qed

lemma room_inv_handle:
  assumes inv: "room_inv m room" and clk: "m \<le> hc_touch clk" "hc_touch clk \<le> hc_check clk"
    and name: "\<forall>s. ss_sessions (rs_sessions room) u = Some s \<longrightarrow> us_username s = name"
  shows "room_inv (hc_check clk)
    (fst (snd (handle_client_frame ts clk room u name msg w)))"
proof (cases rule: handle_cases [of msg clk room u name ts w])
  case (message ad ct)
  then show ?thesis
    using room_inv_message_room [OF inv message(2) name clk] by (simp add: room_inv_broadcast)
next
  case clear
  then show ?thesis
    using room_inv_clear_room [OF inv clk] by (simp add: room_inv_broadcast)
next
  case (reject e ss)
  have ssinv: "ss_inv m (rs_sessions room)" using inv by (simp add: room_inv_def sessions_ok_def)
  have touch: "ss_inv (hc_check clk) (ss_touch (hc_touch clk) u (rs_sessions room))"
    using ss_inv_touch ss_inv_mono ssinv clk by blast
  have "session_block (rs_sessions room) ss \<and> ss_inv (hc_check clk) ss"
    using reject(2) touch ss_inv_message_sessions [OF ssinv clk] ss_inv_clear_sessions [OF ssinv clk]
    by (auto intro: session_block_message session_block_clear_sessions session_blocks
        session_block_trans ss_inv_advance)
  with reject(1) show ?thesis
    using room_inv_session_block [OF inv] by simp
qed

end
