(* ===== verification/RoomMachine.thy ===== *)
theory RoomMachine
  imports RoomInvariant
begin

text \<open>
  A room under concurrency. Every connection task and the sweeper take the room's locks one block
  at a time, and other tasks run in between. The machine below has one step per lock block (and
  per \<^verbatim>\<open>try_send\<close>): the handler of \<^verbatim>\<open>src/server/mod.rs\<close> is cut at exactly the points where it
  releases a lock. \<open>run_blocks_handle\<close> shows that the blocks, run without interference, are the
  handler; the invariants hold for every interleaving. Two ghost fields record the frames
  announced so far and the ids ever handed out.
\<close>

section \<open>Stages of a connection task\<close>

datatype 'tx stage =
    Joined
  | Ready
  | Handling client_frame
  | Admitted room_message
  | ClearAdmitted
  | Announcing server_frame
  | Sending server_frame "(uuid \<times> 'tx) list" "uuid list"
  | Evicting "uuid list"
  | Leaving

text \<open>
  One block of \<^verbatim>\<open>handle_client_frame\<close> and \<^verbatim>\<open>broadcast\<close>. \<open>Ready\<close> and \<open>Leaving\<close> are where the
  handler has returned, without and with an error. The first block of the handler, \<^verbatim>\<open>touch\<close>,
  belongs to the step that receives the frame.
\<close>

fun task_block ::
  "('tx, 'w) sender \<Rightarrow> instant \<Rightarrow> uuid list \<Rightarrow> uuid \<Rightarrow> str \<Rightarrow> 'tx stage \<times> 'tx room_state \<times> 'w
     \<Rightarrow> 'tx stage \<times> 'tx room_state \<times> 'w" where
  "task_block ts now order u name (Handling msg, room, w) =
     (case msg of
        RoomSelect _ \<Rightarrow> (Leaving, room, w)
      | ClientHello _ \<Rightarrow> (Leaving, room, w)
      | ClientMessage ad ct \<Rightarrow>
          if ad_from ad \<noteq> u then (Leaving, room, w)
          else if ad_username ad \<noteq> name then (Leaving, room, w)
          else if length ct > MAX_CIPHERTEXT_LEN then (Leaving, room, w)
          else
            (case try_advance_counter u (ad_counter ad) (rs_sessions room) of
               (False, ss) \<Rightarrow> (Leaving, room\<lparr>rs_sessions := ss\<rparr>, w)
             | (True, ss) \<Rightarrow>
            (case try_consume_message_quota now u ss of
               (False, ss) \<Rightarrow> (Leaving, room\<lparr>rs_sessions := ss\<rparr>, w)
             | (True, ss) \<Rightarrow>
                 (Admitted \<lparr>rm_from = u, rm_username = name, rm_ad = ad, rm_ciphertext = ct\<rparr>,
                  room\<lparr>rs_sessions := ss\<rparr>, w)))
      | Clear \<Rightarrow>
          (case try_consume_clear now u (rs_sessions room) of
             (False, ss) \<Rightarrow> (Leaving, room\<lparr>rs_sessions := ss\<rparr>, w)
           | (True, ss) \<Rightarrow> (ClearAdmitted, room\<lparr>rs_sessions := ss\<rparr>, w)))"
| "task_block ts now order u name (Admitted m, room, w) =
     (Announcing (ServerMessage m),
      if \<not> ad_ephemeral (rm_ad m) then room\<lparr>rs_messages := ms_push m (rs_messages room)\<rparr> else room,
      w)"
| "task_block ts now order u name (ClearAdmitted, room, w) =
     (Announcing (Cleared u name), room\<lparr>rs_messages := ms_clear (rs_messages room)\<rparr>, w)"
| "task_block ts now order u name (Announcing f, room, w) =
     (Sending f (cm_snapshot order (rs_connections room)) [], room, w)"
| "task_block ts now order u name (Sending f [] dead, room, w) =
     (if dead \<noteq> [] then Evicting dead else Ready, room, w)"
| "task_block ts now order u name (Sending f ((v, tx) # snapshot) dead, room, w) =
     (case ts tx f w of
        (Sent, w) \<Rightarrow> (Sending f snapshot dead, room, w)
      | (OutboxFull, w) \<Rightarrow> (Sending f snapshot (dead @ [v]), room, w)
      | (OutboxClosed, w) \<Rightarrow> (Sending f snapshot (dead @ [v]), room, w))"
| "task_block ts now order u name (Evicting dead, room, w) =
     (Ready, room\<lparr>rs_connections := fold cm_remove dead (rs_connections room)\<rparr>, w)"
| "task_block ts now order u name (stage, room, w) = (stage, room, w)"

section \<open>Without interference, the blocks are the handler\<close>

lemma run_blocks_sending:
  "\<exists>n. ((task_block ts now order u name) ^^ n) (Sending f snapshot dead, room, w) =
     (Sending f [] (dead @ fst (send_all ts f snapshot w)), room, snd (send_all ts f snapshot w))"
proof (induction snapshot arbitrary: dead w)
  case Nil
  show ?case by (rule exI [of _ 0]) simp
next
  case (Cons x snapshot)
  let ?b = "task_block ts now order u name"
  obtain v tx where x: "x = (v, tx)" by (cases x)
  obtain out w1 where ts: "ts tx f w = (out, w1)" by (cases "ts tx f w")
  let ?dead = "if out = Sent then dead else dead @ [v]"
  have one: "?b (Sending f (x # snapshot) dead, room, w) = (Sending f snapshot ?dead, room, w1)"
    using x ts by (cases out) simp_all
  obtain n where "(?b ^^ n) (Sending f snapshot ?dead, room, w1) =
      (Sending f [] (?dead @ fst (send_all ts f snapshot w1)), room, snd (send_all ts f snapshot w1))"
    using Cons.IH by blast
  with one x ts have "(?b ^^ Suc n) (Sending f (x # snapshot) dead, room, w) =
      (Sending f [] (dead @ fst (send_all ts f (x # snapshot) w)), room,
       snd (send_all ts f (x # snapshot) w))"
    by (simp add: funpow_swap1 send_all_Cons split_def Let_def del: send_all.simps)
  then show ?case by blast
qed

lemma run_blocks_announcing:
  "\<exists>n. ((task_block ts now order u name) ^^ n) (Announcing f, room, w) =
     (Ready, fst (broadcast ts order room f w), snd (broadcast ts order room f w))"
proof -
  let ?b = "task_block ts now order u name"
  let ?sa = "send_all ts f (cm_snapshot order (rs_connections room)) w"
  obtain n where n: "(?b ^^ n) (Sending f (cm_snapshot order (rs_connections room)) [], room, w) =
      (Sending f [] (fst ?sa), room, snd ?sa)"
    using run_blocks_sending [where dead = "[]"] by fastforce
  let ?last = "(if fst ?sa = [] then 1 else 2) :: nat"
  have "(?b ^^ (?last + n + 1)) (Announcing f, room, w)
      = (?b ^^ ?last) ((?b ^^ n) (?b (Announcing f, room, w)))"
    by (simp only: funpow_add o_apply funpow_0 funpow.simps One_nat_def id_apply)
  also have "\<dots> = (?b ^^ ?last) (Sending f [] (fst ?sa), room, snd ?sa)"
    by (simp add: n)
  also have "\<dots> = (Ready, fst (broadcast ts order room f w), snd (broadcast ts order room f w))"
    by (auto simp: broadcast_def Let_def split_def numeral_2_eq_2)
  finally show ?thesis by blast
qed

lemma run_blocks_handle:
  assumes "handle_client_frame ts clk room u name msg w = (r, room', w')"
  shows "\<exists>n. ((task_block ts (hc_check clk) (hc_order clk) u name) ^^ n)
      (Handling msg, room\<lparr>rs_sessions := ss_touch (hc_touch clk) u (rs_sessions room)\<rparr>, w) =
    (if r = Inr () then Ready else Leaving, room', w')"
proof -
  let ?b = "task_block ts (hc_check clk) (hc_order clk) u name"
  let ?room = "room\<lparr>rs_sessions := ss_touch (hc_touch clk) u (rs_sessions room)\<rparr>"
  have extend: "\<exists>n. (?b ^^ n) (Handling msg, ?room, w) = (Ready, room', w')"
    if two: "?b (?b (Handling msg, ?room, w)) = (Announcing f, r1, w)"
      and b: "broadcast ts (hc_order clk) r1 f w = (room', w')" for f r1
  proof -
    obtain n where "(?b ^^ n) (Announcing f, r1, w) = (Ready, room', w')"
      using run_blocks_announcing [of ts "hc_check clk" "hc_order clk" u name f r1 w] b by auto
    with two have "(?b ^^ (n + 2)) (Handling msg, ?room, w) = (Ready, room', w')"
      by (simp add: funpow_swap1)
    then show ?thesis by blast
  qed
  have stop: "\<exists>n. (?b ^^ n) (Handling msg, ?room, w) = (Leaving, room', w')"
    if "?b (Handling msg, ?room, w) = (Leaving, room', w')"
    by (rule exI [of _ 1]) (use that in simp)
  show ?thesis
  proof (cases msg)
    case (ClientMessage ad ct)
    obtain ok1 s1 where a: "try_advance_counter u (ad_counter ad)
        (ss_touch (hc_touch clk) u (rs_sessions room)) = (ok1, s1)"
      by (cases "try_advance_counter u (ad_counter ad)
        (ss_touch (hc_touch clk) u (rs_sessions room))")
    obtain ok2 s2 where q: "try_consume_message_quota (hc_check clk) u s1 = (ok2, s2)"
      by (cases "try_consume_message_quota (hc_check clk) u s1")
    consider (guard) "ad_from ad \<noteq> u \<or> ad_username ad \<noteq> name \<or> length ct > MAX_CIPHERTEXT_LEN"
      | (refused) "ad_from ad = u" "ad_username ad = name" "length ct \<le> MAX_CIPHERTEXT_LEN" "\<not> (ok1 \<and> ok2)"
      | (accepted) "ad_from ad = u" "ad_username ad = name" "length ct \<le> MAX_CIPHERTEXT_LEN" "ok1" "ok2"
      by linarith
    then show ?thesis
    proof cases
      case guard
      then have "r \<noteq> Inr ()" "?b (Handling msg, ?room, w) = (Leaving, room', w')"
        using assms ClientMessage by (auto simp: handle_client_frame_def Let_def split: if_splits)
      with stop show ?thesis by simp
    next
      case refused
      then have "r \<noteq> Inr ()" "?b (Handling msg, ?room, w) = (Leaving, room', w')"
        using assms a q ClientMessage
        by (cases ok1; cases ok2; auto simp: handle_client_frame_def Let_def)+
      with stop show ?thesis by simp
    next
      case accepted
      let ?m = "\<lparr>rm_from = u, rm_username = name, rm_ad = ad, rm_ciphertext = ct\<rparr>"
      let ?r1 = "if \<not> ad_ephemeral ad
        then room\<lparr>rs_sessions := s2, rs_messages := ms_push ?m (rs_messages room)\<rparr>
        else room\<lparr>rs_sessions := s2\<rparr>"
      have "?b (?b (Handling msg, ?room, w)) = (Announcing (ServerMessage ?m), ?r1, w)"
        using accepted a q ClientMessage by simp
      moreover have "broadcast ts (hc_order clk) ?r1 (ServerMessage ?m) w = (room', w')" "r = Inr ()"
        using assms accepted a q ClientMessage
        by (auto simp: handle_client_frame_def Let_def split: prod.splits if_splits)
      ultimately show ?thesis using extend by simp
    qed
  next
    case Clear
    obtain ok s1 where c: "try_consume_clear (hc_check clk) u
        (ss_touch (hc_touch clk) u (rs_sessions room)) = (ok, s1)"
      by (cases "try_consume_clear (hc_check clk) u (ss_touch (hc_touch clk) u (rs_sessions room))")
    let ?r1 = "room\<lparr>rs_sessions := s1, rs_messages := ms_clear (rs_messages room)\<rparr>"
    show ?thesis
    proof (cases ok)
      case True
      have "?b (?b (Handling msg, ?room, w)) = (Announcing (Cleared u name), ?r1, w)"
        using True c Clear by simp
      moreover have "broadcast ts (hc_order clk) ?r1 (Cleared u name) w = (room', w')" "r = Inr ()"
        using assms True c Clear
        by (auto simp: handle_client_frame_def Let_def split: prod.splits)
      ultimately show ?thesis using extend by simp
    next
      case False
      with assms c Clear stop show ?thesis by (auto simp: handle_client_frame_def Let_def)
    qed
  qed (use assms stop in \<open>auto simp: handle_client_frame_def Let_def\<close>)
qed

end
