(* ===== verification/Interleaving.thy ===== *)
theory Interleaving
  imports RoomMachine
begin

text \<open>
  The transition system of one room: the connection tasks that have joined it, each at a stage of
  its handler, the sweeper, the receiving ends of the outboxes and the clock, in any interleaving
  of their lock blocks. Three ghost fields record history: \<open>mc_names\<close> the user id and name of
  everyone who ever joined, \<open>mc_log\<close> the frames announced, in the order in which they took effect
  on the message history, \<open>mc_sent\<close> the frames put into each outbox. The invariant gives the
  room's guarantees for every reachable state.
\<close>

section \<open>The machine\<close>

record 'tx task =
  tk_username :: str
  tk_stage :: "'tx stage"

record ('tx, 'w) machine =
  mc_room :: "'tx room_state"
  mc_chan :: 'w
  mc_tasks :: "uuid \<rightharpoonup> 'tx task"
  mc_sweep :: "uuid list"
  mc_now :: instant
  mc_names :: "uuid \<rightharpoonup> str"
  mc_log :: "server_frame list"
  mc_sent :: "'tx \<Rightarrow> server_frame list"

text \<open>The ghost effects of a block: what it announces, and what it puts into an outbox.\<close>

fun announced :: "uuid \<Rightarrow> str \<Rightarrow> 'tx stage \<Rightarrow> server_frame list" where
  "announced u name (Admitted m) = [ServerMessage m]"
| "announced u name ClearAdmitted = [Cleared u name]"
| "announced u name stage = []"

fun delivered ::
  "('tx, 'w) sender \<Rightarrow> 'tx stage \<Rightarrow> 'w \<Rightarrow> ('tx \<Rightarrow> server_frame list) \<Rightarrow> 'tx \<Rightarrow> server_frame list" where
  "delivered ts (Sending f ((v, tx) # snapshot) dead) w sent =
     (if fst (ts tx f w) = Sent then sent(tx := sent tx @ [f]) else sent)"
| "delivered ts stage w sent = sent"

definition at_stage :: "uuid \<Rightarrow> 'tx task \<Rightarrow> 'tx stage \<Rightarrow> (uuid \<rightharpoonup> 'tx task) \<Rightarrow> uuid \<rightharpoonup> 'tx task" where
  "at_stage u tk stage tasks = tasks(u \<mapsto> tk\<lparr>tk_stage := stage\<rparr>)"

text \<open>
  \<open>join\<close> reads the clock before it waits for the second lock. \<open>welcome_failed\<close> is the \<^verbatim>\<open>?\<close> after sending the welcome frame: it returns before the cleanup
  block, so session and connection stay in the room. \<open>stop\<close> is every way in which the pump
  returns: shutdown, a closed outbox, the end of the stream, an error.
\<close>

inductive machine_step ::
  "('tx, 'w) sender \<Rightarrow> ('tx, 'w) machine \<Rightarrow> ('tx, 'w) machine \<Rightarrow> bool"
  for ts :: "('tx, 'w) sender" where
  tick: "mc_now m \<le> t \<Longrightarrow> machine_step ts m (m\<lparr>mc_now := t\<rparr>)"
| drain: "machine_step ts m (m\<lparr>mc_chan := w\<rparr>)"
| join: "u \<notin> dom (mc_names m) \<Longrightarrow> tx \<notin> ran (cm_senders (rs_connections (mc_room m))) \<Longrightarrow>
    username_ok name \<Longrightarrow> t \<le> mc_now m \<Longrightarrow>
    machine_step ts m (m\<lparr>mc_room := register t u name tx (mc_room m),
      mc_tasks := (mc_tasks m)(u \<mapsto> \<lparr>tk_username = name, tk_stage = Joined\<rparr>),
      mc_names := (mc_names m)(u \<mapsto> name)\<rparr>)"
| welcomed: "mc_tasks m u = Some tk \<Longrightarrow> tk_stage tk = Joined \<Longrightarrow>
    machine_step ts m (m\<lparr>mc_tasks := at_stage u tk Ready (mc_tasks m)\<rparr>)"
| welcome_failed: "mc_tasks m u = Some tk \<Longrightarrow> tk_stage tk = Joined \<Longrightarrow>
    machine_step ts m (m\<lparr>mc_tasks := (mc_tasks m)(u := None)\<rparr>)"
| receive: "mc_tasks m u = Some tk \<Longrightarrow> tk_stage tk = Ready \<Longrightarrow>
    machine_step ts m (m\<lparr>mc_room := (mc_room m)\<lparr>rs_sessions :=
        ss_touch (mc_now m) u (rs_sessions (mc_room m))\<rparr>,
      mc_tasks := at_stage u tk (Handling f) (mc_tasks m)\<rparr>)"
| block: "mc_tasks m u = Some tk \<Longrightarrow>
    iteration_order (cm_senders (rs_connections (mc_room m))) order \<Longrightarrow>
    task_block ts (mc_now m) order u (tk_username tk) (tk_stage tk, mc_room m, mc_chan m) =
      (stage, room, w) \<Longrightarrow>
    machine_step ts m (m\<lparr>mc_room := room, mc_chan := w,
      mc_tasks := at_stage u tk stage (mc_tasks m),
      mc_log := mc_log m @ announced u (tk_username tk) (tk_stage tk),
      mc_sent := delivered ts (tk_stage tk) (mc_chan m) (mc_sent m)\<rparr>)"
| stop: "mc_tasks m u = Some tk \<Longrightarrow> tk_stage tk = Ready \<Longrightarrow>
    machine_step ts m (m\<lparr>mc_tasks := at_stage u tk Leaving (mc_tasks m)\<rparr>)"
| leave: "mc_tasks m u = Some tk \<Longrightarrow> tk_stage tk = Leaving \<Longrightarrow>
    machine_step ts m (m\<lparr>mc_room := unregister u (mc_room m),
      mc_tasks := (mc_tasks m)(u := None)\<rparr>)"
| sweep_read: "mc_sweep m = [] \<Longrightarrow>
    iteration_order (ss_sessions (rs_sessions (mc_room m))) order \<Longrightarrow>
    machine_step ts m (m\<lparr>mc_sweep := ss_stale (mc_now m) order (rs_sessions (mc_room m))\<rparr>)"
| sweep_evict: "machine_step ts m (m\<lparr>mc_room := evict_sessions (mc_sweep m) (mc_room m),
      mc_sweep := []\<rparr>)"

definition machine_init :: "str \<Rightarrow> bytes \<Rightarrow> bytes \<Rightarrow> 'w \<Rightarrow> ('tx, 'w) machine" where
  "machine_init room_id salt psk w =
     \<lparr>mc_room = room_state_new room_id salt psk, mc_chan = w, mc_tasks = Map.empty, mc_sweep = [],
      mc_now = 0, mc_names = Map.empty, mc_log = [], mc_sent = (\<lambda>_. [])\<rparr>"

inductive reachable ::
  "('tx, 'w) sender \<Rightarrow> ('tx, 'w) machine \<Rightarrow> ('tx, 'w) machine \<Rightarrow> bool"
  for ts :: "('tx, 'w) sender" and m0 :: "('tx, 'w) machine" where
  start: "reachable ts m0 m0"
| step: "reachable ts m0 m \<Longrightarrow> machine_step ts m m' \<Longrightarrow> reachable ts m0 m'"

section \<open>What the log says\<close>

text \<open>The counters of a user's messages among some frames, and the history that a sequence of
  announced frames leaves behind if nothing were ever dropped.\<close>

fun frame_counter :: "uuid \<Rightarrow> server_frame \<Rightarrow> u64 list" where
  "frame_counter u (ServerMessage m) = (if rm_from m = u then [ad_counter (rm_ad m)] else [])"
| "frame_counter u f = []"

definition log_counters :: "uuid \<Rightarrow> server_frame list \<Rightarrow> u64 list" where
  "log_counters u log = concat (map (frame_counter u) log)"

fun history_step :: "server_frame \<Rightarrow> room_message list \<Rightarrow> room_message list" where
  "history_step (ServerMessage m) h = (if ad_ephemeral (rm_ad m) then h else h @ [m])"
| "history_step (Cleared u name) h = []"
| "history_step f h = h"

definition history_of :: "server_frame list \<Rightarrow> room_message list" where
  "history_of log = fold history_step log []"

text \<open>A frame that the server may announce: a message by a user who joined, under the name they
  joined with, unaltered from an admitted frame; or a clear by such a user.\<close>

fun authentic :: "(uuid \<rightharpoonup> str) \<Rightarrow> server_frame \<Rightarrow> bool" where
  "authentic names (ServerMessage m) \<longleftrightarrow>
     names (rm_from m) = Some (rm_username m) \<and> username_ok (rm_username m) \<and>
     ad_from (rm_ad m) = rm_from m \<and> ad_username (rm_ad m) = rm_username m \<and>
     length (rm_ciphertext m) \<le> MAX_CIPHERTEXT_LEN \<and> 0 < ad_counter (rm_ad m)"
| "authentic names (Cleared u name) \<longleftrightarrow> names u = Some name \<and> username_ok name"
| "authentic names f \<longleftrightarrow> False"

lemma log_counters_simps [simp]:
  "log_counters u [] = []" "log_counters u (log @ log') = log_counters u log @ log_counters u log'"
  "log_counters u (f # log) = frame_counter u f @ log_counters u log"
  by (simp_all add: log_counters_def)

lemma set_log_counters:
  "set (log_counters u log) =
     {ad_counter (rm_ad m) | m. ServerMessage m \<in> set log \<and> rm_from m = u}"
proof (induction log)
  case (Cons f log)
  then show ?case by (cases f) auto
qed simp

lemma history_of_snoc: "history_of (log @ [f]) = history_step f (history_of log)"
  by (simp add: history_of_def)

lemma history_of_simps [simp]: "history_of [] = []" "history_of (log @ []) = history_of log"
  by (simp_all add: history_of_def)

lemma set_history_of: "m \<in> set (history_of log) \<Longrightarrow> ServerMessage m \<in> set log"
proof (induction log rule: rev_induct)
  case (snoc f log)
  then show ?case by (cases f) (auto simp: history_of_snoc split: if_splits)
qed simp

lemma authentic_mono:
  "authentic names f \<Longrightarrow> names \<subseteq>\<^sub>m names' \<Longrightarrow> authentic names' f"
  by (cases f) (auto simp: map_le_def dom_def)

end
