(* ===== verification/MachineInvariant.thy ===== *)
theory MachineInvariant
  imports Interleaving
begin

text \<open>
  The invariant of the room machine and its preservation by every step. The room invariant is
  extended by what links the room to the log: the stored history is the tail of the log's, a
  session's counter covers everything its user announced, an admitted message is newer than
  everything announced, and no outbox has yet received a frame that is about to be sent to it.
\<close>

section \<open>The invariant\<close>

definition log_ok :: "(uuid \<rightharpoonup> str) \<Rightarrow> server_frame list \<Rightarrow> bool" where
  "log_ok names log \<longleftrightarrow>
     (\<forall>f \<in> set log. authentic names f) \<and> (\<forall>u. sorted_wrt (<) (log_counters u log))"

definition sent_ok :: "server_frame list \<Rightarrow> ('tx \<Rightarrow> server_frame list) \<Rightarrow> bool" where
  "sent_ok log sent \<longleftrightarrow>
     (\<forall>tx. set (sent tx) \<subseteq> set log \<and> (\<forall>u. sorted_wrt (<) (log_counters u (sent tx))))"

definition covered ::
  "(uuid \<rightharpoonup> str) \<Rightarrow> server_frame list \<Rightarrow> (uuid \<rightharpoonup> user_session) \<Rightarrow> bool" where
  "covered names log ss \<longleftrightarrow>
     (\<forall>u s. ss u = Some s \<longrightarrow> names u = Some (us_username s) \<and>
        (\<forall>c \<in> set (log_counters u log). c \<le> us_last_counter s))"

text \<open>A frame about to be sent to some outboxes: announced, by the sending user, and newer than
  everything of that user in those outboxes.\<close>

definition unsent ::
  "server_frame list \<Rightarrow> ('tx \<Rightarrow> server_frame list) \<Rightarrow> uuid \<Rightarrow> server_frame \<Rightarrow> 'tx set \<Rightarrow> bool" where
  "unsent log sent u f txs \<longleftrightarrow>
     f \<in> set log \<and> (\<forall>v. v \<noteq> u \<longrightarrow> frame_counter v f = []) \<and>
     (\<forall>tx \<in> txs. \<forall>c \<in> set (frame_counter u f). \<forall>d \<in> set (log_counters u (sent tx)). d < c)"

fun stage_ok ::
  "server_frame list \<Rightarrow> ('tx \<Rightarrow> server_frame list) \<Rightarrow> (uuid \<rightharpoonup> user_session) \<Rightarrow> uuid \<Rightarrow> str
     \<Rightarrow> 'tx stage \<Rightarrow> bool" where
  "stage_ok log sent ss u name (Admitted m) \<longleftrightarrow>
     rm_from m = u \<and> rm_username m = name \<and> ad_from (rm_ad m) = u \<and>
     ad_username (rm_ad m) = name \<and> length (rm_ciphertext m) \<le> MAX_CIPHERTEXT_LEN \<and>
     0 < ad_counter (rm_ad m) \<and>
     (\<forall>c \<in> set (log_counters u log). c < ad_counter (rm_ad m)) \<and>
     (\<forall>s. ss u = Some s \<longrightarrow> ad_counter (rm_ad m) \<le> us_last_counter s)"
| "stage_ok log sent ss u name (Announcing f) \<longleftrightarrow> unsent log sent u f UNIV"
| "stage_ok log sent ss u name (Sending f snapshot dead) \<longleftrightarrow>
     unsent log sent u f (snd ` set snapshot) \<and> distinct (map snd snapshot)"
| "stage_ok log sent ss u name stage \<longleftrightarrow> True"

definition tasks_ok ::
  "(uuid \<rightharpoonup> str) \<Rightarrow> server_frame list \<Rightarrow> ('tx \<Rightarrow> server_frame list) \<Rightarrow> (uuid \<rightharpoonup> user_session)
     \<Rightarrow> (uuid \<rightharpoonup> 'tx task) \<Rightarrow> bool" where
  "tasks_ok names log sent ss tasks \<longleftrightarrow>
     (\<forall>u tk. tasks u = Some tk \<longrightarrow>
        names u = Some (tk_username tk) \<and> username_ok (tk_username tk) \<and>
        stage_ok log sent ss u (tk_username tk) (tk_stage tk))"

definition machine_inv :: "('tx, 'w) machine \<Rightarrow> bool" where
  "machine_inv m \<longleftrightarrow>
     room_inv (mc_now m) (mc_room m) \<and>
     ms_snapshot (rs_messages (mc_room m)) = last_n HISTORY_LEN (history_of (mc_log m)) \<and>
     log_ok (mc_names m) (mc_log m) \<and> sent_ok (mc_log m) (mc_sent m) \<and>
     covered (mc_names m) (mc_log m) (ss_sessions (rs_sessions (mc_room m))) \<and>
     tasks_ok (mc_names m) (mc_log m) (mc_sent m) (ss_sessions (rs_sessions (mc_room m)))
       (mc_tasks m)"

lemma machine_inv_init: "machine_inv (machine_init room_id salt psk w)"
  using room_inv_new [of 0 room_id salt psk]
  by (simp add: machine_inv_def machine_init_def room_state_new_def log_ok_def sent_ok_def
      covered_def tasks_ok_def last_n_def)

lemma machine_inv_task:
  assumes "machine_inv m" and "mc_tasks m u = Some tk"
  shows "mc_names m u = Some (tk_username tk)" and "username_ok (tk_username tk)"
    and "stage_ok (mc_log m) (mc_sent m) (ss_sessions (rs_sessions (mc_room m))) u (tk_username tk)
      (tk_stage tk)"
  using assms by (simp_all add: machine_inv_def tasks_ok_def)

section \<open>What a step must show\<close>

text \<open>The sessions after a step: none new, names kept, counters not lowered.\<close>

definition sessions_from :: "(uuid \<rightharpoonup> user_session) \<Rightarrow> (uuid \<rightharpoonup> user_session) \<Rightarrow> bool" where
  "sessions_from ss ss' \<longleftrightarrow>
     (\<forall>u s'. ss' u = Some s' \<longrightarrow> (\<exists>s. ss u = Some s \<and> us_username s' = us_username s \<and>
        us_last_counter s \<le> us_last_counter s'))"

lemma sessions_fromD:
  "sessions_from ss ss' \<Longrightarrow> ss' u = Some s' \<Longrightarrow>
     \<exists>s. ss u = Some s \<and> us_username s' = us_username s \<and> us_last_counter s \<le> us_last_counter s'"
  by (simp add: sessions_from_def)

lemma sessions_from_refl [simp]: "sessions_from ss ss"
  by (auto simp: sessions_from_def)

lemma sessions_from_block:
  assumes "session_block st st'"
  shows "sessions_from (ss_sessions st) (ss_sessions st')"
  unfolding sessions_from_def
proof (intro allI impI)
  fix u s'
  assume s': "ss_sessions st' u = Some s'"
  with assms obtain s where "ss_sessions st u = Some s"
    unfolding session_block_def by (metis domD domI)
  with assms s' show "\<exists>s. ss_sessions st u = Some s \<and> us_username s' = us_username s \<and>
      us_last_counter s \<le> us_last_counter s'"
    by (auto simp: session_block_def)
qed

lemma sessions_from_evict:
  "sessions_from (ss_sessions (rs_sessions room)) (ss_sessions (rs_sessions (evict_sessions us room)))"
  by (auto simp: sessions_from_def evict_sessions_stores)

lemma sessions_from_unregister:
  "sessions_from (ss_sessions (rs_sessions room)) (ss_sessions (rs_sessions (unregister u room)))"
  by (auto simp: sessions_from_def store_simps)

lemma covered_from:
  "covered names log ss \<Longrightarrow> sessions_from ss ss' \<Longrightarrow> covered names log ss'"
  unfolding covered_def by (auto dest!: sessions_fromD intro: order_trans)

lemma unsent_mono:
  assumes "unsent log sent u f txs" and "set log \<subseteq> set log'"
    and "\<And>tx. tx \<in> txs \<Longrightarrow> set (log_counters u (sent' tx)) \<subseteq> set (log_counters u (sent tx))"
    and "txs' \<subseteq> txs"
  shows "unsent log' sent' u f txs'"
  unfolding unsent_def
proof (intro conjI ballI)
  show "f \<in> set log'" using assms(1,2) by (auto simp: unsent_def)
  show "\<forall>v. v \<noteq> u \<longrightarrow> frame_counter v f = []" using assms(1) by (simp add: unsent_def)
  fix tx c d
  assume tx: "tx \<in> txs'" and c: "c \<in> set (frame_counter u f)"
    and d: "d \<in> set (log_counters u (sent' tx))"
  from tx assms(4) have "tx \<in> txs" by blast
  with d assms(3) have "d \<in> set (log_counters u (sent tx))" by blast
  with \<open>tx \<in> txs\<close> c assms(1) show "d < c" by (simp add: unsent_def)
qed

text \<open>A task's stage stays well-formed when other tasks move.\<close>

lemma stage_ok_mono:
  assumes "stage_ok log sent ss u name stage" and "sessions_from ss ss'" and "set log \<subseteq> set log'"
    and "log_counters u log' = log_counters u log"
    and "\<And>tx. log_counters u (sent' tx) = log_counters u (sent tx)"
  shows "stage_ok log' sent' ss' u name stage"
proof (cases stage)
  case (Admitted m)
  with assms show ?thesis
    by (auto dest!: sessions_fromD intro: order_trans)
next
  case (Announcing f)
  with assms show ?thesis by (auto intro: unsent_mono)
next
  case (Sending f snapshot dead)
  with assms show ?thesis by (auto intro: unsent_mono)
qed simp_all

lemma tasks_ok_sessions:
  "tasks_ok names log sent ss tasks \<Longrightarrow> sessions_from ss ss' \<Longrightarrow> tasks_ok names log sent ss' tasks"
  unfolding tasks_ok_def by (auto intro: stage_ok_mono [where log = log and sent = sent])

lemma tasks_ok_remove: "tasks_ok names log sent ss tasks \<Longrightarrow> tasks_ok names log sent ss (tasks(u := None))"
  by (simp add: tasks_ok_def)

lemma tasks_ok_at_stage:
  "tasks_ok names log sent ss tasks \<Longrightarrow> tasks u = Some tk \<Longrightarrow>
     stage_ok log sent ss u (tk_username tk) stage \<Longrightarrow>
     tasks_ok names log sent ss (at_stage u tk stage tasks)"
  by (simp add: tasks_ok_def at_stage_def)

text \<open>Announcing a frame of one's own, or handing one to an outbox, concerns no other task.\<close>

lemma tasks_ok_own:
  assumes "tasks_ok names log sent ss tasks" and "tasks u = Some tk" and "sessions_from ss ss'"
    and "set log \<subseteq> set log'" and "stage_ok log' sent' ss' u (tk_username tk) stage"
    and "\<And>v. v \<noteq> u \<Longrightarrow> log_counters v log' = log_counters v log"
    and "\<And>v tx. v \<noteq> u \<Longrightarrow> log_counters v (sent' tx) = log_counters v (sent tx)"
  shows "tasks_ok names log' sent' ss' (at_stage u tk stage tasks)"
  unfolding tasks_ok_def
proof (intro allI impI)
  fix v tk'
  assume v: "at_stage u tk stage tasks v = Some tk'"
  show "names v = Some (tk_username tk') \<and> username_ok (tk_username tk') \<and>
      stage_ok log' sent' ss' v (tk_username tk') (tk_stage tk')"
  proof (cases "v = u")
    case True
    with v assms(1,2,5) show ?thesis by (auto simp: tasks_ok_def at_stage_def)
  next
    case False
    with v have "tasks v = Some tk'" by (simp add: at_stage_def)
    with assms(1) have ok: "names v = Some (tk_username tk')" "username_ok (tk_username tk')"
      and stage: "stage_ok log sent ss v (tk_username tk') (tk_stage tk')"
      by (simp_all add: tasks_ok_def)
    from stage have "stage_ok log' sent' ss' v (tk_username tk') (tk_stage tk')"
      by (rule stage_ok_mono) (use assms False in auto)
    with ok show ?thesis by simp
  qed
qed

section \<open>Steps that announce and send nothing\<close>

text \<open>A step by which only the sessions, the connections or the clock move.\<close>

lemma machine_inv_quiet:
  assumes inv: "machine_inv m" and room: "room_inv (mc_now m') (mc_room m')"
    and same: "rs_messages (mc_room m') = rs_messages (mc_room m)" "mc_log m' = mc_log m"
      "mc_sent m' = mc_sent m" "mc_names m' = mc_names m"
    and mono: "sessions_from (ss_sessions (rs_sessions (mc_room m))) (ss_sessions (rs_sessions (mc_room m')))"
    and tasks: "tasks_ok (mc_names m) (mc_log m) (mc_sent m)
      (ss_sessions (rs_sessions (mc_room m'))) (mc_tasks m) \<Longrightarrow>
      tasks_ok (mc_names m) (mc_log m) (mc_sent m)
      (ss_sessions (rs_sessions (mc_room m'))) (mc_tasks m')"
  shows "machine_inv m'"
proof -
  have "tasks_ok (mc_names m) (mc_log m) (mc_sent m)
      (ss_sessions (rs_sessions (mc_room m'))) (mc_tasks m')"
    using inv by (intro tasks tasks_ok_sessions [OF _ mono]) (simp add: machine_inv_def)
  moreover have "covered (mc_names m) (mc_log m) (ss_sessions (rs_sessions (mc_room m')))"
    using inv covered_from [OF _ mono] by (simp add: machine_inv_def)
  ultimately show ?thesis using inv room same by (simp add: machine_inv_def)
qed

lemma log_ok_names:
  assumes "log_ok names log" and "names \<subseteq>\<^sub>m names'"
  shows "log_ok names' log"
  using assms authentic_mono unfolding log_ok_def by blast

lemma log_counters_unknown: "log_ok names log \<Longrightarrow> names u = None \<Longrightarrow> log_counters u log = []"
proof -
  assume log: "log_ok names log" and u: "names u = None"
  have "frame_counter u f = []" if "f \<in> set log" for f
  proof -
    from that log have "authentic names f" by (simp add: log_ok_def)
    with u show ?thesis by (cases f) auto
  qed
  then show ?thesis by (simp add: log_counters_def)
qed

lemma machine_inv_join:
  assumes inv: "machine_inv m" and u: "u \<notin> dom (mc_names m)"
    and tx: "tx \<notin> ran (cm_senders (rs_connections (mc_room m)))" and name: "username_ok name"
    and t: "t \<le> mc_now m"
  shows "machine_inv (m\<lparr>mc_room := register t u name tx (mc_room m),
      mc_tasks := (mc_tasks m)(u \<mapsto> \<lparr>tk_username = name, tk_stage = Joined\<rparr>),
      mc_names := (mc_names m)(u \<mapsto> name)\<rparr>)"
proof -
  let ?ss = "ss_sessions (rs_sessions (mc_room m))"
  let ?names = "(mc_names m)(u \<mapsto> name)"
  have le: "mc_names m \<subseteq>\<^sub>m ?names" using u by (auto simp: map_le_def)
  have log: "log_ok (mc_names m) (mc_log m)" using inv by (simp add: machine_inv_def)
  have none: "log_counters u (mc_log m) = []"
    using log_counters_unknown [OF log] u by blast
  have hist: "history_counters u (ms_snapshot (rs_messages (mc_room m))) = []"
  proof -
    have "rm_from x \<noteq> u" if "x \<in> set (ms_snapshot (rs_messages (mc_room m)))" for x
    proof
      assume "rm_from x = u"
      from that inv have "x \<in> set (history_of (mc_log m))"
        using set_last_n by (fastforce simp: machine_inv_def)
      then have "ServerMessage x \<in> set (mc_log m)" by (rule set_history_of)
      with \<open>rm_from x = u\<close> have "ad_counter (rm_ad x) \<in> set (log_counters u (mc_log m))"
        by (auto simp: set_log_counters)
      with none show False by simp
    qed
    then show ?thesis by (simp add: history_counters_def filter_empty_conv)
  qed
  have room: "room_inv (mc_now m) (register t u name tx (mc_room m))"
    using inv by (intro room_inv_register name hist tx t) (simp add: machine_inv_def)
  have "covered ?names (mc_log m) (?ss(u \<mapsto> fresh_session u (name, t)))"
    using inv none by (auto simp: machine_inv_def covered_def fresh_session_def)
  moreover have "tasks_ok ?names (mc_log m) (mc_sent m) (?ss(u \<mapsto> fresh_session u (name, t)))
      ((mc_tasks m)(u \<mapsto> \<lparr>tk_username = name, tk_stage = Joined\<rparr>))"
    unfolding tasks_ok_def
  proof (intro allI impI)
    fix v tk
    assume v: "((mc_tasks m)(u \<mapsto> \<lparr>tk_username = name, tk_stage = Joined\<rparr>)) v = Some tk"
    let ?ok = "\<lambda>ss. stage_ok (mc_log m) (mc_sent m) ss v (tk_username tk) (tk_stage tk)"
    show "?names v = Some (tk_username tk) \<and> username_ok (tk_username tk) \<and>
        ?ok (?ss(u \<mapsto> fresh_session u (name, t)))"
    proof (cases "v = u")
      case True
      with v name show ?thesis by auto
    next
      case False
      with v inv have "mc_names m v = Some (tk_username tk)" "username_ok (tk_username tk)" "?ok ?ss"
        by (auto simp: machine_inv_def tasks_ok_def)
      moreover from this have "?ok (?ss(u \<mapsto> fresh_session u (name, t)))"
        using False by (cases "tk_stage tk") simp_all
      ultimately show ?thesis using False by simp
    qed
  qed
  ultimately show ?thesis
    using inv room log_ok_names [OF log le] by (simp add: machine_inv_def store_simps)
qed

section \<open>Blocks\<close>

lemma block_quiet:
  assumes inv: "machine_inv m" and tk: "mc_tasks m u = Some tk"
    and room: "room_inv (mc_now m) room" "rs_messages room = rs_messages (mc_room m)"
    and mono: "sessions_from (ss_sessions (rs_sessions (mc_room m))) (ss_sessions (rs_sessions room))"
    and stage: "stage_ok (mc_log m) (mc_sent m) (ss_sessions (rs_sessions room)) u (tk_username tk) stage"
  shows "machine_inv (m\<lparr>mc_room := room, mc_chan := w, mc_tasks := at_stage u tk stage (mc_tasks m)\<rparr>)"
  by (rule machine_inv_quiet [OF inv])
    (use room mono stage tk in \<open>simp_all add: tasks_ok_at_stage\<close>)

text \<open>The first block: the guards, the replay counter, the quota or the cooldown.\<close>

lemma handling_block:
  assumes inv: "room_inv now room"
    and room': "task_block ts now order u name (Handling msg, room, w) = (stage, room', w')"
  obtains st where "room' = room\<lparr>rs_sessions := st\<rparr>" "w' = w" "session_block (rs_sessions room) st"
    "ss_inv now st"
    "stage = Leaving \<or> stage = ClearAdmitted \<or>
     (\<exists>m. stage = Admitted m \<and> rm_from m = u \<and> rm_username m = name \<and> ad_from (rm_ad m) = u \<and>
        ad_username (rm_ad m) = name \<and> length (rm_ciphertext m) \<le> MAX_CIPHERTEXT_LEN \<and>
        session_counter (rs_sessions room) u < ad_counter (rm_ad m) \<and>
        session_counter st u = ad_counter (rm_ad m) \<and> has_session (rs_sessions room) u)"
proof -
  have ssinv: "ss_inv now (rs_sessions room)" using inv by (simp add: room_inv_def sessions_ok_def)
  show thesis
  proof (cases msg)
    case (ClientMessage ad ct)
    obtain ok1 s1 where a: "try_advance_counter u (ad_counter ad) (rs_sessions room) = (ok1, s1)"
      by (cases "try_advance_counter u (ad_counter ad) (rs_sessions room)")
    obtain ok2 s2 where q: "try_consume_message_quota now u s1 = (ok2, s2)"
      by (cases "try_consume_message_quota now u s1")
    have 1: "session_block (rs_sessions room) s1" "ss_inv now s1"
      using session_block_advance [of "rs_sessions room" u "ad_counter ad"]
        ss_inv_advance [OF ssinv, of u "ad_counter ad"] a by simp_all
    then have 2: "session_block (rs_sessions room) s2" "ss_inv now s2"
      using session_block_quota [of s1 now u] ss_inv_quota [of now s1 u] q
      by (auto intro: session_block_trans)
    have counter: "session_counter s2 u = ad_counter ad" if ok1
      using that q a session_counter_ops(2) [of now u s1 u]
        replay.high_accept [of u "ad_counter ad" "rs_sessions room" u] by simp
    consider (guard) "ad_from ad \<noteq> u \<or> ad_username ad \<noteq> name \<or> length ct > MAX_CIPHERTEXT_LEN"
      | (replayed) "ad_from ad = u" "ad_username ad = name" "length ct \<le> MAX_CIPHERTEXT_LEN" "\<not> ok1"
      | (rest) "ad_from ad = u" "ad_username ad = name" "length ct \<le> MAX_CIPHERTEXT_LEN" "ok1"
      by linarith
    then show thesis
    proof cases
      case guard
      then show thesis
        using that [of "rs_sessions room"] room' ClientMessage ssinv session_block_refl
        by (auto split: if_splits)
    next
      case replayed
      then show thesis using that [of s1] room' ClientMessage a 1 by simp
    next
      case rest
      have "session_counter (rs_sessions room) u < ad_counter ad" "has_session (rs_sessions room) u"
        using advance_True [of u "ad_counter ad" "rs_sessions room" s1] a rest by auto
      with rest show thesis
        using that [of s2] room' ClientMessage a q 2 counter by (cases ok2) auto
    qed
  next
    case Clear
    obtain ok s1 where c: "try_consume_clear now u (rs_sessions room) = (ok, s1)"
      by (cases "try_consume_clear now u (rs_sessions room)")
    then have "session_block (rs_sessions room) s1" "ss_inv now s1"
      using session_block_clear [of "rs_sessions room" now u] ss_inv_clear [OF ssinv, of u] by simp_all
    then show thesis using that [of s1] room' Clear c by (cases ok) auto
  qed (use that [of "rs_sessions room"] room' ssinv session_block_refl in auto)
qed

lemma handling_step:
  assumes inv: "machine_inv m" and tk: "mc_tasks m u = Some tk" "tk_stage tk = Handling msg"
    and step: "task_block ts (mc_now m) order u (tk_username tk) (tk_stage tk, mc_room m, mc_chan m) =
      (stage, room, w)"
  shows "machine_inv (m\<lparr>mc_room := room, mc_chan := w, mc_tasks := at_stage u tk stage (mc_tasks m)\<rparr>)"
proof -
  have rinv: "room_inv (mc_now m) (mc_room m)" using inv by (simp add: machine_inv_def)
  from step tk(2) have step': "task_block ts (mc_now m) order u (tk_username tk)
    (Handling msg, mc_room m, mc_chan m) = (stage, room, w)" by simp
  obtain st where st: "room = (mc_room m)\<lparr>rs_sessions := st\<rparr>" "w = mc_chan m"
    "session_block (rs_sessions (mc_room m)) st" "ss_inv (mc_now m) st"
    "stage = Leaving \<or> stage = ClearAdmitted \<or>
     (\<exists>x. stage = Admitted x \<and> rm_from x = u \<and> rm_username x = tk_username tk \<and>
        ad_from (rm_ad x) = u \<and> ad_username (rm_ad x) = tk_username tk \<and>
        length (rm_ciphertext x) \<le> MAX_CIPHERTEXT_LEN \<and>
        session_counter (rs_sessions (mc_room m)) u < ad_counter (rm_ad x) \<and>
        session_counter st u = ad_counter (rm_ad x) \<and> has_session (rs_sessions (mc_room m)) u)"
    by (rule handling_block [OF rinv step'])
  have log: "c \<le> session_counter (rs_sessions (mc_room m)) u"
    if "has_session (rs_sessions (mc_room m)) u" "c \<in> set (log_counters u (mc_log m))" for c
    using that inv by (auto simp: machine_inv_def covered_def has_session_def session_counter_def)
  have "stage_ok (mc_log m) (mc_sent m) (ss_sessions st) u (tk_username tk) stage"
    using st(5)
  proof (elim disjE exE conjE)
    fix x
    assume x: "stage = Admitted x" "rm_from x = u" "rm_username x = tk_username tk"
      "ad_from (rm_ad x) = u" "ad_username (rm_ad x) = tk_username tk"
      "length (rm_ciphertext x) \<le> MAX_CIPHERTEXT_LEN"
      "session_counter (rs_sessions (mc_room m)) u < ad_counter (rm_ad x)"
      "session_counter st u = ad_counter (rm_ad x)" "has_session (rs_sessions (mc_room m)) u"
    have "c < ad_counter (rm_ad x)" if "c \<in> set (log_counters u (mc_log m))" for c
      using log [OF x(9) that] x(7) by (rule le_less_trans)
    moreover have "0 < ad_counter (rm_ad x)"
      using x(7) word_coorder.not_eq_extremum [of "ad_counter (rm_ad x)"] by fastforce
    ultimately show ?thesis using x by (auto simp: session_counter_def)
  qed simp_all
  then show ?thesis
    using room_inv_session_block [OF rinv st(3,4)] st(1) sessions_from_block [OF st(3)]
    by (intro block_quiet [OF inv tk(1)]) simp_all
qed

text \<open>The second block: an admitted message enters the history, unless it is ephemeral.\<close>

lemma history_counters_log:
  assumes "machine_inv m"
  shows "set (history_counters u (ms_snapshot (rs_messages (mc_room m))))
    \<subseteq> set (log_counters u (mc_log m))"
proof
  fix c
  assume "c \<in> set (history_counters u (ms_snapshot (rs_messages (mc_room m))))"
  then obtain x where x: "x \<in> set (ms_snapshot (rs_messages (mc_room m)))" "rm_from x = u"
    "c = ad_counter (rm_ad x)"
    by (auto simp: history_counters_def)
  from x(1) assms have "x \<in> set (history_of (mc_log m))"
    using set_last_n by (fastforce simp: machine_inv_def)
  with x(2,3) show "c \<in> set (log_counters u (mc_log m))"
    by (auto simp: set_log_counters dest: set_history_of)
qed

lemma sent_counters_log:
  "sent_ok log sent \<Longrightarrow> set (log_counters u (sent tx)) \<subseteq> set (log_counters u log)"
  unfolding sent_ok_def by (auto simp: set_log_counters)

lemma history_append:
  assumes "ms_snapshot st = last_n HISTORY_LEN (history_of log)"
  shows "ms_snapshot (if ad_ephemeral (rm_ad x) then st else ms_push x st) =
    last_n HISTORY_LEN (history_of (log @ [ServerMessage x]))"
proof (cases "ad_ephemeral (rm_ad x)")
  case True
  with assms show ?thesis by (simp add: history_of_snoc)
next
  case False
  have "length (ms_snapshot st) \<le> HISTORY_LEN" by (simp add: assms length_last_n)
  then have "ms_snapshot (ms_push x st) = last_n HISTORY_LEN (ms_snapshot st @ [x])"
    by (rule history.items_push_last_n)
  with False assms show ?thesis by (simp add: history_of_snoc last_n_last_n_append)
qed

lemma admitted_step:
  fixes m :: "('tx, 'w) machine"
  assumes inv: "machine_inv m" and tk: "mc_tasks m u = Some tk" "tk_stage tk = Admitted x"
    and room: "room = (if ad_ephemeral (rm_ad x) then mc_room m
      else (mc_room m)\<lparr>rs_messages := ms_push x (rs_messages (mc_room m))\<rparr>)"
  shows "machine_inv (m\<lparr>mc_room := room, mc_chan := w,
    mc_tasks := at_stage u tk (Announcing (ServerMessage x)) (mc_tasks m),
    mc_log := mc_log m @ [ServerMessage x]\<rparr>)"
proof -
  let ?log = "mc_log m @ [ServerMessage x]"
  let ?ss = "ss_sessions (rs_sessions (mc_room m))"
  note task = machine_inv_task [OF inv tk(1)]
  from task tk(2) have x: "rm_from x = u" "rm_username x = tk_username tk" "ad_from (rm_ad x) = u"
    "ad_username (rm_ad x) = tk_username tk" "length (rm_ciphertext x) \<le> MAX_CIPHERTEXT_LEN"
    "0 < ad_counter (rm_ad x)"
    and new: "\<And>c. c \<in> set (log_counters u (mc_log m)) \<Longrightarrow> c < ad_counter (rm_ad x)"
    and cov: "\<And>s. ?ss u = Some s \<Longrightarrow> ad_counter (rm_ad x) \<le> us_last_counter s"
    by simp_all
  note name = task(1,2)
  have rinv: "room_inv (mc_now m) (mc_room m)" using inv by (simp add: machine_inv_def)
  have rinv': "room_inv (mc_now m) room"
  proof (cases "ad_ephemeral (rm_ad x)")
    case False
    with x name have "message_ok x" by (simp add: message_ok_def)
    with False rinv show ?thesis
      using room_inv_push [OF rinv, of x] new cov x(1) history_counters_log [OF inv, of u]
      by (auto simp: room)
  qed (simp add: room rinv)
  have sess: "rs_sessions room = rs_sessions (mc_room m)" by (simp add: room)
  have hist: "ms_snapshot (rs_messages room) = last_n HISTORY_LEN (history_of ?log)"
    using history_append [of "rs_messages (mc_room m)" "mc_log m" x] inv
    by (simp add: machine_inv_def room split: if_splits)
  have log: "log_ok (mc_names m) ?log"
    using inv x name new by (auto simp: machine_inv_def log_ok_def sorted_wrt_append)
  have sent: "sent_ok ?log (mc_sent m)"
    using inv by (auto simp: machine_inv_def sent_ok_def)
  have "covered (mc_names m) ?log ?ss"
    using inv cov x(1) by (auto simp: machine_inv_def covered_def)
  moreover have "tasks_ok (mc_names m) ?log (mc_sent m) ?ss
      (at_stage u tk (Announcing (ServerMessage x)) (mc_tasks m))"
  proof (rule tasks_ok_own)
    show "tasks_ok (mc_names m) (mc_log m) (mc_sent m) ?ss (mc_tasks m)"
      using inv by (simp add: machine_inv_def)
    have "d < ad_counter (rm_ad x)" if "d \<in> set (log_counters u (mc_sent m tx))" for d tx
      using that new sent_counters_log [of "mc_log m" "mc_sent m" u tx] inv
      by (auto simp: machine_inv_def)
    with x show "stage_ok ?log (mc_sent m) ?ss u (tk_username tk) (Announcing (ServerMessage x))"
      by (auto simp: unsent_def)
  qed (use tk x in auto)
  ultimately show ?thesis
    using rinv' sess hist log sent by (simp add: machine_inv_def)
qed

lemma clear_step:
  assumes inv: "machine_inv m" and tk: "mc_tasks m u = Some tk"
  shows "machine_inv (m\<lparr>mc_room := (mc_room m)\<lparr>rs_messages := ms_clear (rs_messages (mc_room m))\<rparr>,
    mc_chan := w, mc_tasks := at_stage u tk (Announcing (Cleared u (tk_username tk))) (mc_tasks m),
    mc_log := mc_log m @ [Cleared u (tk_username tk)]\<rparr>)"
proof -
  let ?f = "Cleared u (tk_username tk)"
  let ?log = "mc_log m @ [?f]"
  let ?ss = "ss_sessions (rs_sessions (mc_room m))"
  note name = machine_inv_task(1,2) [OF inv tk]
  have "tasks_ok (mc_names m) ?log (mc_sent m) ?ss (at_stage u tk (Announcing ?f) (mc_tasks m))"
  proof (rule tasks_ok_own)
    show "tasks_ok (mc_names m) (mc_log m) (mc_sent m) ?ss (mc_tasks m)"
      using inv by (simp add: machine_inv_def)
  qed (use tk in \<open>auto simp: unsent_def\<close>)
  moreover have "sent_ok ?log (mc_sent m)"
    using inv by (auto simp: machine_inv_def sent_ok_def)
  ultimately show ?thesis
    using inv name room_inv_ms_clear [of "mc_now m" "mc_room m"]
    by (simp add: machine_inv_def log_ok_def covered_def history_of_snoc last_n_def)
qed

text \<open>The blocks of the broadcast: the snapshot, one outbox at a time, the eviction.\<close>

lemma announcing_step:
  assumes inv: "machine_inv m" and tk: "mc_tasks m u = Some tk" "tk_stage tk = Announcing f"
    and order: "iteration_order (cm_senders (rs_connections (mc_room m))) order"
  shows "machine_inv (m\<lparr>mc_tasks := at_stage u tk
    (Sending f (cm_snapshot order (rs_connections (mc_room m))) []) (mc_tasks m)\<rparr>)"
proof -
  let ?snap = "cm_snapshot order (rs_connections (mc_room m))"
  have "distinct_channels (rs_connections (mc_room m))"
    using inv by (simp add: machine_inv_def room_inv_def)
  then have "distinct (map snd ?snap)"
    using order by (intro distinct_snd_entries) (simp_all add: iteration_order_def)
  moreover have "unsent (mc_log m) (mc_sent m) u f (snd ` set ?snap)"
    using machine_inv_task(3) [OF inv tk(1)] tk(2) by (auto intro: unsent_mono)
  ultimately have "stage_ok (mc_log m) (mc_sent m) (ss_sessions (rs_sessions (mc_room m))) u
      (tk_username tk) (Sending f ?snap [])"
    by simp
  with inv tk show ?thesis by (simp add: machine_inv_def tasks_ok_at_stage)
qed

lemma sent_okD:
  assumes "sent_ok log sent"
  shows "f \<in> set (sent tx) \<Longrightarrow> f \<in> set log" and "sorted_wrt (<) (log_counters u (sent tx))"
  using assms unfolding sent_ok_def by blast+

lemma sending_step:
  assumes inv: "machine_inv m" and tk: "mc_tasks m u = Some tk"
    "tk_stage tk = Sending f ((v, tx) # snapshot) dead"
    and sent: "sent = (mc_sent m)(tx := mc_sent m tx @ [f]) \<or> sent = mc_sent m"
  shows "machine_inv (m\<lparr>mc_chan := w, mc_tasks := at_stage u tk (Sending f snapshot dead') (mc_tasks m),
    mc_sent := sent\<rparr>)"
proof -
  let ?ss = "ss_sessions (rs_sessions (mc_room m))"
  from machine_inv_task(3) [OF inv tk(1)] tk(2)
  have un: "unsent (mc_log m) (mc_sent m) u f (insert tx (snd ` set snapshot))"
    and d: "tx \<notin> snd ` set snapshot" "distinct (map snd snapshot)"
    by (auto simp: image_iff)
  have sok: "sent_ok (mc_log m) (mc_sent m)" using inv by (simp add: machine_inv_def)
  have other: "log_counters v (sent tx') = log_counters v (mc_sent m tx')" if "v \<noteq> u" for v tx'
    using sent un that by (auto simp: unsent_def)
  have "sent_ok (mc_log m) sent"
    unfolding sent_ok_def
  proof (intro allI conjI)
    fix tx' v
    show "set (sent tx') \<subseteq> set (mc_log m)"
      using sent sent_okD(1) [OF sok] un by (auto simp: unsent_def split: if_splits)
    show "sorted_wrt (<) (log_counters v (sent tx'))"
    proof (cases "v = u \<and> tx' = tx \<and> sent \<noteq> mc_sent m")
      case True
      have "sorted_wrt (<) (log_counters u (mc_sent m tx) @ frame_counter u f)"
        using sok un by (cases f) (auto simp: sent_ok_def unsent_def sorted_wrt_append)
      with True sent show ?thesis by auto
    next
      case False
      then have "log_counters v (sent tx') = log_counters v (mc_sent m tx')"
        using other [of v tx'] sent by (cases "v = u") auto
      with sok show ?thesis by (simp add: sent_ok_def)
    qed
  qed
  moreover have "tasks_ok (mc_names m) (mc_log m) sent ?ss
      (at_stage u tk (Sending f snapshot dead') (mc_tasks m))"
  proof (rule tasks_ok_own)
    show "tasks_ok (mc_names m) (mc_log m) (mc_sent m) ?ss (mc_tasks m)"
      using inv by (simp add: machine_inv_def)
    have "unsent (mc_log m) (mc_sent m) u f (snd ` set snapshot)"
      by (rule unsent_mono [OF un]) auto
    moreover have "sent tx' = mc_sent m tx'" if "tx' \<in> snd ` set snapshot" for tx'
    proof -
      from that d(1) have "tx' \<noteq> tx" by blast
      with sent show ?thesis by auto
    qed
    ultimately have "unsent (mc_log m) sent u f (snd ` set snapshot)"
      by (simp add: unsent_def)
    with d show "stage_ok (mc_log m) sent ?ss u (tk_username tk) (Sending f snapshot dead')"
      by simp
  qed (use tk other in auto)
  ultimately show ?thesis using inv by (simp add: machine_inv_def)
qed

lemma machine_inv_block:
  assumes inv: "machine_inv m" and tk: "mc_tasks m u = Some tk"
    and order: "iteration_order (cm_senders (rs_connections (mc_room m))) order"
    and step: "task_block ts (mc_now m) order u (tk_username tk) (tk_stage tk, mc_room m, mc_chan m) =
      (stage, room, w)"
  shows "machine_inv (m\<lparr>mc_room := room, mc_chan := w,
      mc_tasks := at_stage u tk stage (mc_tasks m),
      mc_log := mc_log m @ announced u (tk_username tk) (tk_stage tk),
      mc_sent := delivered ts (tk_stage tk) (mc_chan m) (mc_sent m)\<rparr>)"
proof (cases "tk_stage tk")
  case (Handling msg)
  with handling_step [OF inv tk Handling step] show ?thesis by simp
next
  case (Admitted x)
  with step admitted_step [OF inv tk Admitted, of room w] show ?thesis by auto
next
  case ClearAdmitted
  with step clear_step [OF inv tk, of w] show ?thesis by auto
next
  case (Announcing f)
  with step announcing_step [OF inv tk Announcing order] show ?thesis by auto
next
  case (Sending f snapshot dead)
  show ?thesis
  proof (cases snapshot)
    case Nil
    with Sending step inv tk show ?thesis
      by (auto simp: machine_inv_def tasks_ok_at_stage)
  next
    case (Cons y snapshot')
    obtain v tx where y: "y = (v, tx)" by (cases y)
    with Sending Cons have "tk_stage tk = Sending f ((v, tx) # snapshot') dead" by simp
    note step' = sending_step [OF inv tk this]
    from step Sending Cons y obtain dead' where "stage = Sending f snapshot' dead'" "room = mc_room m"
      by (cases "ts tx f (mc_chan m)"; cases "fst (ts tx f (mc_chan m))") auto
    with step' Sending Cons y show ?thesis by simp
  qed
next
  case (Evicting dead)
  let ?room = "(mc_room m)\<lparr>rs_connections := fold cm_remove dead (rs_connections (mc_room m))\<rparr>"
  have "room_inv (mc_now m) ?room"
    using inv by (intro room_inv_connections) (auto simp: machine_inv_def conns.lookup_removes split: if_splits)
  then have "machine_inv (m\<lparr>mc_room := ?room, mc_chan := w, mc_tasks := at_stage u tk Ready (mc_tasks m)\<rparr>)"
    by (intro block_quiet [OF inv tk]) simp_all
  with Evicting step show ?thesis by auto
qed (use step inv tk in \<open>auto simp: machine_inv_def tasks_ok_at_stage\<close>)

section \<open>Every reachable state\<close>

lemma machine_inv_step:
  assumes "machine_step ts m m'" and inv: "machine_inv m"
  shows "machine_inv m'"
  using assms(1)
proof cases
  case (tick t)
  with inv room_inv_mono [of "mc_now m" "mc_room m" t] show ?thesis by (simp add: machine_inv_def)
next
  case (drain w)
  with inv show ?thesis by (simp add: machine_inv_def)
next
  case (join u tx name t)
  with machine_inv_join [OF inv] show ?thesis by simp
next
  case (welcomed u tk)
  with inv show ?thesis by (simp add: machine_inv_def tasks_ok_at_stage)
next
  case (welcome_failed u tk)
  with inv show ?thesis by (simp add: machine_inv_def tasks_ok_remove)
next
  case (receive u tk f)
  let ?st = "ss_touch (mc_now m) u (rs_sessions (mc_room m))"
  have "room_inv (mc_now m) ((mc_room m)\<lparr>rs_sessions := ?st\<rparr>)"
    using inv ss_inv_touch
    by (intro room_inv_session_block [OF _ session_block_touch])
      (auto simp: machine_inv_def room_inv_def sessions_ok_def)
  then show ?thesis
    using receive sessions_from_block [OF session_block_touch]
    by (intro machine_inv_quiet [OF inv]) (simp_all add: tasks_ok_at_stage)
next
  case (block u tk order stage room w)
  with machine_inv_block [OF inv] show ?thesis by simp
next
  case (stop u tk)
  with inv show ?thesis by (simp add: machine_inv_def tasks_ok_at_stage)
next
  case (leave u tk)
  then show ?thesis
    using inv room_inv_unregister sessions_from_unregister
    by (intro machine_inv_quiet [OF inv])
      (auto simp: machine_inv_def store_simps intro: tasks_ok_remove)
next
  case (sweep_read order)
  with inv show ?thesis by (simp add: machine_inv_def)
next
  case sweep_evict
  then show ?thesis
    using inv room_inv_evict sessions_from_evict
    by (intro machine_inv_quiet [OF inv]) (auto simp: machine_inv_def evict_sessions_stores)
qed

lemma reachable_machine_inv:
  "reachable ts (machine_init room_id salt psk w) m \<Longrightarrow> machine_inv m"
  by (induction rule: reachable.induct) (auto intro: machine_inv_init machine_inv_step)

end
