(* ===== verification/Connection.thy ===== *)
theory Connection
  imports RoomInvariant
begin

text \<open>
  \<^verbatim>\<open>handle_connection\<close> and \<^verbatim>\<open>pump\<close> of \<^verbatim>\<open>src/server/mod.rs\<close>: the connection cap, the unauthenticated
  phases (room selection, plaintext hello, Noise handshake, encrypted hello), joining the room,
  the select loop and the cleanup. The phases before authentication are timed: each yields how long
  it took. What a connection cannot control is an argument: how long its reads and sends take (and in
  which state an elapsed timeout leaves the stream), the random draws, the fresh user id, the clock,
  the order in which the select loop's branches become ready, and what other tasks do to the room in
  between.
\<close>

section \<open>The surroundings of a connection\<close>

record ('h, 't, 's, 'tx, 'w) server_env =
  se_noise :: "('h, 't) noise_ops"
  se_stream :: "'s stream_ops"
  se_to_vec :: "server_frame \<Rightarrow> bytes option"
  se_from_bytes :: "bytes \<Rightarrow> client_frame option"
  se_channel :: "'w \<Rightarrow> 'tx \<times> 'w"
  se_try_send :: "('tx, 'w) sender"
  se_recv :: "'tx \<Rightarrow> 'w \<Rightarrow> server_frame option \<times> 'w"

text \<open>How long a future takes until it is ready, \<open>None\<close> if it never is, and where it leaves its state if it is
  dropped before.\<close>

record 's waiting =
  wt_takes :: "duration option"
  wt_dropped :: 's

record ('t, 's, 'tx, 'w) conn_oracle =
  co_select :: "'s waiting"
  co_refusal_send :: "duration option"
  co_fake_salt :: "bytes option"
  co_fake_psk :: "bytes option"
  co_hello_send :: "duration option"
  co_handshake :: "'s waiting"
  co_hello :: "('s \<times> 't) waiting"
  co_user_id :: uuid
  co_now :: instant
  co_before_join :: "'tx room_state \<times> 'w \<Rightarrow> 'tx room_state \<times> 'w"
  co_before_history :: "'tx room_state \<times> 'w \<Rightarrow> 'tx room_state \<times> 'w"

definition HANDSHAKE_TIMEOUT :: duration where "HANDSHAKE_TIMEOUT = from_secs 5"

section \<open>Code that takes time\<close>

text \<open>How long something took, and its value; after \<open>None\<close>, which is for ever, nothing is reached. Only what
  awaits the peer takes time.\<close>

type_synonym 'a timed = "duration option \<times> 'a"

definition takes :: "duration option \<Rightarrow> 'a \<Rightarrow> 'a timed" where
  "takes d x = (d, x)"

definition at_once :: "'a \<Rightarrow> 'a timed" where
  "at_once x = (Some 0, x)"

definition in_total :: "duration option \<Rightarrow> duration option \<Rightarrow> duration option" where
  "in_total d e = (case (d, e) of (Some d, Some e) \<Rightarrow> Some (d + e) | _ \<Rightarrow> None)"

definition followed_by :: "'a timed \<Rightarrow> ('a \<Rightarrow> 'b timed) \<Rightarrow> 'b timed" where
  "followed_by m f = (in_total (fst m) (fst (f (snd m))), snd (f (snd m)))"

definition within :: "duration \<Rightarrow> duration option \<Rightarrow> bool" where
  "within limit d = (case d of None \<Rightarrow> False | Some d \<Rightarrow> d \<le> limit)"

text \<open>\<^verbatim>\<open>tokio::time::timeout\<close>: a future that is ready within the limit yields its value; otherwise it is
  dropped at the limit, which leaves its state somewhere on the way.\<close>

definition timeout :: "duration \<Rightarrow> 's \<Rightarrow> ('a \<times> 's) timed \<Rightarrow> ('a option \<times> 's) timed" where
  "timeout limit dropped fut =
     (case fut of (d, a, s) \<Rightarrow>
        if within limit d then (d, Some a, s) else (Some limit, None, dropped))"

lemma timed_simps [simp]:
  "fst (takes d x) = d" "snd (takes d x) = x" "fst (at_once x) = Some 0" "snd (at_once x) = x"
  "fst (followed_by m f) = in_total (fst m) (fst (f (snd m)))" "snd (followed_by m f) = snd (f (snd m))"
  by (simp_all add: takes_def at_once_def followed_by_def)

lemma within_Some [simp]: "within limit (Some d) \<longleftrightarrow> d \<le> limit"
  by (simp add: within_def)

lemma in_total_0 [simp]: "in_total d (Some 0) = d"
  by (simp add: in_total_def split: option.split)

lemma in_total_within: "within a d \<Longrightarrow> within b e \<Longrightarrow> within (a + b) (in_total d e)"
  by (auto simp: within_def in_total_def split: option.splits)

lemma within_mono: "within a d \<Longrightarrow> a \<le> b \<Longrightarrow> within b d"
  by (auto simp: within_def split: option.splits)

lemma timeout_within: "within limit (fst (timeout limit dropped fut))"
  by (auto simp: timeout_def split: prod.split)

text \<open>What a timeout yields, and when.\<close>

definition in_time :: "'s waiting \<Rightarrow> bool" where
  "in_time w \<longleftrightarrow> within HANDSHAKE_TIMEOUT (wt_takes w)"

definition awaited :: "'s waiting \<Rightarrow> 'a \<times> 's \<Rightarrow> 'a option \<times> 's" where
  "awaited w fut = (if in_time w then (Some (fst fut), snd fut) else (None, wt_dropped w))"

lemma timeout_out [simp]:
  "snd (timeout HANDSHAKE_TIMEOUT (wt_dropped w) (takes (wt_takes w) fut)) = awaited w fut"
  by (auto simp: timeout_def takes_def awaited_def in_time_def split: prod.split)

lemma timeout_limit [simp]:
  "fst (timeout limit dropped (takes (Some limit) fut)) = Some limit"
  by (simp add: timeout_def takes_def split: prod.split)

section \<open>Before authentication\<close>

text \<open>Phase 0a: the room selection. A refusal is answered with an error frame; whether that frame
  could be sent makes no difference.\<close>

definition select_phase ::
  "('h, 't, 's, 'tx, 'w) server_env \<Rightarrow> ('t, 's, 'tx, 'w) conn_oracle \<Rightarrow> 's \<Rightarrow> (str result \<times> 's) timed" where
  "select_phase env orc s =
     followed_by (timeout HANDSHAKE_TIMEOUT (wt_dropped (co_select orc))
       (takes (wt_takes (co_select orc)) (recv_postcard (se_stream env) (se_from_bytes env) s)))
     (\<lambda>r. case r of
        (None, s) \<Rightarrow> at_once (Inl (Protocol ''room select timeout''), s)
      | (Some (Inl e), s) \<Rightarrow> at_once (Inl e, s)
      | (Some (Inr select), s) \<Rightarrow>
          (case select of
             RoomSelect room_name \<Rightarrow>
               if room_name = [] \<or> str_len room_name > MAX_ROOM_ID_LEN
               then takes (co_refusal_send orc) (Inl (Protocol ''invalid room name length''),
                 snd (send_postcard (se_stream env) (se_to_vec env) (ServerError BadFrame) s))
               else at_once (Inr room_name, s)
           | _ \<Rightarrow> at_once (Inl (Protocol ''expected RoomSelect''), s)))"

definition find_room ::
  "('t, 's, 'tx, 'w) conn_oracle \<Rightarrow> 'tx server_hub \<Rightarrow> str \<Rightarrow> 'tx room_state result" where
  "find_room orc hub room_name =
     (case hub_rooms hub room_name of
        Some r \<Rightarrow> Inr r
      | None \<Rightarrow> fake_room room_name (co_fake_salt orc) (co_fake_psk orc))"

text \<open>Phases 0b and 1: the plaintext hello and the handshake.\<close>

definition handshake_phase ::
  "('h, 't, 's, 'tx, 'w) server_env \<Rightarrow> ('t, 's, 'tx, 'w) conn_oracle \<Rightarrow> 'tx room_state \<Rightarrow> 's
     \<Rightarrow> ('t result \<times> 's) timed" where
  "handshake_phase env orc room s =
     followed_by (takes (co_hello_send orc)
       (send_postcard (se_stream env) (se_to_vec env) (ServerHello (rs_room_salt room) PROTOCOL_VERSION) s))
     (\<lambda>r. case r of
        (Inl e, s) \<Rightarrow> at_once (Inl e, s)
      | (Inr _, s) \<Rightarrow>
          let prologue = build_prologue (rs_room_id room) (rs_room_salt room) PROTOCOL_VERSION in
          followed_by (timeout HANDSHAKE_TIMEOUT (wt_dropped (co_handshake orc))
            (takes (wt_takes (co_handshake orc))
              (handshake_responder (se_noise env) (se_stream env) (rs_psk room) prologue s)))
          (\<lambda>r. case r of
             (Some (Inr t), s) \<Rightarrow> at_once (Inr t, s)
           | (Some (Inl e), s) \<Rightarrow> at_once (Inl e, s)
           | (None, s) \<Rightarrow> at_once (Inl (Protocol ''handshake timeout''), s)))"

text \<open>The first encrypted frame: the user name.\<close>

definition refuse_hello ::
  "('h, 't, 's, 'tx, 'w) server_env \<Rightarrow> ('t, 's, 'tx, 'w) conn_oracle \<Rightarrow> string \<Rightarrow> 's \<Rightarrow> 't
     \<Rightarrow> (str result \<times> 's \<times> 't) timed" where
  "refuse_hello env orc reason s t =
     takes (co_refusal_send orc) (Inl (Protocol reason),
       snd (send_encrypted (se_noise env) (se_stream env) (se_to_vec env) (ServerError BadFrame) s t))"

definition hello_phase ::
  "('h, 't, 's, 'tx, 'w) server_env \<Rightarrow> ('t, 's, 'tx, 'w) conn_oracle \<Rightarrow> 's \<Rightarrow> 't
     \<Rightarrow> (str result \<times> 's \<times> 't) timed" where
  "hello_phase env orc s t =
     followed_by (timeout HANDSHAKE_TIMEOUT (wt_dropped (co_hello orc))
       (takes (wt_takes (co_hello orc))
         (recv_encrypted (se_noise env) (se_stream env) (se_from_bytes env) s t)))
     (\<lambda>r. case r of
        (None, s, t) \<Rightarrow> at_once (Inl (Protocol ''hello timeout''), s, t)
      | (Some (Inl e), s, t) \<Rightarrow> at_once (Inl e, s, t)
      | (Some (Inr first), s, t) \<Rightarrow>
          (case first of
             ClientHello username \<Rightarrow>
               if username = [] \<or> str_len username > MAX_USERNAME_LEN \<or> \<not> is_valid_username username
               then refuse_hello env orc ''invalid username'' s t
               else at_once (Inr username, s, t)
           | _ \<Rightarrow> refuse_hello env orc ''expected ClientFrame::Hello'' s t))"

text \<open>All phases, and what they come to.\<close>

definition authenticate_timed ::
  "('h, 't, 's, 'tx, 'w) server_env \<Rightarrow> ('t, 's, 'tx, 'w) conn_oracle \<Rightarrow> 'tx server_hub \<Rightarrow> 's
     \<Rightarrow> (('tx room_state \<times> str \<times> 't) result \<times> 's) timed" where
  "authenticate_timed env orc hub s =
     followed_by (select_phase env orc s) (\<lambda>r. case r of
        (Inl e, s) \<Rightarrow> at_once (Inl e, s)
      | (Inr room_name, s) \<Rightarrow>
     (case find_room orc hub room_name of
        Inl e \<Rightarrow> at_once (Inl e, s)
      | Inr room \<Rightarrow>
     followed_by (handshake_phase env orc room s) (\<lambda>r. case r of
        (Inl e, s) \<Rightarrow> at_once (Inl e, s)
      | (Inr t, s) \<Rightarrow>
     followed_by (hello_phase env orc s t) (\<lambda>r. case r of
        (Inl e, s, t) \<Rightarrow> at_once (Inl e, s)
      | (Inr username, s, t) \<Rightarrow> at_once (Inr (room, username, t), s)))))"

definition authenticate ::
  "('h, 't, 's, 'tx, 'w) server_env \<Rightarrow> ('t, 's, 'tx, 'w) conn_oracle \<Rightarrow> 'tx server_hub \<Rightarrow> 's
     \<Rightarrow> ('tx room_state \<times> str \<times> 't) result \<times> 's" where
  "authenticate env orc hub s = snd (authenticate_timed env orc hub s)"

text \<open>The results of the phases, without their times.\<close>

lemma select_out:
  "snd (select_phase env orc s) =
     (case awaited (co_select orc) (recv_postcard (se_stream env) (se_from_bytes env) s) of
        (None, s) \<Rightarrow> (Inl (Protocol ''room select timeout''), s)
      | (Some (Inl e), s) \<Rightarrow> (Inl e, s)
      | (Some (Inr select), s) \<Rightarrow>
          (case select of
             RoomSelect room_name \<Rightarrow>
               if room_name = [] \<or> str_len room_name > MAX_ROOM_ID_LEN
               then (Inl (Protocol ''invalid room name length''),
                 snd (send_postcard (se_stream env) (se_to_vec env) (ServerError BadFrame) s))
               else (Inr room_name, s)
           | _ \<Rightarrow> (Inl (Protocol ''expected RoomSelect''), s)))"
  by (auto simp: select_phase_def split: prod.split option.split sum.split client_frame.split)

lemma handshake_out:
  "snd (handshake_phase env orc room s) =
     (case send_postcard (se_stream env) (se_to_vec env) (ServerHello (rs_room_salt room) PROTOCOL_VERSION) s of
        (Inl e, s) \<Rightarrow> (Inl e, s)
      | (Inr _, s) \<Rightarrow>
          (case awaited (co_handshake orc) (handshake_responder (se_noise env) (se_stream env) (rs_psk room)
              (build_prologue (rs_room_id room) (rs_room_salt room) PROTOCOL_VERSION) s) of
             (Some r, s) \<Rightarrow> (r, s)
           | (None, s) \<Rightarrow> (Inl (Protocol ''handshake timeout''), s)))"
  by (auto simp: handshake_phase_def Let_def split: prod.split option.split sum.split)

lemma hello_out:
  "snd (hello_phase env orc s t) =
     (case awaited (co_hello orc) (recv_encrypted (se_noise env) (se_stream env) (se_from_bytes env) s t) of
        (None, s, t) \<Rightarrow> (Inl (Protocol ''hello timeout''), s, t)
      | (Some (Inl e), s, t) \<Rightarrow> (Inl e, s, t)
      | (Some (Inr first), s, t) \<Rightarrow>
          (case first of
             ClientHello username \<Rightarrow>
               if username_ok username then (Inr username, s, t)
               else snd (refuse_hello env orc ''invalid username'' s t)
           | _ \<Rightarrow> snd (refuse_hello env orc ''expected ClientFrame::Hello'' s t)))"
  by (auto simp: hello_phase_def username_ok_def split: prod.split option.split sum.split client_frame.split)

lemma authenticate_out:
  "authenticate env orc hub s =
     (case snd (select_phase env orc s) of
        (Inl e, s) \<Rightarrow> (Inl e, s)
      | (Inr room_name, s) \<Rightarrow>
     (case find_room orc hub room_name of
        Inl e \<Rightarrow> (Inl e, s)
      | Inr room \<Rightarrow>
     (case snd (handshake_phase env orc room s) of
        (Inl e, s) \<Rightarrow> (Inl e, s)
      | (Inr t, s) \<Rightarrow>
     (case snd (hello_phase env orc s t) of
        (Inl e, s, t) \<Rightarrow> (Inl e, s)
      | (Inr username, s, t) \<Rightarrow> (Inr (room, username, t), s)))))"
  by (auto simp: authenticate_def authenticate_timed_def split: prod.split sum.split)

lemmas auth_outs = select_out handshake_out hello_out authenticate_out

section \<open>The select loop\<close>

text \<open>Which branch of the loop runs next. \<open>PumpOthers\<close> is another task's doing between two turns.
  \<open>PumpStuck\<close> is a turn whose send never completes, because the peer has stopped reading: the send is
  awaited inside the branch, so that the loop polls nothing else any more.\<close>

datatype ('tx, 'w) pump_event =
    PumpShutdown
  | PumpOutgoing
  | PumpIncoming handler_clock
  | PumpOthers "'tx room_state" 'w
  | PumpStuck

text \<open>\<open>None\<close>: the loop is still waiting when the events end.\<close>

fun pump ::
  "('h, 't, 's, 'tx, 'w) server_env \<Rightarrow> uuid \<Rightarrow> str \<Rightarrow> 'tx \<Rightarrow> ('tx, 'w) pump_event list
     \<Rightarrow> 'tx room_state \<Rightarrow> 's \<Rightarrow> 't \<Rightarrow> 'w \<Rightarrow> unit result option \<times> 'tx room_state \<times> 's \<times> 't \<times> 'w" where
  "pump env user_id username rx [] room s t w = (None, room, s, t, w)"
| "pump env user_id username rx (PumpShutdown # es) room s t w = (Some (Inr ()), room, s, t, w)"
| "pump env user_id username rx (PumpOutgoing # es) room s t w =
     (case se_recv env rx w of
        (Some frame_out, w) \<Rightarrow>
          (case send_encrypted (se_noise env) (se_stream env) (se_to_vec env) frame_out s t of
             (Inl e, s, t) \<Rightarrow> (Some (Inl e), room, s, t, w)
           | (Inr _, s, t) \<Rightarrow> pump env user_id username rx es room s t w)
      | (None, w) \<Rightarrow> (Some (Inr ()), room, s, t, w))"
| "pump env user_id username rx (PumpIncoming clk # es) room s t w =
     (case so_next (se_stream env) s of
        (Frame bytes, s) \<Rightarrow>
          (case transport_open (se_noise env) t bytes of
             (Inl e, t) \<Rightarrow> (Some (Inl e), room, s, t, w)
           | (Inr pt, t) \<Rightarrow>
          (case se_from_bytes env pt of
             None \<Rightarrow> (Some (Inl Postcard), room, s, t, w)
           | Some msg \<Rightarrow>
          (case handle_client_frame (se_try_send env) clk room user_id username msg w of
             (Inl e, room, w) \<Rightarrow> (Some (Inl e), room, s, t, w)
           | (Inr _, room, w) \<Rightarrow> pump env user_id username rx es room s t w)))
      | (ReadError, s) \<Rightarrow> (Some (Inl Io), room, s, t, w)
      | (EndOfStream, s) \<Rightarrow> (Some (Inr ()), room, s, t, w))"
| "pump env user_id username rx (PumpOthers room' w' # es) room s t w =
     pump env user_id username rx es room' s t w'"
| "pump env user_id username rx (PumpStuck # es) room s t w =
     (case se_recv env rx w of
        (Some frame_out, w) \<Rightarrow> (None, room, s, t, w)
      | (None, w) \<Rightarrow> (Some (Inr ()), room, s, t, w))"

section \<open>A connection\<close>

text \<open>From the user id to the cleanup. A failing welcome returns before the cleanup. Other tasks
  may change the room while the client authenticates, and before the history is read.\<close>

definition serve ::
  "('h, 't, 's, 'tx, 'w) server_env \<Rightarrow> ('t, 's, 'tx, 'w) conn_oracle \<Rightarrow> ('tx, 'w) pump_event list
     \<Rightarrow> str \<Rightarrow> 'tx room_state \<Rightarrow> 's \<Rightarrow> 't \<Rightarrow> 'w
     \<Rightarrow> unit result option \<times> 'tx room_state \<times> 's \<times> 't \<times> 'w" where
  "serve env orc events username room s t w =
     (let user_id = co_user_id orc in
      case co_before_join orc (room, w) of (room, w) \<Rightarrow>
      case se_channel env w of (tx, w) \<Rightarrow>
      let room = register (co_now orc) user_id username tx room in
      case co_before_history orc (room, w) of (room, w) \<Rightarrow>
      let history = ms_snapshot (rs_messages room) in
      case send_encrypted (se_noise env) (se_stream env) (se_to_vec env)
          (Welcome user_id history) s t of
        (Inl e, s, t) \<Rightarrow> (Some (Inl e), room, s, t, w)
      | (Inr _, s, t) \<Rightarrow>
          (case pump env user_id username tx events room s t w of
             (None, room, s, t, w) \<Rightarrow> (None, room, s, t, w)
           | (Some result, room, s, t, w) \<Rightarrow> (Some result, unregister user_id room, s, t, w)))"

text \<open>A configured room is the hub's own, shared state; a made-up room belongs to this connection.\<close>

definition hub_update :: "'tx room_state \<Rightarrow> 'tx server_hub \<Rightarrow> 'tx server_hub" where
  "hub_update room hub =
     (if hub_rooms hub (rs_room_id room) = None then hub
      else hub\<lparr>hub_rooms := (hub_rooms hub)(rs_room_id room \<mapsto> room)\<rparr>)"

definition handle_connection ::
  "('h, 't, 's, 'tx, 'w) server_env \<Rightarrow> ('t, 's, 'tx, 'w) conn_oracle \<Rightarrow> ('tx, 'w) pump_event list
     \<Rightarrow> 'tx server_hub \<Rightarrow> 's \<Rightarrow> 'w \<Rightarrow> unit result option \<times> 'tx server_hub \<times> 's \<times> 'w" where
  "handle_connection env orc events hub s w =
     (case try_acquire MAX_ACTIVE_CONNS (hub_active_conns hub) of
        (False, active) \<Rightarrow>
          (Some (Inl (Protocol ''active-connection cap'')), hub\<lparr>hub_active_conns := active\<rparr>, s, w)
      | (True, active) \<Rightarrow>
          let hub = hub\<lparr>hub_active_conns := active\<rparr>;
              release = (\<lambda>hub. hub\<lparr>hub_active_conns := guard_drop (hub_active_conns hub)\<rparr>) in
          (case authenticate env orc hub s of
             (Inl e, s) \<Rightarrow> (Some (Inl e), release hub, s, w)
           | (Inr (room, username, t), s) \<Rightarrow>
               (case serve env orc events username room s t w of
                  (None, room, s, t, w) \<Rightarrow> (None, hub_update room hub, s, w)
                | (Some result, room, s, t, w) \<Rightarrow>
                    (Some result, release (hub_update room hub), s, w))))"

section \<open>Authentication\<close>

text \<open>When a connection authenticates: its reads come in time; it selects an acceptable room, it is sent
  that room's hello, the responder's handshake under that room's key and prologue succeeds on what comes
  next, and what is read through the transport of that handshake is a hello with an acceptable name.\<close>

lemma select_Inr:
  "snd (select_phase env orc s) = (Inr name, s') \<longleftrightarrow>
     in_time (co_select orc) \<and>
     recv_postcard (se_stream env) (se_from_bytes env) s = (Inr (RoomSelect name), s') \<and>
     name \<noteq> [] \<and> str_len name \<le> MAX_ROOM_ID_LEN"
  by (auto simp: select_out awaited_def prod_eq_iff split: prod.splits option.splits sum.splits client_frame.splits)

lemma handshake_Inr:
  "snd (handshake_phase env orc room s) = (Inr t, s') \<longleftrightarrow>
     in_time (co_handshake orc) \<and>
     (\<exists>s1. send_postcard (se_stream env) (se_to_vec env)
         (ServerHello (rs_room_salt room) PROTOCOL_VERSION) s = (Inr (), s1) \<and>
       handshake_responder (se_noise env) (se_stream env) (rs_psk room)
         (build_prologue (rs_room_id room) (rs_room_salt room) PROTOCOL_VERSION) s1 = (Inr t, s'))"
  by (auto simp: handshake_out awaited_def split: prod.splits option.splits sum.splits if_splits)

lemma hello_Inr:
  "snd (hello_phase env orc s t) = (Inr name, s', t') \<longleftrightarrow>
     in_time (co_hello orc) \<and>
     recv_encrypted (se_noise env) (se_stream env) (se_from_bytes env) s t = (Inr (ClientHello name), s', t') \<and>
     username_ok name"
  by (auto simp: hello_out refuse_hello_def awaited_def prod_eq_iff
      split: prod.splits option.splits sum.splits client_frame.splits if_splits)

lemma authenticate_Inr:
  "authenticate env orc hub s = (Inr (room, username, t), s') \<longleftrightarrow>
     (\<exists>name s1 t1 s2. snd (select_phase env orc s) = (Inr name, s1) \<and> find_room orc hub name = Inr room \<and>
       snd (handshake_phase env orc room s1) = (Inr t1, s2) \<and>
       snd (hello_phase env orc s2 t1) = (Inr username, s', t))"
  by (auto simp: authenticate_out split: prod.splits sum.splits)

lemma authenticates:
  "authenticate env orc hub s = (Inr (room, username, t), s') \<longleftrightarrow>
     in_time (co_select orc) \<and> in_time (co_handshake orc) \<and> in_time (co_hello orc) \<and>
     (\<exists>name s0 s1 t1 s2.
       recv_postcard (se_stream env) (se_from_bytes env) s = (Inr (RoomSelect name), s0) \<and>
       name \<noteq> [] \<and> str_len name \<le> MAX_ROOM_ID_LEN \<and> find_room orc hub name = Inr room \<and>
       send_postcard (se_stream env) (se_to_vec env)
         (ServerHello (rs_room_salt room) PROTOCOL_VERSION) s0 = (Inr (), s1) \<and>
       handshake_responder (se_noise env) (se_stream env) (rs_psk room)
         (build_prologue (rs_room_id room) (rs_room_salt room) PROTOCOL_VERSION) s1 = (Inr t1, s2) \<and>
       recv_encrypted (se_noise env) (se_stream env) (se_from_bytes env) s2 t1 =
         (Inr (ClientHello username), s', t) \<and> username_ok username)"
  unfolding authenticate_Inr select_Inr handshake_Inr hello_Inr by blast

text \<open>Up to authentication, only a room's id, salt and key are used.\<close>

definition same_keys :: "'tx room_state \<Rightarrow> 'tx room_state \<Rightarrow> bool" where
  "same_keys r r' \<longleftrightarrow>
     rs_room_id r = rs_room_id r' \<and> rs_room_salt r = rs_room_salt r' \<and> rs_psk r = rs_psk r'"

definition auth_view ::
  "('tx room_state \<times> str \<times> 't) result \<times> 's \<Rightarrow> (str \<times> 't) result \<times> 's" where
  "auth_view out = (and_then (fst out) (\<lambda>(_, username, t). Inr (username, t)), snd out)"

lemma handshake_phase_same_keys:
  "same_keys r r' \<Longrightarrow> handshake_phase env orc r s = handshake_phase env orc r' s"
  unfolding handshake_phase_def same_keys_def by (elim conjE) (simp only:)

lemma authenticate_same_keys:
  assumes "\<And>name. find_room orc hub name = find_room orc hub' name \<or>
    (\<exists>r r'. find_room orc hub name = Inr r \<and> find_room orc hub' name = Inr r' \<and> same_keys r r')"
  shows "auth_view (authenticate env orc hub s) = auth_view (authenticate env orc hub' s)"
proof (cases "snd (select_phase env orc s)")
  case (Pair r1 s1)
  show ?thesis
  proof (cases r1)
    case (Inr name)
    from assms [of name] show ?thesis
    proof (elim disjE exE conjE)
      fix r r'
      assume find: "find_room orc hub name = Inr r" "find_room orc hub' name = Inr r'"
        and same: "same_keys r r'"
      obtain r2 s2 where 2: "snd (handshake_phase env orc r' s1) = (r2, s2)"
        by (cases "snd (handshake_phase env orc r' s1)")
      with handshake_phase_same_keys [OF same, of env orc s1]
      have 3: "snd (handshake_phase env orc r s1) = (r2, s2)" by simp
      show ?thesis
      proof (cases r2)
        case (Inl e)
        with Pair Inr find 2 3 show ?thesis by (simp add: authenticate_out auth_view_def)
      next
        case r2: (Inr t)
        obtain r3 s3 t3 where "snd (hello_phase env orc s2 t) = (r3, s3, t3)"
          by (cases "snd (hello_phase env orc s2 t)")
        with Pair Inr find 2 3 r2 show ?thesis
          by (cases r3) (simp_all add: authenticate_out auth_view_def)
      qed
    qed (use Pair Inr in \<open>simp add: authenticate_out\<close>)
  qed (use Pair in \<open>simp add: authenticate_out auth_view_def\<close>)
qed

end
