(* ===== verification/ConnectionRules.thy ===== *)
theory ConnectionRules
  imports Connection
begin

text \<open>
  What a connection does to the hub: nothing before it has authenticated, its slot of the
  connection counter is given back, its user is gone after the cleanup (and stays when the welcome
  fails), and the select loop keeps the room invariant.
\<close>

section \<open>The hub\<close>

definition hub_keyed :: "'tx server_hub \<Rightarrow> bool" where
  "hub_keyed hub \<longleftrightarrow> (\<forall>n r. hub_rooms hub n = Some r \<longrightarrow> rs_room_id r = n)"

definition hub_inv :: "instant \<Rightarrow> 'tx server_hub \<Rightarrow> bool" where
  "hub_inv now hub \<longleftrightarrow>
     hub_keyed hub \<and> rl_inv now (hub_ratelimit hub) \<and>
     (\<forall>n r. hub_rooms hub n = Some r \<longrightarrow> room_inv now r)"

definition room_table_ok :: "instant \<Rightarrow> (str \<rightharpoonup> 'tx room_state) \<Rightarrow> bool" where
  "room_table_ok now rooms \<longleftrightarrow> (\<forall>n r. rooms n = Some r \<longrightarrow> rs_room_id r = n \<and> room_inv now r)"

lemma room_state_new_simps [simp]:
  "rs_room_id (room_state_new n salt psk) = n" "rs_room_salt (room_state_new n salt psk) = salt"
  "rs_psk (room_state_new n salt psk) = psk"
  by (simp_all add: room_state_new_def)

lemma hub_rooms_from_rooms:
  assumes "hub_rooms_from kdf cfgs draws rooms = Inr rooms'"
  shows "dom rooms' = dom rooms \<union> rc_name ` set cfgs \<and>
    (room_table_ok now rooms \<longrightarrow> room_table_ok now rooms')"
  using assms
proof (induction cfgs arbitrary: draws rooms)
  case (Cons cfg cfgs)
  from Cons.prems obtain salt draws' keys where d: "draws = Some salt # draws'"
    "derive_keys kdf (utf8 (rc_password cfg)) salt = Inr keys"
    by (auto simp: and_then_Inr_iff split: list.splits option.splits)
  define rooms1 where
    "rooms1 = rooms(rc_name cfg \<mapsto> room_state_new (rc_name cfg) salt (dk_psk keys))"
  have "dom rooms1 = insert (rc_name cfg) (dom rooms)" by (simp add: rooms1_def)
  moreover have "room_table_ok now rooms \<longrightarrow> room_table_ok now rooms1"
    by (simp add: rooms1_def room_table_ok_def room_inv_new)
  moreover have "hub_rooms_from kdf cfgs draws' rooms1 = Inr rooms'"
    using Cons.prems d by (simp add: rooms1_def)
  note Cons.IH [OF this]
  ultimately show ?case by simp
qed simp

lemma server_hub_new_inv:
  assumes "server_hub_new kdf cfgs draws = Inr hub"
  shows "hub_inv now hub" and "dom (hub_rooms hub) = rc_name ` set cfgs" and "hub_active_conns hub = 0"
proof -
  from assms have rooms: "hub_rooms_from kdf cfgs draws Map.empty = Inr (hub_rooms hub)"
    and rest: "hub_ratelimit hub = rate_limiter_new RATELIMIT_MAX RATELIMIT_WINDOW"
    and active: "hub_active_conns hub = 0"
    by (auto simp: server_hub_new_def and_then_Inr_iff)
  note table = hub_rooms_from_rooms [OF rooms, of now]
  show "hub_inv now hub"
    using table rest rl_inv_new by (auto simp: hub_inv_def hub_keyed_def room_table_ok_def)
  show "dom (hub_rooms hub) = rc_name ` set cfgs" using table by simp
  show "hub_active_conns hub = 0" by (rule active)
qed

text \<open>A room that was set up from the configuration \<open>cfgs\<close> and the random \<open>draws\<close>: its salt is one of
  the draws and its key belongs to a password configured under its id.\<close>

definition set_up_from :: "kdf_ops \<Rightarrow> room_config list \<Rightarrow> bytes option list \<Rightarrow> 'tx room_state \<Rightarrow> bool" where
  "set_up_from kdf cfgs draws r \<longleftrightarrow>
     Some (rs_room_salt r) \<in> set draws \<and>
     (\<exists>cfg \<in> set cfgs. rc_name cfg = rs_room_id r \<and>
        (\<exists>keys. derive_keys kdf (utf8 (rc_password cfg)) (rs_room_salt r) = Inr keys \<and>
           rs_psk r = dk_psk keys))"

lemma hub_rooms_from_keys:
  assumes "hub_rooms_from kdf cfgs draws rooms = Inr rooms'" and "rooms' n = Some r"
  shows "rooms n = Some r \<or> set_up_from kdf cfgs draws r"
  using assms(1)
proof (induction cfgs arbitrary: draws rooms)
  case Nil
  with assms(2) show ?case by simp
next
  case (Cons cfg cfgs)
  from Cons.prems obtain salt draws' keys where d: "draws = Some salt # draws'"
    "derive_keys kdf (utf8 (rc_password cfg)) salt = Inr keys"
    by (auto simp: and_then_Inr_iff split: list.splits option.splits)
  let ?new = "room_state_new (rc_name cfg) salt (dk_psk keys)"
  from Cons.prems d have "hub_rooms_from kdf cfgs draws' (rooms(rc_name cfg \<mapsto> ?new)) = Inr rooms'"
    by simp
  from Cons.IH [OF this] consider "n = rc_name cfg" "r = ?new" | "rooms n = Some r"
    | "set_up_from kdf cfgs draws' r"
    by (auto split: if_splits)
  then show ?case
  proof cases
    case 1
    with d have "set_up_from kdf (cfg # cfgs) draws r"
      by (simp add: set_up_from_def room_state_new_def)
    then show ?thesis ..
  next
    case 3
    with d have "set_up_from kdf (cfg # cfgs) draws r" by (auto simp: set_up_from_def)
    then show ?thesis ..
  qed simp
qed

lemma server_hub_new_keys:
  "server_hub_new kdf cfgs draws = Inr hub \<Longrightarrow> hub_rooms hub n = Some r \<Longrightarrow>
     set_up_from kdf cfgs draws r"
  using hub_rooms_from_keys [of kdf cfgs draws Map.empty _ n r]
  by (auto simp: server_hub_new_def and_then_Inr_iff)

section \<open>Unknown rooms look like known ones\<close>

lemma unknown_room_view:
  assumes "hub_rooms hub name = None" and "co_fake_salt orc = Some salt" and "co_fake_psk orc = Some psk"
    and room: "rs_room_id room = name" "rs_room_salt room = salt" "rs_psk room = psk"
  shows "auth_view (authenticate env orc hub s) =
    auth_view (authenticate env orc (hub\<lparr>hub_rooms := (hub_rooms hub)(name \<mapsto> room)\<rparr>) s)"
proof (rule authenticate_same_keys)
  fix name'
  show "find_room orc hub name' = find_room orc (hub\<lparr>hub_rooms := (hub_rooms hub)(name \<mapsto> room)\<rparr>) name' \<or>
    (\<exists>r r'. find_room orc hub name' = Inr r \<and>
      find_room orc (hub\<lparr>hub_rooms := (hub_rooms hub)(name \<mapsto> room)\<rparr>) name' = Inr r' \<and> same_keys r r')"
    using assms
    by (cases "name' = name")
      (simp_all add: find_room_def fake_room_def same_keys_def room_state_new_def)
qed

section \<open>The connection slot\<close>

lemma try_acquire_cases:
  "try_acquire n a = (if n \<le> a then (False, a) else (True, a + 1))"
  by (simp add: try_acquire_def Let_def)

lemma hub_update_frame [simp]:
  "hub_active_conns (hub_update room hub) = hub_active_conns hub"
  "hub_ratelimit (hub_update room hub) = hub_ratelimit hub"
  by (simp_all add: hub_update_def)

lemma handle_connection_slot:
  assumes "handle_connection env orc events hub s w = (out, hub', s', w')"
  shows "hub_active_conns hub' = hub_active_conns hub + (if out = None then 1 else 0)"
  using assms
  by (auto simp: handle_connection_def try_acquire_cases guard_drop_def Let_def
      split: if_splits prod.splits sum.splits option.splits)

lemma handle_connection_full:
  "MAX_ACTIVE_CONNS \<le> hub_active_conns hub \<Longrightarrow>
     handle_connection env orc events hub s w =
       (Some (Inl (Protocol ''active-connection cap'')), hub, s, w)"
  by (simp add: handle_connection_def try_acquire_cases)

lemma handle_connection_unauthenticated:
  assumes "authenticate env orc (hub\<lparr>hub_active_conns := hub_active_conns hub + 1\<rparr>) s = (Inl e, s')"
    and "hub_active_conns hub < MAX_ACTIVE_CONNS"
  shows "handle_connection env orc events hub s w = (Some (Inl e), hub, s', w)"
  using assms by (simp add: handle_connection_def try_acquire_cases guard_drop_def not_le [symmetric])

section \<open>The select loop keeps the room invariant\<close>

text \<open>
  Events a connection may see from time \<open>m\<close> to time \<open>now\<close>: its own clocks advance, and other
  tasks leave a room in its invariant, with this user's session, if it still exists, under its name.
\<close>

definition user_named :: "uuid \<Rightarrow> str \<Rightarrow> 'tx room_state \<Rightarrow> bool" where
  "user_named u name room \<longleftrightarrow>
     (\<forall>s. ss_sessions (rs_sessions room) u = Some s \<longrightarrow> us_username s = name)"

inductive pump_events ::
  "str \<Rightarrow> uuid \<Rightarrow> str \<Rightarrow> instant \<Rightarrow> ('tx, 'w) pump_event list \<Rightarrow> instant \<Rightarrow> bool"
  for n :: str and u :: uuid and name :: str where
  no_event: "m \<le> now \<Longrightarrow> pump_events n u name m [] now"
| shutdown: "pump_events n u name m es now \<Longrightarrow> pump_events n u name m (PumpShutdown # es) now"
| outgoing: "pump_events n u name m es now \<Longrightarrow> pump_events n u name m (PumpOutgoing # es) now"
| incoming: "m \<le> hc_touch clk \<Longrightarrow> hc_touch clk \<le> hc_check clk \<Longrightarrow>
    pump_events n u name (hc_check clk) es now \<Longrightarrow>
    pump_events n u name m (PumpIncoming clk # es) now"
| others: "m \<le> t \<Longrightarrow> room_inv t room \<Longrightarrow> user_named u name room \<Longrightarrow> rs_room_id room = n \<Longrightarrow>
    pump_events n u name t es now \<Longrightarrow> pump_events n u name m (PumpOthers room w # es) now"
| stuck: "pump_events n u name m es now \<Longrightarrow> pump_events n u name m (PumpStuck # es) now"

lemma pump_events_le: "pump_events n u name m es now \<Longrightarrow> m \<le> now"
  by (induction rule: pump_events.induct) auto

lemma handle_session_block:
  "session_block (rs_sessions room)
     (rs_sessions (fst (snd (handle_client_frame ts clk room u name msg w))))"
proof (cases rule: handle_cases [of msg clk room u name ts w])
  case (reject e ss)
  then show ?thesis
    by (auto intro: session_block_message session_block_clear_sessions session_blocks
        session_block_trans)
qed (auto simp: frame_simps message_room_def clear_room_def
    intro: session_block_message session_block_clear_sessions)

lemma handle_room_id:
  "rs_room_id (fst (snd (handle_client_frame ts clk room u name msg w))) = rs_room_id room"
  by (cases rule: handle_cases [of msg clk room u name ts w])
    (auto simp: frame_simps message_room_def clear_room_def)

definition conn_room_ok :: "str \<Rightarrow> uuid \<Rightarrow> str \<Rightarrow> instant \<Rightarrow> 'tx room_state \<Rightarrow> bool" where
  "conn_room_ok n u name now room \<longleftrightarrow>
     room_inv now room \<and> user_named u name room \<and> rs_room_id room = n"

lemma conn_room_ok_mono:
  "conn_room_ok n u name m room \<Longrightarrow> m \<le> now \<Longrightarrow> conn_room_ok n u name now room"
  by (auto simp: conn_room_ok_def intro: room_inv_mono)

lemma conn_room_ok_handle:
  assumes "conn_room_ok n u name m room" and "m \<le> hc_touch clk" "hc_touch clk \<le> hc_check clk"
    and "handle_client_frame ts clk room u name msg w = (r, room', w')"
  shows "conn_room_ok n u name (hc_check clk) room'"
proof -
  have "room_inv (hc_check clk) room'"
    using room_inv_handle [of m room clk u name ts msg w] assms
    by (auto simp: conn_room_ok_def user_named_def)
  moreover have "user_named u name room'"
    unfolding user_named_def
  proof (intro allI impI)
    fix s'
    assume s': "ss_sessions (rs_sessions room') u = Some s'"
    have block: "session_block (rs_sessions room) (rs_sessions room')"
      using handle_session_block [of room ts clk u name msg w] assms(4) by simp
    with s' obtain s where "ss_sessions (rs_sessions room) u = Some s"
      unfolding session_block_def by (metis domD domI)
    with block s' assms(1) show "us_username s' = name"
      by (simp add: session_block_def conn_room_ok_def user_named_def)
  qed
  moreover have "rs_room_id room' = n"
    using handle_room_id [of ts clk room u name msg w] assms by (simp add: conn_room_ok_def)
  ultimately show ?thesis by (simp add: conn_room_ok_def)
qed

lemma pump_room_ok:
  assumes "pump_events n u name m es now" and "conn_room_ok n u name m room"
    and "pump env u name rx es room s t w = (r, room', s', t', w')"
  shows "conn_room_ok n u name now room'"
  using assms
proof (induction arbitrary: room s t w rule: pump_events.induct)
  case (no_event m now)
  then show ?case using conn_room_ok_mono by auto
next
  case (shutdown m es now)
  then have "conn_room_ok n u name now room" using conn_room_ok_mono pump_events_le by blast
  with shutdown show ?case by simp
next
  case (outgoing m es now)
  then have "conn_room_ok n u name now room" using conn_room_ok_mono pump_events_le by blast
  with outgoing show ?case by (auto split: prod.splits option.splits sum.splits)
next
  case (incoming m clk es now)
  have now: "conn_room_ok n u name now room"
    using incoming.prems(1) incoming.hyps pump_events_le [OF incoming.hyps(3)]
    by (auto intro: conn_room_ok_mono)
  show ?case
  proof (cases "\<exists>b s1 p t1 msg. so_next (se_stream env) s = (Frame b, s1) \<and>
      transport_open (se_noise env) t b = (Inr p, t1) \<and> se_from_bytes env p = Some msg")
    case True
    then obtain b s1 p t1 msg where steps: "so_next (se_stream env) s = (Frame b, s1)"
      "transport_open (se_noise env) t b = (Inr p, t1)" "se_from_bytes env p = Some msg"
      by blast
    obtain out room1 w1 where h:
      "handle_client_frame (se_try_send env) clk room u name msg w = (out, room1, w1)"
      by (cases "handle_client_frame (se_try_send env) clk room u name msg w")
    have ok: "conn_room_ok n u name (hc_check clk) room1"
      by (rule conn_room_ok_handle [OF incoming.prems(1) incoming.hyps(1,2) h])
    show ?thesis
    proof (cases out)
      case (Inl e)
      with incoming.prems(2) steps h have "room' = room1" by simp
      with ok show ?thesis
        using conn_room_ok_mono pump_events_le [OF incoming.hyps(3)] by blast
    next
      case (Inr x)
      with incoming.prems(2) steps h
      have "pump env u name rx es room1 s1 t1 w1 = (r, room', s', t', w')" by simp
      with incoming.IH [OF ok] show ?thesis by blast
    qed
  next
    case False
    with incoming.prems(2) have "room' = room"
      by (auto split: prod.splits recv_event.splits sum.splits option.splits)
    with now show ?thesis by simp
  qed
next
  case (others m t room w es now)
  then show ?case by (auto simp: conn_room_ok_def)
next
  case (stuck m es now)
  then have "conn_room_ok n u name now room" using conn_room_ok_mono pump_events_le by blast
  with stuck show ?case by (auto split: prod.splits option.splits)
qed

section \<open>Joining and leaving\<close>

text \<open>A connection that got through its welcome leaves no trace of its user; one that fails there
  leaves both entries behind, until the sweeper finds them.\<close>

lemma serve_leaves:
  assumes "serve env orc events name room s t w = (Some r, room', s', t', w')"
    and "co_before_join orc (room, w) = (room1, w1)" and "se_channel env w1 = (tx, w2)"
    and "co_before_history orc (register (co_now orc) (co_user_id orc) name tx room1, w2) = (room2, w3)"
    and "send_encrypted (se_noise env) (se_stream env) (se_to_vec env)
      (Welcome (co_user_id orc) (ms_snapshot (rs_messages room2))) s t = (out, s1, t1)"
  shows "case out of
      Inl e \<Rightarrow> r = Inl e \<and> room' = room2
    | Inr _ \<Rightarrow> ss_sessions (rs_sessions room') (co_user_id orc) = None \<and>
        cm_senders (rs_connections room') (co_user_id orc) = None"
proof (cases out)
  case (Inr u)
  obtain r1 room3 rest where "pump env (co_user_id orc) name tx events room2 s1 t1 w3 = (r1, room3, rest)"
    by (cases "pump env (co_user_id orc) name tx events room2 s1 t1 w3")
  with assms Inr show ?thesis
    by (cases rest; cases r1) (auto simp: serve_def Let_def store_simps)
qed (use assms in \<open>auto simp: serve_def Let_def\<close>)

text \<open>A connection whose outbox was closed (its user was evicted) ends without an error.\<close>

lemma pump_evicted:
  "se_recv env rx w = (None, w') \<Longrightarrow>
     pump env u name rx (PumpOutgoing # es) room s t w = (Some (Inr ()), room, s, t, w')"
  by simp

section \<open>A whole connection keeps the hub's invariant\<close>

text \<open>Other tasks respect the invariant, and nobody reuses the new connection's id and channel.\<close>

definition join_ok ::
  "('h, 't, 's, 'tx, 'w) server_env \<Rightarrow> ('t, 's, 'tx, 'w) conn_oracle \<Rightarrow> str \<Rightarrow> 'tx room_state \<Rightarrow> 'w
     \<Rightarrow> bool" where
  "join_ok env orc name room w \<longleftrightarrow>
     (let (room1, w1) = co_before_join orc (room, w);
          (tx, w2) = se_channel env w1;
          reg = register (co_now orc) (co_user_id orc) name tx room1;
          (room2, w3) = co_before_history orc (reg, w2);
          ok = conn_room_ok (rs_room_id room) (co_user_id orc) name (co_now orc)
      in (room_inv (co_now orc) room \<longrightarrow> room_inv (co_now orc) room1) \<and>
         rs_room_id room1 = rs_room_id room \<and>
         history_counters (co_user_id orc) (ms_snapshot (rs_messages room1)) = [] \<and>
         tx \<notin> ran (cm_senders (rs_connections room1)) \<and> (ok reg \<longrightarrow> ok room2))"

text \<open>The room after the join, and that it is well-formed; the first half of \<open>serve\<close>.\<close>

definition joined_room ::
  "('h, 't, 's, 'tx, 'w) server_env \<Rightarrow> ('t, 's, 'tx, 'w) conn_oracle \<Rightarrow> str \<Rightarrow> 'tx room_state \<Rightarrow> 'w
     \<Rightarrow> 'tx room_state \<times> 'w" where
  "joined_room env orc name room w =
     (let (room1, w1) = co_before_join orc (room, w); (tx, w2) = se_channel env w1
      in co_before_history orc (register (co_now orc) (co_user_id orc) name tx room1, w2))"

text \<open>Between the join and the history, other tasks leave the new user alone. Then the user is in the room
  when the welcome is sent.\<close>

definition spares :: "('t, 's, 'tx, 'w) conn_oracle \<Rightarrow> bool" where
  "spares orc \<longleftrightarrow>
     (\<forall>room w. let room' = fst (co_before_history orc (room, w)); u = co_user_id orc in
        ss_sessions (rs_sessions room') u = ss_sessions (rs_sessions room) u \<and>
        cm_senders (rs_connections room') u = cm_senders (rs_connections room) u)"

lemma joined_room_entry:
  assumes "spares orc"
  shows "ss_sessions (rs_sessions (fst (joined_room env orc name room w))) (co_user_id orc) =
      Some (fresh_session (co_user_id orc) (name, co_now orc))"
    and "cm_senders (rs_connections (fst (joined_room env orc name room w))) (co_user_id orc) =
      Some (fst (se_channel env (snd (co_before_join orc (room, w)))))"
  using assms by (simp_all add: joined_room_def spares_def Let_def split_def store_simps)

lemma joined_room_ok:
  assumes "join_ok env orc name room w" and "room_inv (co_now orc) room" and "username_ok name"
  shows "conn_room_ok (rs_room_id room) (co_user_id orc) name (co_now orc) (fst (joined_room env orc name room w))"
proof -
  let ?u = "co_user_id orc" and ?n = "rs_room_id room"
  obtain room1 w1 where 1: "co_before_join orc (room, w) = (room1, w1)"
    by (cases "co_before_join orc (room, w)")
  obtain tx w2 where 2: "se_channel env w1 = (tx, w2)" by (cases "se_channel env w1")
  let ?reg = "register (co_now orc) ?u name tx room1"
  from assms(1,2) 1 2 have r1: "room_inv (co_now orc) room1" "rs_room_id room1 = ?n"
    "history_counters ?u (ms_snapshot (rs_messages room1)) = []"
    "tx \<notin> ran (cm_senders (rs_connections room1))"
    by (auto simp: join_ok_def Let_def split: prod.splits)
  have "conn_room_ok ?n ?u name (co_now orc) ?reg"
    using room_inv_register [OF r1(1) assms(3) r1(3,4) order_refl] r1(2)
    by (simp add: conn_room_ok_def user_named_def store_simps fresh_session_def register_def)
  with assms(1) 1 2 show ?thesis
    by (auto simp: join_ok_def joined_room_def Let_def split: prod.splits)
qed

lemma serve_alt:
  "serve env orc events name room s t w =
     (case joined_room env orc name room w of (room2, w3) \<Rightarrow>
      case send_encrypted (se_noise env) (se_stream env) (se_to_vec env)
          (Welcome (co_user_id orc) (ms_snapshot (rs_messages room2))) s t of
        (Inl e, s, t) \<Rightarrow> (Some (Inl e), room2, s, t, w3)
      | (Inr _, s, t) \<Rightarrow>
          (case pump env (co_user_id orc) name (fst (se_channel env (snd (co_before_join orc (room, w)))))
              events room2 s t w3 of
             (None, room, s, t, w) \<Rightarrow> (None, room, s, t, w)
           | (Some result, room, s, t, w) \<Rightarrow> (Some result, unregister (co_user_id orc) room, s, t, w)))"
  by (simp add: serve_def joined_room_def Let_def split_def)

lemma serve_room_ok:
  assumes "join_ok env orc name room w" and "room_inv (co_now orc) room" and "username_ok name"
    and "pump_events (rs_room_id room) (co_user_id orc) name (co_now orc) events now"
    and "serve env orc events name room s t w = (r, room', s', t', w')"
  shows "room_inv now room' \<and> rs_room_id room' = rs_room_id room"
proof -
  let ?u = "co_user_id orc" and ?n = "rs_room_id room"
  let ?tx = "fst (se_channel env (snd (co_before_join orc (room, w))))"
  obtain room2 w3 where 1: "joined_room env orc name room w = (room2, w3)"
    by (cases "joined_room env orc name room w")
  with joined_room_ok [OF assms(1,2,3)] have ok2: "conn_room_ok ?n ?u name (co_now orc) room2" by simp
  obtain out s1 t1 where 2: "send_encrypted (se_noise env) (se_stream env) (se_to_vec env)
      (Welcome ?u (ms_snapshot (rs_messages room2))) s t = (out, s1, t1)"
    by (metis surj_pair)
  obtain r3 room3 s3 t3 w4 where 3: "pump env ?u name ?tx events room2 s1 t1 w3 = (r3, room3, s3, t3, w4)"
    by (metis surj_pair)
  have ok3: "conn_room_ok ?n ?u name now room3" by (rule pump_room_ok [OF assms(4) ok2 3])
  have ok2': "conn_room_ok ?n ?u name now room2"
    by (rule conn_room_ok_mono [OF ok2 pump_events_le [OF assms(4)]])
  have "room' \<in> {room2, room3, unregister ?u room3}"
    using assms(5) 1 2 3 by (cases out; cases r3) (auto simp: serve_alt)
  then show ?thesis
    using ok2' ok3 room_inv_unregister [of now room3 ?u]
    by (auto simp: conn_room_ok_def unregister_def)
qed

end
