(* ===== verification/HubMachine.thy ===== *)
theory HubMachine
  imports MachineInvariant ConnectionRules
begin

text \<open>
  The server as a whole: all configured rooms, and the rooms that are made up for unknown names,
  each the transition system of \<open>Interleaving\<close>, over one clock and one set of channels. Two ghost
  fields record for every outbox and every user id the room it was created for. The theory shows
  that each room of the server behaves as if it were alone, and that rooms share no outbox and no
  user.
\<close>

section \<open>The machine\<close>

text \<open>A room is looked up by its name; \<^verbatim>\<open>fake_room\<close> makes a new one, outside the table, for each
  connection that asks for an unknown name.\<close>

datatype room_slot = Configured str | Made_up nat

record ('tx, 'w) hub_machine =
  hm_rooms :: "room_slot \<rightharpoonup> ('tx, 'w) machine"
  hm_chan :: 'w
  hm_now :: instant
  hm_owner :: "'tx \<rightharpoonup> room_slot"
  hm_users :: "uuid \<rightharpoonup> room_slot"

definition machine_of :: "'tx room_state \<Rightarrow> 'w \<Rightarrow> ('tx, 'w) machine" where
  "machine_of room w =
     \<lparr>mc_room = room, mc_chan = w, mc_tasks = Map.empty, mc_sweep = [], mc_now = 0,
      mc_names = Map.empty, mc_log = [], mc_sent = (\<lambda>_. [])\<rparr>"

lemma machine_of_new: "machine_of (room_state_new room_id salt psk) w = machine_init room_id salt psk w"
  by (simp add: machine_of_def machine_init_def)

text \<open>A room sees the server's clock and channels; its own copies of them are not used.\<close>

definition hub_room :: "('tx, 'w) hub_machine \<Rightarrow> room_slot \<Rightarrow> ('tx, 'w) machine option" where
  "hub_room h s = map_option (\<lambda>m. m\<lparr>mc_chan := hm_chan h, mc_now := hm_now h\<rparr>) (hm_rooms h s)"

definition outboxes :: "('tx, 'w) machine \<Rightarrow> 'tx set" where
  "outboxes m = ran (cm_senders (rs_connections (mc_room m)))"

text \<open>Ids and outboxes that a step brings into being are recorded under its room.\<close>

definition claim :: "room_slot \<Rightarrow> 'a set \<Rightarrow> 'a set \<Rightarrow> ('a \<rightharpoonup> room_slot) \<Rightarrow> 'a \<rightharpoonup> room_slot" where
  "claim s before after owner = (\<lambda>x. if x \<in> after - before then Some s else owner x)"

definition put_room ::
  "room_slot \<Rightarrow> ('tx, 'w) machine \<Rightarrow> ('tx, 'w) machine \<Rightarrow> ('tx, 'w) hub_machine
     \<Rightarrow> ('tx, 'w) hub_machine" where
  "put_room s m m' h =
     h\<lparr>hm_rooms := (hm_rooms h)(s \<mapsto> m'), hm_chan := mc_chan m', hm_now := mc_now m',
       hm_owner := claim s (outboxes m) (outboxes m') (hm_owner h),
       hm_users := claim s (dom (mc_names m)) (dom (mc_names m')) (hm_users h)\<rparr>"

text \<open>
  \<^verbatim>\<open>Uuid::new_v4\<close> and \<^verbatim>\<open>mpsc::channel\<close> yield an id and an outbox that are new to the whole server: the
  two freshness conditions of \<open>in_room\<close>, which only a join has to meet. \<open>unknown\<close> is the look-up of a
  name that is not configured.
\<close>

inductive hub_step ::
  "('tx, 'w) sender \<Rightarrow> ('tx, 'w) hub_machine \<Rightarrow> ('tx, 'w) hub_machine \<Rightarrow> bool"
  for ts :: "('tx, 'w) sender" where
  in_room: "hub_room h s = Some m \<Longrightarrow> machine_step ts m m' \<Longrightarrow>
    (\<And>tx. tx \<in> outboxes m' - outboxes m \<Longrightarrow> hm_owner h tx = None) \<Longrightarrow>
    (\<And>u. u \<in> dom (mc_names m') - dom (mc_names m) \<Longrightarrow> hm_users h u = None) \<Longrightarrow>
    hub_step ts h (put_room s m m' h)"
| unknown: "hm_rooms h (Configured name) = None \<Longrightarrow> hm_rooms h (Made_up n) = None \<Longrightarrow>
    fake_room name (Some salt) (Some psk) = Inr room \<Longrightarrow>
    hub_step ts h (h\<lparr>hm_rooms := (hm_rooms h)(Made_up n \<mapsto> machine_of room (hm_chan h))\<rparr>)"

definition hub_start :: "'tx server_hub \<Rightarrow> 'w \<Rightarrow> ('tx, 'w) hub_machine" where
  "hub_start hub w =
     \<lparr>hm_rooms = (\<lambda>s. case s of
        Configured n \<Rightarrow> map_option (\<lambda>room. machine_of room w) (hub_rooms hub n)
      | Made_up n \<Rightarrow> None),
      hm_chan = w, hm_now = 0, hm_owner = Map.empty, hm_users = Map.empty\<rparr>"

inductive hub_reachable ::
  "('tx, 'w) sender \<Rightarrow> ('tx, 'w) hub_machine \<Rightarrow> ('tx, 'w) hub_machine \<Rightarrow> bool"
  for ts :: "('tx, 'w) sender" and h0 :: "('tx, 'w) hub_machine" where
  start: "hub_reachable ts h0 h0"
| step: "hub_reachable ts h0 h \<Longrightarrow> hub_step ts h h' \<Longrightarrow> hub_reachable ts h0 h'"

section \<open>Each room behaves as if it were alone\<close>

text \<open>A room is on its way from a fresh state, which for a configured room is under its name.\<close>

definition own_run :: "('tx, 'w) sender \<Rightarrow> room_slot \<Rightarrow> ('tx, 'w) machine \<Rightarrow> bool" where
  "own_run ts s m \<longleftrightarrow>
     (\<exists>room_id salt psk w. reachable ts (machine_init room_id salt psk w) m \<and>
        (\<forall>n. s = Configured n \<longrightarrow> room_id = n))"

lemma machine_step_now: "machine_step ts m m' \<Longrightarrow> mc_now m \<le> mc_now m'"
  by (induction rule: machine_step.induct) simp_all

text \<open>For a room, what the rest of the server does is the passing of time and traffic in the channels.\<close>

lemma own_run_elsewhere:
  assumes "own_run ts s m" and "mc_now m \<le> t"
  shows "own_run ts s (m\<lparr>mc_chan := w, mc_now := t\<rparr>)"
proof -
  from assms(1) obtain room_id salt psk w0
    where run: "reachable ts (machine_init room_id salt psk w0) m"
      and name: "\<forall>n. s = Configured n \<longrightarrow> room_id = n"
    by (auto simp: own_run_def)
  from run have "reachable ts (machine_init room_id salt psk w0) (m\<lparr>mc_chan := w\<rparr>)"
    by (rule reachable.step) (rule machine_step.drain)
  then have "reachable ts (machine_init room_id salt psk w0) (m\<lparr>mc_chan := w, mc_now := t\<rparr>)"
    by (rule reachable.step) (use machine_step.tick [of "m\<lparr>mc_chan := w\<rparr>" t] assms(2) in simp)
  with name show ?thesis by (auto simp: own_run_def)
qed

lemma own_run_step: "own_run ts s m \<Longrightarrow> machine_step ts m m' \<Longrightarrow> own_run ts s m'"
  unfolding own_run_def by (blast intro: reachable.step)

lemma own_run_start:
  "(\<And>n. s = Configured n \<Longrightarrow> room_id = n) \<Longrightarrow>
     own_run ts s (machine_of (room_state_new room_id salt psk) w)"
  unfolding own_run_def machine_of_new by (blast intro: reachable.start)

definition rooms_alone :: "('tx, 'w) sender \<Rightarrow> ('tx, 'w) hub_machine \<Rightarrow> bool" where
  "rooms_alone ts h \<longleftrightarrow> (\<forall>s m. hub_room h s = Some m \<longrightarrow> own_run ts s m)"

lemma hub_room_put:
  "hub_room (put_room s m m' h) s' =
     (if s' = s then Some m'
      else map_option (\<lambda>m. m\<lparr>mc_chan := mc_chan m', mc_now := mc_now m'\<rparr>) (hub_room h s'))"
  by (simp add: hub_room_def put_room_def option.map_comp comp_def)

lemma hub_room_now: "hub_room h s = Some m \<Longrightarrow> mc_now m = hm_now h"
  by (auto simp: hub_room_def)

lemma rooms_alone_step:
  assumes "hub_step ts h h'" and alone: "rooms_alone ts h"
  shows "rooms_alone ts h'"
  using assms(1)
proof cases
  case (in_room s m m')
  have "own_run ts s' m1" if put: "hub_room h' s' = Some m1" for s' m1
  proof (cases "s' = s")
    case True
    with put in_room have "m1 = m'" by (simp add: hub_room_put)
    moreover have "own_run ts s m" using alone in_room(2) by (simp add: rooms_alone_def)
    ultimately show ?thesis using own_run_step in_room(3) True by blast
  next
    case False
    with put in_room obtain m0 where "hub_room h s' = Some m0"
      and m1: "m1 = m0\<lparr>mc_chan := mc_chan m', mc_now := mc_now m'\<rparr>"
      by (auto simp: hub_room_put)
    moreover have "mc_now m0 \<le> mc_now m'"
      using machine_step_now [OF in_room(3)] in_room(2) \<open>hub_room h s' = Some m0\<close>
      by (simp add: hub_room_now)
    ultimately show ?thesis using alone by (auto simp: rooms_alone_def intro: own_run_elsewhere)
  qed
  then show ?thesis by (simp add: rooms_alone_def)
next
  case (unknown name n salt psk room)
  then have room: "room = room_state_new name salt psk"
    by (simp add: fake_room_def)
  have "own_run ts s' m1" if put: "hub_room h' s' = Some m1" for s' m1
  proof (cases "s' = Made_up n")
    case True
    with put unknown have m1: "m1 = (machine_of room (hm_chan h))\<lparr>mc_chan := hm_chan h, mc_now := hm_now h\<rparr>"
      by (auto simp: hub_room_def)
    have "own_run ts s' (machine_of room (hm_chan h))"
      unfolding room by (rule own_run_start) (use True in simp)
    then show ?thesis unfolding m1 by (rule own_run_elsewhere) (simp add: machine_of_def)
  next
    case False
    with put unknown have "hub_room h s' = Some m1" by (auto simp: hub_room_def)
    with alone show ?thesis by (simp add: rooms_alone_def)
  qed
  then show ?thesis by (simp add: rooms_alone_def)
qed

lemma hub_rooms_from_new:
  "hub_rooms_from kdf cfgs draws rooms = Inr rooms' \<Longrightarrow>
     (\<And>n r. rooms n = Some r \<Longrightarrow> \<exists>salt psk. r = room_state_new n salt psk) \<Longrightarrow>
     rooms' n = Some r \<Longrightarrow> \<exists>salt psk. r = room_state_new n salt psk"
proof (induction kdf cfgs draws rooms rule: hub_rooms_from.induct)
  case (2 kdf cfg cfgs draws rooms)
  from "2.prems"(1) obtain salt draws' keys where draws: "draws = Some salt # draws'"
    and keys: "derive_keys kdf (utf8 (rc_password cfg)) salt = Inr keys"
    and rest: "hub_rooms_from kdf cfgs draws'
      (rooms(rc_name cfg \<mapsto> room_state_new (rc_name cfg) salt (dk_psk keys))) = Inr rooms'"
    by (auto simp: and_then_Inr_iff split: list.splits option.splits)
  show ?case
    by (rule "2.IH" [OF draws _ rest _ "2.prems"(3)])
      (use "2.prems"(2) in \<open>auto split: if_splits\<close>)
qed auto

lemma hub_start_rooms:
  assumes "server_hub_new kdf cfgs draws = Inr hub" and "hm_rooms (hub_start hub w) s = Some m"
  shows "\<exists>n salt psk. s = Configured n \<and> m = machine_init n salt psk w"
proof -
  from assms(1) have rooms: "hub_rooms_from kdf cfgs draws Map.empty = Inr (hub_rooms hub)"
    by (auto simp: server_hub_new_def and_then_Inr_iff)
  from assms(2) obtain n r where s: "s = Configured n" and r: "hub_rooms hub n = Some r"
    and m: "m = machine_of r w"
    by (auto simp: hub_start_def split: room_slot.splits)
  obtain salt psk where "r = room_state_new n salt psk"
    using hub_rooms_from_new [OF rooms _ r] by auto
  with s m show ?thesis by (auto simp: machine_of_new)
qed

lemma rooms_alone_start:
  assumes "server_hub_new kdf cfgs draws = Inr hub"
  shows "rooms_alone ts (hub_start hub w)"
  unfolding rooms_alone_def
proof (intro allI impI)
  fix s m assume "hub_room (hub_start hub w) s = Some m"
  then obtain m0 where m0: "hm_rooms (hub_start hub w) s = Some m0"
    and m: "m = m0\<lparr>mc_chan := w, mc_now := 0\<rparr>"
    by (auto simp: hub_room_def hub_start_def)
  obtain n salt psk where s: "s = Configured n" and "m0 = machine_init n salt psk w"
    using hub_start_rooms [OF assms m0] by blast
  with m have "m = machine_of (room_state_new n salt psk) w"
    by (simp add: machine_of_def machine_init_def)
  with s own_run_start [of s n] show "own_run ts s m" by simp
qed

lemma hub_rooms_alone:
  assumes "server_hub_new kdf cfgs draws = Inr hub" and "hub_reachable ts (hub_start hub w) h"
  shows "rooms_alone ts h"
  using assms(2)
  by (induction rule: hub_reachable.induct) (auto intro: rooms_alone_start [OF assms(1)] rooms_alone_step)

text \<open>So the invariant of a room holds for each of them.\<close>

lemma own_run_inv: "own_run ts s m \<Longrightarrow> machine_inv m"
  by (auto simp: own_run_def dest: reachable_machine_inv)

lemma own_run_sent: "own_run ts s m \<Longrightarrow> set (mc_sent m tx) \<subseteq> set (mc_log m)"
  by (drule own_run_inv) (simp add: machine_inv_def sent_ok_def)

section \<open>Rooms share no outbox and no user\<close>

text \<open>The outboxes a room can still write to or has written to.\<close>

fun stage_handles :: "'tx stage \<Rightarrow> 'tx set" where
  "stage_handles (Sending f snapshot dead) = snd ` set snapshot"
| "stage_handles stage = {}"

definition machine_handles :: "('tx, 'w) machine \<Rightarrow> 'tx set" where
  "machine_handles m =
     outboxes m \<union> {tx. mc_sent m tx \<noteq> []} \<union> (\<Union>tk \<in> ran (mc_tasks m). stage_handles (tk_stage tk))"

lemma ran_upd_subset: "ran (f(k \<mapsto> v)) \<subseteq> insert v (ran f)" "ran (f(k := None)) \<subseteq> ran f"
  by (auto simp: ran_def split: if_splits)

lemma machine_handles_mono:
  assumes "\<And>tx. mc_sent m' tx \<noteq> [] \<Longrightarrow> tx \<in> machine_handles m"
    and "\<And>tk. tk \<in> ran (mc_tasks m') \<Longrightarrow> stage_handles (tk_stage tk) \<subseteq> machine_handles m"
  shows "machine_handles m' \<subseteq> machine_handles m \<union> (outboxes m' - outboxes m)"
  using assms unfolding machine_handles_def [of m'] by (auto simp: machine_handles_def)

lemma machine_handles_sent: "mc_sent m tx \<noteq> [] \<Longrightarrow> tx \<in> machine_handles m"
  by (simp add: machine_handles_def)

lemma machine_handles_tasks:
  "tk \<in> ran (mc_tasks m) \<Longrightarrow> stage_handles (tk_stage tk) \<subseteq> machine_handles m"
  by (auto simp: machine_handles_def)

lemma machine_handles_stage:
  "mc_tasks m u = Some tk \<Longrightarrow> stage_handles (tk_stage tk) \<subseteq> machine_handles m"
  by (rule machine_handles_tasks) (rule ranI)

lemma entries_ran: "snd ` set (entries f ks) \<subseteq> ran f"
proof
  fix v assume "v \<in> snd ` set (entries f ks)"
  then obtain k where "f k = Some v" by (auto simp: set_entries)
  then show "v \<in> ran f" by (rule ranI)
qed

text \<open>Only the step of a broadcast that takes the snapshot gives a task handles, those of its room.\<close>

lemma task_block_handles:
  assumes "task_block ts now order u name (stage, room, w) = (stage', room', w')"
  shows "stage_handles stage' \<subseteq> stage_handles stage \<union> ran (cm_senders (rs_connections room))"
proof (cases stage)
  case (Announcing f)
  with assms show ?thesis using entries_ran by (fastforce simp: cm_snapshot_def)
next
  case (Sending f snapshot dead)
  with assms show ?thesis
    by (cases snapshot) (auto split: prod.splits send_outcome.splits if_splits)
qed (use assms in \<open>auto split: client_frame.splits prod.splits bool.splits if_splits\<close>)

lemma delivered_handles:
  "delivered ts stage w sent tx \<noteq> [] \<Longrightarrow> sent tx \<noteq> [] \<or> tx \<in> stage_handles stage"
  by (induction ts stage w sent rule: delivered.induct) (auto split: if_splits)

lemma machine_step_handles:
  assumes "machine_step ts m m'"
  shows "machine_handles m' \<subseteq> machine_handles m \<union> (outboxes m' - outboxes m)"
  using assms
proof (induction rule: machine_step.induct)
  case (block m u tk order stage room w)
  have "stage_handles stage \<subseteq> machine_handles m"
    using task_block_handles [OF block(3)] machine_handles_stage [OF block(1)]
    by (auto simp: machine_handles_def outboxes_def)
  then show ?case
    using machine_handles_stage [OF block(1)]
    by (intro machine_handles_mono)
      (auto simp: at_stage_def dest!: delivered_handles set_mp [OF ran_upd_subset(1)]
        dest: machine_handles_tasks [THEN subsetD] intro: machine_handles_sent)
qed (intro machine_handles_mono;
     auto simp: at_stage_def dest!: set_mp [OF ran_upd_subset(1)] set_mp [OF ran_upd_subset(2)]
       dest: machine_handles_tasks [THEN subsetD] intro: machine_handles_sent)+

definition rooms_apart :: "('tx, 'w) hub_machine \<Rightarrow> bool" where
  "rooms_apart h \<longleftrightarrow>
     (\<forall>s m. hm_rooms h s = Some m \<longrightarrow>
        (\<forall>tx \<in> machine_handles m. hm_owner h tx = Some s) \<and>
        (\<forall>u \<in> dom (mc_names m). hm_users h u = Some s))"

lemma claim_new: "x \<in> after \<Longrightarrow> x \<notin> before \<Longrightarrow> claim s before after owner x = Some s"
  by (simp add: claim_def)

lemma claim_nothing: "after - before = {} \<Longrightarrow> claim s before after owner = owner"
  by (intro ext) (auto simp: claim_def)

lemma claim_kept:
  "owner x = Some s' \<Longrightarrow> (x \<in> after - before \<Longrightarrow> owner x = None) \<Longrightarrow>
     claim s before after owner x = Some s'"
  by (auto simp: claim_def)

lemma hub_room_handles:
  "hub_room h s = Some m \<Longrightarrow>
     \<exists>m0. hm_rooms h s = Some m0 \<and> machine_handles m = machine_handles m0 \<and> mc_names m = mc_names m0"
  by (auto simp: hub_room_def machine_handles_def outboxes_def)

lemma rooms_apart_step:
  assumes "hub_step ts h h'" and apart: "rooms_apart h"
  shows "rooms_apart h'"
  using assms(1)
proof cases
  case (in_room s m m')
  have old: "hm_owner h tx = Some s" if "tx \<in> machine_handles m" for tx
    using hub_room_handles [OF in_room(2)] apart that by (auto simp: rooms_apart_def)
  have users: "hm_users h u = Some s" if "u \<in> dom (mc_names m)" for u
    using hub_room_handles [OF in_room(2)] apart that unfolding rooms_apart_def by metis
  have here: "hm_owner h' tx = Some s" if "tx \<in> machine_handles m'" for tx
  proof (cases "tx \<in> outboxes m' - outboxes m")
    case True
    with in_room(1) show ?thesis by (simp add: put_room_def claim_new)
  next
    case False
    with machine_step_handles [OF in_room(3)] that have "tx \<in> machine_handles m" by blast
    with old False in_room(1) show ?thesis by (simp add: put_room_def claim_def)
  qed
  have there: "hm_owner h' tx = Some s'" if "hm_owner h tx = Some s'" for tx s'
    using that in_room(1) in_room(4) [of tx] by (auto simp: put_room_def intro: claim_kept)
  have users_here: "hm_users h' u = Some s" if "u \<in> dom (mc_names m')" for u
    using that users in_room(1) in_room(5) [of u]
    by (cases "u \<in> dom (mc_names m)") (auto simp: put_room_def intro: claim_new claim_kept)
  have users_there: "hm_users h' u = Some s'" if "hm_users h u = Some s'" for u s'
    using that in_room(1) in_room(5) [of u] by (auto simp: put_room_def intro: claim_kept)
  show ?thesis
    unfolding rooms_apart_def
  proof (intro allI impI conjI ballI)
    fix s1 m1 tx assume "hm_rooms h' s1 = Some m1" and "tx \<in> machine_handles m1"
    then show "hm_owner h' tx = Some s1"
      using in_room(1) here there apart
      by (cases "s1 = s") (auto simp: put_room_def rooms_apart_def)
  next
    fix s1 m1 u assume "hm_rooms h' s1 = Some m1" and "u \<in> dom (mc_names m1)"
    then show "hm_users h' u = Some s1"
      using in_room(1) users_here users_there apart
      by (cases "s1 = s") (auto simp: put_room_def rooms_apart_def)
  qed
next
  case (unknown name n salt psk room)
  then have "machine_handles (machine_of room (hm_chan h)) = {}"
    by (auto simp: fake_room_def machine_handles_def machine_of_def outboxes_def
        room_state_new_def connection_manager_new_def)
  with unknown apart show ?thesis by (auto simp: rooms_apart_def machine_of_def)
qed

lemma hub_rooms_apart:
  assumes "server_hub_new kdf cfgs draws = Inr hub" and "hub_reachable ts (hub_start hub w) h"
  shows "rooms_apart h"
  using assms(2)
proof (induction rule: hub_reachable.induct)
  case start
  show ?case
    unfolding rooms_apart_def
    by (auto dest!: hub_start_rooms [OF assms(1)] simp: machine_init_def machine_handles_def
        outboxes_def room_state_new_def connection_manager_new_def)
qed (rule rooms_apart_step)

lemma hub_rooms_disjoint:
  assumes "rooms_apart h" and "hub_room h s = Some m" and "hub_room h s' = Some m'" and "s \<noteq> s'"
  shows "machine_handles m \<inter> machine_handles m' = {}" and "dom (mc_names m) \<inter> dom (mc_names m') = {}"
  using hub_room_handles [OF assms(2)] hub_room_handles [OF assms(3)] assms(1,4)
  unfolding rooms_apart_def by (metis disjoint_iff option.inject)+

section \<open>Rooms in which nobody joins\<close>

text \<open>Only a join asks for new ids and outboxes, and it shows in the names: a run between two states
  with the same names is one of the server.\<close>

lemma fold_cm_remove_subset: "ran (cm_senders (fold cm_remove us c)) \<subseteq> ran (cm_senders c)"
proof (induction us arbitrary: c)
  case (Cons u us)
  have "ran (cm_senders (cm_remove u c)) \<subseteq> ran (cm_senders c)"
    by (simp add: cm_remove_def ran_upd_subset)
  with Cons [of "cm_remove u c"] show ?case by simp
qed simp

lemma task_block_outboxes:
  assumes "task_block ts now order u name (stage, room, w) = (stage', room', w')"
  shows "ran (cm_senders (rs_connections room')) \<subseteq> ran (cm_senders (rs_connections room))"
proof (cases stage)
  case (Sending f snapshot dead)
  with assms show ?thesis
    by (cases snapshot) (auto split: prod.splits send_outcome.splits if_splits)
next
  case (Evicting dead)
  with assms fold_cm_remove_subset [of dead "rs_connections room"] show ?thesis by auto
qed (use assms in \<open>auto split: client_frame.splits prod.splits bool.splits if_splits\<close>)

lemma ran_evict_subset:
  "ran (cm_senders (rs_connections (evict_sessions us room))) \<subseteq> ran (cm_senders (rs_connections room))"
  by (auto simp: ran_def evict_sessions_stores split: if_splits)

lemma machine_step_names:
  assumes "machine_step ts m m'"
  shows "mc_names m \<subseteq>\<^sub>m mc_names m' \<and> (mc_names m' = mc_names m \<longrightarrow> outboxes m' \<subseteq> outboxes m)"
  using assms
proof (induction rule: machine_step.induct)
  case (join u m tx name t)
  define names where "names = (mc_names m)(u \<mapsto> name)"
  have "names \<noteq> mc_names m" using join(1) by (metis names_def domI fun_upd_same)
  moreover have "mc_names m \<subseteq>\<^sub>m names" using join(1) by (auto simp: names_def map_le_def)
  ultimately show ?case by (simp flip: names_def)
next
  case (block m u tk order stage room w)
  then show ?case using task_block_outboxes [OF block(3)] by (simp add: outboxes_def)
qed (auto simp: outboxes_def store_simps dest: ran_upd_subset(2) [THEN subsetD] ran_evict_subset [THEN subsetD])

lemma reachable_names: "reachable ts m0 m \<Longrightarrow> mc_names m0 \<subseteq>\<^sub>m mc_names m"
  by (induction rule: reachable.induct) (auto dest: machine_step_names intro: map_le_trans)

lemma hub_reachable_quiet:
  assumes "reachable ts m0 m" and hub: "hub_reachable ts h0 h" "hub_room h s = Some m0"
    and "mc_names m = mc_names m0"
  shows "\<exists>h'. hub_reachable ts h0 h' \<and> hub_room h' s = Some m \<and> hm_owner h' = hm_owner h \<and>
    hm_users h' = hm_users h \<and> (\<forall>s'. s' \<noteq> s \<longrightarrow> hm_rooms h' s' = hm_rooms h s')"
  using assms(1,4)
proof (induction rule: reachable.induct)
  case (step m m')
  from step(2) machine_step_names have "mc_names m \<subseteq>\<^sub>m mc_names m'" by blast
  moreover have "mc_names m0 \<subseteq>\<^sub>m mc_names m" using step(1) by (rule reachable_names)
  ultimately have names: "mc_names m = mc_names m0"
    using step.prems by (metis map_le_antisym)
  then obtain h1 where h1: "hub_reachable ts h0 h1" "hub_room h1 s = Some m"
    "hm_owner h1 = hm_owner h" "hm_users h1 = hm_users h"
    "\<forall>s'. s' \<noteq> s \<longrightarrow> hm_rooms h1 s' = hm_rooms h s'"
    using step.IH by blast
  have quiet: "outboxes m' - outboxes m = {}" "dom (mc_names m') - dom (mc_names m) = {}"
    using machine_step_names [OF step(2)] names step.prems by auto
  have "hub_step ts h1 (put_room s m m' h1)"
    by (rule hub_step.in_room [OF h1(2) step(2)]) (use quiet in auto)
  with h1(1) have "hub_reachable ts h0 (put_room s m m' h1)" by (rule hub_reachable.step)
  moreover have "claim s (outboxes m) (outboxes m') (hm_owner h1) = hm_owner h"
    "claim s (dom (mc_names m)) (dom (mc_names m')) (hm_users h1) = hm_users h"
    using quiet h1 by (simp_all add: claim_nothing)
  ultimately show ?case
    using h1(5) by (intro exI [of _ "put_room s m m' h1"]) (simp add: hub_room_put, simp add: put_room_def)
qed (use hub in blast)

end
