(* ===== verification/FrameBounds.thy ===== *)
theory FrameBounds
  imports MachineInvariant Crypto
begin

text \<open>
  The size budget behind \<^verbatim>\<open>MAX_CIPHERTEXT_LEN\<close> in \<^verbatim>\<open>src/proto.rs\<close>: how large the frames of a
  room can get once postcard has encoded them, and that they fit a Noise message and a wire frame.
  Postcard is not part of the program; \<open>frame_size\<close> adds up what its wire format allows per
  field (a varint of at most ten bytes for an integer, a length or a variant index, one byte for a
  flag, the bytes themselves for a string or a byte sequence), and \<open>postcard_sizes\<close> is the
  hypothesis that an encoding is no longer than that.
\<close>

definition VARINT_MAX :: nat where "VARINT_MAX = 10"

definition ad_size :: "message_ad \<Rightarrow> nat" where
  "ad_size ad = (VARINT_MAX + 16) + (VARINT_MAX + str_len (ad_username ad)) + VARINT_MAX + VARINT_MAX + 1"

definition message_size :: "room_message \<Rightarrow> nat" where
  "message_size m =
     (VARINT_MAX + 16) + (VARINT_MAX + str_len (rm_username m)) + ad_size (rm_ad m) +
     (VARINT_MAX + length (rm_ciphertext m))"

fun frame_size :: "server_frame \<Rightarrow> nat" where
  "frame_size (ServerHello salt v) = VARINT_MAX + length salt + VARINT_MAX"
| "frame_size (Welcome u h) = VARINT_MAX + (VARINT_MAX + 16) + VARINT_MAX + sum_list (map message_size h)"
| "frame_size (ServerMessage m) = VARINT_MAX + message_size m"
| "frame_size (Cleared u name) = VARINT_MAX + (VARINT_MAX + 16) + (VARINT_MAX + str_len name)"
| "frame_size (ServerError e) = VARINT_MAX + VARINT_MAX"

definition postcard_sizes :: "(server_frame \<Rightarrow> bytes option) \<Rightarrow> bool" where
  "postcard_sizes to_vec \<longleftrightarrow> (\<forall>f b. to_vec f = Some b \<longrightarrow> length b \<le> frame_size f)"

text \<open>A sealed frame, in a Noise message and in a frame of the wire.\<close>

definition fits :: "bytes \<Rightarrow> bool" where
  "fits pt \<longleftrightarrow> length pt + AEAD_TAG_LEN \<le> NOISE_BUF \<and> length pt + AEAD_TAG_LEN \<le> MAX_FRAME_LEN"

section \<open>One message\<close>

text \<open>The largest a stored or announced message can be.\<close>

definition MESSAGE_SIZE_MAX :: nat where "MESSAGE_SIZE_MAX = 4263"

lemma message_size_bound:
  assumes "ad_username (rm_ad m) = rm_username m" and "username_ok (rm_username m)"
    and "length (rm_ciphertext m) \<le> MAX_CIPHERTEXT_LEN"
  shows "message_size m \<le> MESSAGE_SIZE_MAX"
  using assms
  by (simp add: message_size_def ad_size_def VARINT_MAX_def MESSAGE_SIZE_MAX_def username_ok_def
      MAX_USERNAME_LEN_def MAX_CIPHERTEXT_LEN_def)

lemma history_size_bound:
  assumes "history_ok h"
  shows "sum_list (map message_size h) \<le> HISTORY_LEN * MESSAGE_SIZE_MAX"
proof -
  have "\<forall>m \<in> set h. message_size m \<le> MESSAGE_SIZE_MAX"
    using assms by (auto simp: history_ok_def message_ok_def intro: message_size_bound)
  then have "sum_list (map message_size h) \<le> length h * MESSAGE_SIZE_MAX"
    by (induction h) auto
  also have "\<dots> \<le> HISTORY_LEN * MESSAGE_SIZE_MAX"
    using assms by (auto simp: history_ok_def)
  finally show ?thesis .
qed

lemma fits_size: "length pt \<le> n \<Longrightarrow> n \<le> 65519 \<Longrightarrow> fits pt"
  by (simp add: fits_def AEAD_TAG_LEN_def NOISE_BUF_def MAX_FRAME_LEN_def)

section \<open>The frames of a room\<close>

lemma authentic_size: "authentic names f \<Longrightarrow> frame_size f \<le> VARINT_MAX + MESSAGE_SIZE_MAX"
proof (cases f)
  case (ServerMessage m)
  moreover assume "authentic names f"
  ultimately show ?thesis by (simp add: message_size_bound)
qed (auto simp: username_ok_def MAX_USERNAME_LEN_def VARINT_MAX_def MESSAGE_SIZE_MAX_def)

lemma welcome_fits:
  assumes "postcard_sizes to_vec" and "history_ok h" and "to_vec (Welcome u h) = Some b"
  shows "fits b"
proof (rule fits_size)
  show "length b \<le> frame_size (Welcome u h)" using assms(1,3) unfolding postcard_sizes_def by blast
  show "frame_size (Welcome u h) \<le> 65519"
    using history_size_bound [OF assms(2)]
    by (simp add: VARINT_MAX_def HISTORY_LEN_def MESSAGE_SIZE_MAX_def)
qed

lemma announced_fits:
  assumes "postcard_sizes to_vec" and "authentic names f" and "to_vec f = Some b"
  shows "fits b"
proof (rule fits_size)
  show "length b \<le> VARINT_MAX + MESSAGE_SIZE_MAX"
    using assms(1,3) authentic_size [OF assms(2)]
    by (meson le_trans postcard_sizes_def)
qed (simp add: VARINT_MAX_def MESSAGE_SIZE_MAX_def)

end
