(* ===== verification/ServerLoop.thy ===== *)
theory ServerLoop
  imports ConnectionRules
begin

text \<open>
  The outer loops of \<^verbatim>\<open>src/server/mod.rs\<close>: the accept loop of \<^verbatim>\<open>run\<close>, the ticks of \<^verbatim>\<open>sweeper\<close>, and the
  connection counter under concurrent acquisitions.
\<close>

section \<open>The sweeper\<close>

text \<open>One tick: \<open>t\<close> is the clock in \<^verbatim>\<open>cleanup\<close>; \<open>visits\<close> are the rooms in iteration order, each with the
  clock in \<^verbatim>\<open>stale\<close> and the order of its sessions.\<close>

fun sweep_rooms ::
  "(str \<times> instant \<times> uuid list) list \<Rightarrow> (str \<rightharpoonup> 'tx room_state) \<Rightarrow> str \<rightharpoonup> 'tx room_state" where
  "sweep_rooms [] rooms = rooms"
| "sweep_rooms ((n, now, order) # visits) rooms =
     (case rooms n of
        None \<Rightarrow> sweep_rooms visits rooms
      | Some room \<Rightarrow> sweep_rooms visits (rooms(n \<mapsto> sweep_room now order room)))"

definition sweeper_tick ::
  "instant \<Rightarrow> (str \<times> instant \<times> uuid list) list \<Rightarrow> 'tx server_hub \<Rightarrow> 'tx server_hub" where
  "sweeper_tick t visits hub =
     (let hub = hub\<lparr>hub_ratelimit := cleanup t (hub_ratelimit hub)\<rparr>
      in hub\<lparr>hub_rooms := sweep_rooms visits (hub_rooms hub)\<rparr>)"

lemma sweep_rooms_other: "n \<notin> fst ` set visits \<Longrightarrow> sweep_rooms visits rooms n = rooms n"
  by (induction visits rooms rule: sweep_rooms.induct) (auto split: option.split)

lemma sweep_rooms_visited:
  "distinct (map fst visits) \<Longrightarrow> (n, now, order) \<in> set visits \<Longrightarrow>
     sweep_rooms visits rooms n = map_option (sweep_room now order) (rooms n)"
proof (induction visits arbitrary: rooms)
  case (Cons v visits)
  obtain n' now' order' where v: "v = (n', now', order')" by (cases v)
  show ?case
  proof (cases "n' = n")
    case True
    with Cons.prems v have "n \<notin> fst ` set visits" "now' = now" "order' = order"
      by (auto simp: rev_image_eqI)
    with True v show ?thesis by (simp add: sweep_rooms_other split: option.split)
  next
    case False
    with Cons.prems v have "distinct (map fst visits)" "(n, now, order) \<in> set visits" by auto
    note IH = Cons.IH [OF this]
    show ?thesis
    proof (cases "rooms n'")
      case (Some r)
      let ?rooms = "rooms(n' \<mapsto> sweep_room now' order' r)"
      have "sweep_rooms visits ?rooms n = map_option (sweep_room now order) (?rooms n)"
        by (rule IH)
      with Some v False show ?thesis by simp
    qed (use IH v in simp)
  qed
qed simp

text \<open>What the sweep of a room removes: exactly the users silent for more than the timeout.\<close>

lemma sweep_room_stores:
  assumes "iteration_order (ss_sessions (rs_sessions room)) order"
  shows "ss_sessions (rs_sessions (sweep_room now order room)) u =
      (case ss_sessions (rs_sessions room) u of
         None \<Rightarrow> None
       | Some s \<Rightarrow>
           if ss_timeout (rs_sessions room) < duration_since now (us_last_active s) then None else Some s)"
    and "cm_senders (rs_connections (sweep_room now order room)) u =
      (case ss_sessions (rs_sessions room) u of
         None \<Rightarrow> cm_senders (rs_connections room) u
       | Some s \<Rightarrow>
           if ss_timeout (rs_sessions room) < duration_since now (us_last_active s) then None
           else cm_senders (rs_connections room) u)"
    and "rs_messages (sweep_room now order room) = rs_messages room"
  using set_ss_stale [OF assms, of now]
  by (auto simp: sweep_room_def Let_def evict_sessions_stores split: option.split)

section \<open>The accept loop\<close>

text \<open>What happens to the hub while the server runs. \<open>TaskStep\<close> is a connection task's effect.\<close>

datatype 'tx server_event =
    Accepted instant ip_addr
  | AcceptFailed
  | SweepTick instant "(str \<times> instant \<times> uuid list) list"
  | TaskStep "str \<rightharpoonup> 'tx room_state" u64
  | CtrlC

text \<open>The spawned connections, the hub at the end, whether the loop was left, and whether the shutdown token
  has been cancelled. The interrupt does both. The other branch that leaves the loop, on a cancelled
  token, is never taken, as nothing else cancels it.\<close>

fun run_loop ::
  "'tx server_event list \<Rightarrow> 'tx server_hub \<Rightarrow> (instant \<times> ip_addr) list \<times> 'tx server_hub \<times> bool \<times> bool" where
  "run_loop [] hub = ([], hub, False, False)"
| "run_loop (CtrlC # es) hub = (let token = True in ([], hub, True, token))"
| "run_loop (AcceptFailed # es) hub = run_loop es hub"
| "run_loop (Accepted t ip # es) hub =
     (case check t ip (hub_ratelimit hub) of
        (False, rl) \<Rightarrow> run_loop es (hub\<lparr>hub_ratelimit := rl\<rparr>)
      | (True, rl) \<Rightarrow>
          (case run_loop es (hub\<lparr>hub_ratelimit := rl\<rparr>) of
             (spawned, rest) \<Rightarrow> ((t, ip) # spawned, rest)))"
| "run_loop (SweepTick t visits # es) hub = run_loop es (sweeper_tick t visits hub)"
| "run_loop (TaskStep rooms active # es) hub =
     run_loop es (hub\<lparr>hub_rooms := rooms, hub_active_conns := active\<rparr>)"

definition left_loop :: "'a \<times> 'b \<times> bool \<times> bool \<Rightarrow> bool" where
  "left_loop r = fst (snd (snd r))"

definition token :: "'a \<times> 'b \<times> bool \<times> bool \<Rightarrow> bool" where
  "token r = snd (snd (snd r))"

text \<open>What comes after an interrupt makes no difference, and without one the loop goes on.\<close>

lemma run_loop_interrupted:
  "fst (run_loop (es @ CtrlC # es') hub) = fst (run_loop es hub) \<and>
     left_loop (run_loop (es @ CtrlC # es') hub) \<and> token (run_loop (es @ CtrlC # es') hub)"
  by (induction es hub rule: run_loop.induct)
    (auto simp: left_loop_def token_def split: prod.split bool.split)

lemma run_loop_uninterrupted:
  "CtrlC \<notin> set es \<Longrightarrow> \<not> left_loop (run_loop es hub) \<and> \<not> token (run_loop es hub)"
  by (induction es hub rule: run_loop.induct)
    (auto simp: left_loop_def token_def split: prod.split bool.split)

lemma run_loop_more:
  "length (fst (run_loop es hub)) \<le> length (fst (run_loop (es @ es') hub))"
  by (induction es hub rule: run_loop.induct) (auto split: prod.split bool.split)

text \<open>The accept loop is the connection limiter run over the accepts and the sweeper's clean-ups
  before the shutdown.\<close>

fun limiter_events :: "'tx server_event list \<Rightarrow> (ip_addr, unit) window_event list" where
  "limiter_events [] = []"
| "limiter_events (CtrlC # es) = []"
| "limiter_events (Accepted t ip # es) = Attempt t ip # limiter_events es"
| "limiter_events (SweepTick t visits # es) = Other t () # limiter_events es"
| "limiter_events (e # es) = limiter_events es"

lemma run_loop_spawned:
  "fst (run_loop es hub) =
     window_run check (\<lambda>t (_ :: unit). cleanup t) (hub_ratelimit hub) (limiter_events es)"
proof (induction es hub rule: run_loop.induct)
  case (4 t ip es hub)
  then show ?case
    by (cases "check t ip (hub_ratelimit hub)"; cases "fst (check t ip (hub_ratelimit hub))")
      (auto simp: split_def)
qed (simp_all add: sweeper_tick_def)

text \<open>A poisoned limiter lets no connection in.\<close>

lemma run_loop_poisoned:
  "rl_poisoned (hub_ratelimit hub) \<Longrightarrow> admitted_for ip (fst (run_loop es hub)) = []"
  using limiter.window_run_refused [of "hub_ratelimit hub" ip] by (simp add: run_loop_spawned)

section \<open>The connection counter under contention\<close>

text \<open>
  \<^verbatim>\<open>try_acquire\<close> adds first and subtracts again when the cap was already reached; between the two,
  other tasks see the larger counter. A task without an entry is outside the guard, \<open>Overshot\<close> has
  added and must roll back, \<open>Holding\<close> owns a guard. The number of tasks is bounded by the address
  space.
\<close>

datatype guard_phase = Overshot | Holding

record guard_state =
  gs_active :: u64
  gs_phase :: "nat \<rightharpoonup> guard_phase"

definition fetch_add_phase :: "u64 \<Rightarrow> u64 \<Rightarrow> guard_phase" where
  "fetch_add_phase max_conns old = (if old \<ge> max_conns then Overshot else Holding)"

inductive guard_step :: "u64 \<Rightarrow> guard_state \<Rightarrow> guard_state \<Rightarrow> bool" for max_conns :: u64 where
  add: "gs_phase g k = None \<Longrightarrow> card (dom (gs_phase g)) < usize_max \<Longrightarrow>
    guard_step max_conns g \<lparr>gs_active = gs_active g + 1,
      gs_phase = (gs_phase g)(k \<mapsto> fetch_add_phase max_conns (gs_active g))\<rparr>"
| roll_back: "gs_phase g k = Some Overshot \<Longrightarrow>
    guard_step max_conns g \<lparr>gs_active = gs_active g - 1, gs_phase = (gs_phase g)(k := None)\<rparr>"
| drop_guard: "gs_phase g k = Some Holding \<Longrightarrow>
    guard_step max_conns g \<lparr>gs_active = guard_drop (gs_active g), gs_phase = (gs_phase g)(k := None)\<rparr>"

inductive_cases guard_stepE: "guard_step max_conns g g'"

inductive guard_reachable :: "u64 \<Rightarrow> guard_state \<Rightarrow> bool" for max_conns :: u64 where
  idle: "guard_reachable max_conns \<lparr>gs_active = 0, gs_phase = Map.empty\<rparr>"
| move: "guard_reachable max_conns g \<Longrightarrow> guard_step max_conns g g' \<Longrightarrow> guard_reachable max_conns g'"

definition holders :: "guard_state \<Rightarrow> nat set" where
  "holders g = {k. gs_phase g k = Some Holding}"

definition guard_inv :: "u64 \<Rightarrow> guard_state \<Rightarrow> bool" where
  "guard_inv max_conns g \<longleftrightarrow>
     finite (dom (gs_phase g)) \<and> unat (gs_active g) = card (dom (gs_phase g)) \<and>
     card (holders g) \<le> unat max_conns"

lemma holders_subset: "holders g \<subseteq> dom (gs_phase g)"
  by (auto simp: holders_def)

lemma finite_holders: "finite (dom (gs_phase g)) \<Longrightarrow> finite (holders g)"
  using holders_subset by (rule finite_subset)

text \<open>Undisturbed, the two halves are \<^verbatim>\<open>try_acquire\<close>.\<close>

lemma try_acquire_phases:
  "try_acquire max_conns active =
     (case fetch_add_phase max_conns active of
        Holding \<Rightarrow> (True, active + 1) | Overshot \<Rightarrow> (False, active + 1 - 1))"
  by (simp add: try_acquire_def fetch_add_phase_def)

lemma unat_pred: "unat (a :: u64) = Suc n \<Longrightarrow> unat (a - 1) = n"
  by (metis diff_Suc_1 unat_minus_one unat_eq_zero nat.distinct(1))

lemma unat_succ: "unat (a :: u64) < 2 ^ 64 - 1 \<Longrightarrow> unat (a + 1) = Suc (unat a)"
  by (simp add: unat_word_ariths)

lemma guard_inv_remove:
  assumes inv: "guard_inv max_conns g" and k: "gs_phase g k = Some p"
  shows "guard_inv max_conns \<lparr>gs_active = gs_active g - 1, gs_phase = (gs_phase g)(k := None)\<rparr>"
proof -
  let ?g = "\<lparr>gs_active = gs_active g - 1, gs_phase = (gs_phase g)(k := None)\<rparr>"
  from inv have fin: "finite (dom (gs_phase g))" by (simp add: guard_inv_def)
  have "k \<in> dom (gs_phase g)" using k by blast
  then have "card (dom (gs_phase g)) = Suc (card (dom (gs_phase g) - {k}))"
    using card.remove [OF fin] by blast
  with inv have "unat (gs_active g - 1) = card (dom (gs_phase ?g))"
    by (simp add: guard_inv_def unat_pred)
  moreover have "holders ?g \<subseteq> holders g" by (auto simp: holders_def)
  then have "card (holders ?g) \<le> card (holders g)" by (intro card_mono finite_holders fin)
  ultimately show ?thesis using inv by (simp add: guard_inv_def)
qed

lemma guard_inv_step:
  assumes "guard_step max_conns g g'" and inv: "guard_inv max_conns g"
  shows "guard_inv max_conns g'"
  using assms(1)
proof cases
  case (add k)
  from inv have fin: "finite (dom (gs_phase g))"
    and active: "unat (gs_active g) = card (dom (gs_phase g))"
    and held: "card (holders g) \<le> unat max_conns"
    by (simp_all add: guard_inv_def)
  have "unat (gs_active g') = Suc (unat (gs_active g))"
    using add active by (simp add: unat_succ usize_max_def)
  moreover have "k \<notin> dom (gs_phase g)" using add by auto
  moreover have "card (holders g') \<le> unat max_conns"
  proof (cases "gs_active g \<ge> max_conns")
    case True
    with add have "holders g' = holders g" by (auto simp: holders_def fetch_add_phase_def)
    with held show ?thesis by simp
  next
    case False
    have "card (holders g) \<le> card (dom (gs_phase g))"
      by (rule card_mono [OF fin holders_subset])
    also have "\<dots> < unat max_conns" using False active by (simp add: word_le_nat_alt)
    finally have "card (holders g) < unat max_conns" .
    moreover have "holders g' = insert k (holders g)"
      using add False by (auto simp: holders_def fetch_add_phase_def)
    ultimately show ?thesis using finite_holders [OF fin] by (simp add: card_insert_if)
  qed
  ultimately show ?thesis using add fin active by (simp add: guard_inv_def)
next
  case (roll_back k)
  with guard_inv_remove [OF inv] show ?thesis by simp
next
  case (drop_guard k)
  with guard_inv_remove [OF inv] show ?thesis by (simp add: guard_drop_def)
qed

lemma guard_reachable_inv: "guard_reachable max_conns g \<Longrightarrow> guard_inv max_conns g"
proof (induction rule: guard_reachable.induct)
  case idle
  then show ?case by (simp add: guard_inv_def holders_def)
qed (rule guard_inv_step)

end
