(* ===== verification/Ui.thy ===== *)
theory Ui
  imports Crypto RateLimit
begin

text \<open>
  \<^verbatim>\<open>src/client/ui.rs\<close>: the client's state, its message pane and scrolling, ephemeral messages, and the
  replay filter. An operation that reads the clock takes the reading as an argument, as does one
  that reads \<^verbatim>\<open>now_ms()\<close>.
\<close>

definition HISTORY_CAP :: nat where "HISTORY_CAP = 500"

text \<open>\<^verbatim>\<open>SocketAddr\<close>: the address, the port, and for IPv6 the scope id. Its flow label is neither compared nor
  shown anywhere.\<close>

datatype socket_addr = SocketV4 "32 word" u16 | SocketV6 "128 word" u16 u32

record ephemeral_state =
  es_received_at :: instant
  es_revealed_until :: "instant option"

datatype display_kind = DisplayMessage str str | DisplaySystem str

record display_msg =
  dm_ts_ms :: u64
  dm_kind :: display_kind
  dm_ephemeral :: "ephemeral_state option"

record ui_state =
  ui_username :: str
  ui_user_id :: uuid
  ui_addr :: socket_addr
  ui_room :: str
  ui_input :: str
  ui_messages :: "display_msg list"
  ui_scroll :: nat
  ui_last_inner_h :: nat
  ui_next_counter :: u64
  ui_seen_counters :: "uuid \<rightharpoonup> u64"

definition ui_state_new :: "str \<Rightarrow> uuid \<Rightarrow> socket_addr \<Rightarrow> str \<Rightarrow> ui_state" where
  "ui_state_new username user_id addr room =
     \<lparr>ui_username = username, ui_user_id = user_id, ui_addr = addr, ui_room = room,
      ui_input = [], ui_messages = [], ui_scroll = 0, ui_last_inner_h = 0, ui_next_counter = 1,
      ui_seen_counters = Map.empty\<rparr>"

section \<open>Operations\<close>

definition try_accept_counter :: "uuid \<Rightarrow> u64 \<Rightarrow> ui_state \<Rightarrow> bool \<times> ui_state" where
  "try_accept_counter sender counter s =
     (let seen = (case ui_seen_counters s sender of
                    None \<Rightarrow> (ui_seen_counters s)(sender \<mapsto> 0) | Some c \<Rightarrow> ui_seen_counters s);
          entry = the (seen sender)
      in if counter > entry
         then (True, s\<lparr>ui_seen_counters := seen(sender \<mapsto> counter)\<rparr>)
         else (False, s\<lparr>ui_seen_counters := seen\<rparr>))"

definition max_scroll :: "ui_state \<Rightarrow> nat" where
  "max_scroll s = length (ui_messages s) - max (ui_last_inner_h s) 1"

definition clamp_scroll :: "ui_state \<Rightarrow> ui_state" where
  "clamp_scroll s = (if ui_scroll s > max_scroll s then s\<lparr>ui_scroll := max_scroll s\<rparr> else s)"

definition ui_push :: "display_msg \<Rightarrow> ui_state \<Rightarrow> ui_state" where
  "ui_push msg s =
     (let was_capped = (length (ui_messages s) = HISTORY_CAP);
          s = (if was_capped then s\<lparr>ui_messages := tl (ui_messages s)\<rparr> else s);
          s = s\<lparr>ui_messages := ui_messages s @ [msg]\<rparr>;
          s = (if ui_scroll s > 0 \<and> \<not> was_capped then s\<lparr>ui_scroll := ui_scroll s + 1\<rparr> else s)
      in clamp_scroll s)"

definition push_system :: "u64 \<Rightarrow> str \<Rightarrow> ui_state \<Rightarrow> ui_state" where
  "push_system ms t s =
     ui_push \<lparr>dm_ts_ms = ms, dm_kind = DisplaySystem t, dm_ephemeral = None\<rparr> s"

definition clear_messages :: "ui_state \<Rightarrow> ui_state" where
  "clear_messages s = s\<lparr>ui_messages := [], ui_scroll := 0\<rparr>"

definition ttl_live :: "instant \<Rightarrow> display_msg \<Rightarrow> bool" where
  "ttl_live now m =
     (case dm_ephemeral m of
        Some e \<Rightarrow> duration_since now (es_received_at e) < from_millis EPHEMERAL_TTL_MS
      | None \<Rightarrow> True)"

definition remask :: "instant \<Rightarrow> display_msg \<Rightarrow> display_msg" where
  "remask now m =
     (case dm_ephemeral m of
        Some e \<Rightarrow>
          (case es_revealed_until e of
             Some until \<Rightarrow>
               if now \<ge> until then m\<lparr>dm_ephemeral := Some (e\<lparr>es_revealed_until := None\<rparr>)\<rparr> else m
           | None \<Rightarrow> m)
      | None \<Rightarrow> m)"

definition tick_expire_ephemerals :: "instant \<Rightarrow> ui_state \<Rightarrow> ui_state" where
  "tick_expire_ephemerals now s =
     (let before = length (ui_messages s);
          s = s\<lparr>ui_messages := filter (ttl_live now) (ui_messages s)\<rparr>;
          s = (if length (ui_messages s) < before then clamp_scroll s else s)
      in s\<lparr>ui_messages := map (remask now) (ui_messages s)\<rparr>)"

definition reveal_ephemerals :: "instant \<Rightarrow> ui_state \<Rightarrow> ui_state" where
  "reveal_ephemerals now s =
     (let until = now + from_millis EPHEMERAL_REVEAL_MS
      in s\<lparr>ui_messages := map (\<lambda>m. case dm_ephemeral m of
             Some e \<Rightarrow> m\<lparr>dm_ephemeral := Some (e\<lparr>es_revealed_until := Some until\<rparr>)\<rparr>
           | None \<Rightarrow> m) (ui_messages s)\<rparr>)"

definition scroll_up :: "nat \<Rightarrow> ui_state \<Rightarrow> ui_state" where
  "scroll_up n s = clamp_scroll (s\<lparr>ui_scroll := usize_saturating_add (ui_scroll s) n\<rparr>)"

definition scroll_down :: "nat \<Rightarrow> ui_state \<Rightarrow> ui_state" where
  "scroll_down n s = s\<lparr>ui_scroll := ui_scroll s - n\<rparr>"

definition scroll_to_latest :: "ui_state \<Rightarrow> ui_state" where
  "scroll_to_latest s = s\<lparr>ui_scroll := 0\<rparr>"

definition scroll_to_oldest :: "ui_state \<Rightarrow> ui_state" where
  "scroll_to_oldest s =
     s\<lparr>ui_scroll := length (ui_messages s) - max (ui_last_inner_h s) 1\<rparr>"

section \<open>Contracts\<close>

lemma ui_messages_push [ui_simps]:
  "ui_messages (ui_push m s) =
     (if length (ui_messages s) = HISTORY_CAP then tl (ui_messages s) else ui_messages s) @ [m]"
  by (simp add: ui_push_def clamp_scroll_def Let_def)

interpretation scrollback: bounded_log ui_push ui_messages HISTORY_CAP
  by unfold_locales (simp_all add: ui_simps HISTORY_CAP_def)

definition seen_counter :: "ui_state \<Rightarrow> uuid \<Rightarrow> u64" where
  "seen_counter s u = (case ui_seen_counters s u of None \<Rightarrow> 0 | Some c \<Rightarrow> c)"

interpretation client_replay: counter_register try_accept_counter seen_counter "\<lambda>_ _. True"
  by unfold_locales
    (auto simp: try_accept_counter_def seen_counter_def Let_def split: option.splits)

section \<open>A well-formed pane\<close>

text \<open>The pane holds at most \<open>HISTORY_CAP\<close> messages and never scrolls past the oldest screenful.\<close>

definition pane_ok :: "ui_state \<Rightarrow> bool" where
  "pane_ok s \<longleftrightarrow> length (ui_messages s) \<le> HISTORY_CAP \<and> ui_scroll s \<le> max_scroll s"

lemma clamp_scroll_simps [ui_simps]:
  "ui_messages (clamp_scroll s) = ui_messages s"
  "ui_last_inner_h (clamp_scroll s) = ui_last_inner_h s"
  "ui_scroll (clamp_scroll s) = min (ui_scroll s) (max_scroll s)"
  "max_scroll (clamp_scroll s) = max_scroll s"
  by (simp_all add: clamp_scroll_def max_scroll_def min_def)

lemma pane_ok_new: "pane_ok (ui_state_new name u a r)"
  by (simp add: pane_ok_def ui_state_new_def)

lemma pane_ok_clamp: "length (ui_messages s) \<le> HISTORY_CAP \<Longrightarrow> pane_ok (clamp_scroll s)"
  by (simp add: pane_ok_def ui_simps)

lemma pane_ok_push:
  assumes "pane_ok s"
  shows "pane_ok (ui_push m s)"
proof -
  have "length (ui_messages (ui_push m s)) \<le> HISTORY_CAP"
    using assms scrollback.length_items_push by (simp add: pane_ok_def)
  then show ?thesis by (simp add: pane_ok_def ui_push_def Let_def ui_simps)
qed

lemma pane_ok_push_system: "pane_ok s \<Longrightarrow> pane_ok (push_system t x s)"
  by (simp add: push_system_def pane_ok_push)

lemma pane_ok_clear: "pane_ok s \<Longrightarrow> pane_ok (clear_messages s)"
  by (simp add: pane_ok_def clear_messages_def)

lemma pane_ok_tick:
  assumes "pane_ok s"
  shows "pane_ok (tick_expire_ephemerals now s)"
proof -
  let ?k = "filter (ttl_live now) (ui_messages s)"
  have le: "length ?k \<le> length (ui_messages s)" by simp
  have "length ?k = length (ui_messages s)" if "\<not> length ?k < length (ui_messages s)"
    using that le by linarith
  with assms le show ?thesis
    by (auto simp: pane_ok_def tick_expire_ephemerals_def Let_def ui_simps max_scroll_def
        clamp_scroll_def)
qed

lemma pane_ok_reveal: "pane_ok s \<Longrightarrow> pane_ok (reveal_ephemerals now s)"
  by (simp add: pane_ok_def reveal_ephemerals_def Let_def max_scroll_def)

lemma pane_ok_scroll:
  assumes "pane_ok s"
  shows "pane_ok (scroll_up n s)" and "pane_ok (scroll_down n s)" and "pane_ok (scroll_to_latest s)"
    and "pane_ok (scroll_to_oldest s)"
  using assms
  by (auto simp: pane_ok_def scroll_up_def scroll_down_def scroll_to_latest_def
      scroll_to_oldest_def max_scroll_def ui_simps)

lemma pane_ok_accept: "pane_ok s \<Longrightarrow> pane_ok (snd (try_accept_counter u c s))"
  by (simp add: pane_ok_def try_accept_counter_def Let_def max_scroll_def)

lemmas pane_ok_intros = pane_ok_push pane_ok_push_system pane_ok_clear pane_ok_tick pane_ok_reveal
  pane_ok_scroll pane_ok_accept

section \<open>Ephemeral messages\<close>

lemma ui_messages_tick [ui_simps]:
  "ui_messages (tick_expire_ephemerals now s) =
     map (remask now) (filter (ttl_live now) (ui_messages s))"
  by (simp add: tick_expire_ephemerals_def Let_def ui_simps)

lemma remask_kind [simp]: "dm_kind (remask now m) = dm_kind m" "dm_ts_ms (remask now m) = dm_ts_ms m"
  by (simp_all add: remask_def split: option.split)

lemma remask_plain: "dm_ephemeral m = None \<Longrightarrow> remask now m = m"
  by (simp add: remask_def)

lemma remask_ephemeral:
  "dm_ephemeral m = Some e \<Longrightarrow>
     \<exists>e'. dm_ephemeral (remask now m) = Some e' \<and> es_received_at e' = es_received_at e \<and>
       (\<forall>t. es_revealed_until e' = Some t \<longrightarrow> now < t \<and> es_revealed_until e = Some t)"
  by (auto simp: remask_def not_le split: option.split)

lemma tick_keeps_plain:
  "filter (\<lambda>m. dm_ephemeral m = None) (ui_messages (tick_expire_ephemerals now s)) =
     filter (\<lambda>m. dm_ephemeral m = None) (ui_messages s)"
proof -
  have "filter (\<lambda>m. dm_ephemeral m = None) (map (remask now) (filter (ttl_live now) ms)) =
      filter (\<lambda>m. dm_ephemeral m = None) ms" for ms
  proof (induction ms)
    case (Cons m ms)
    show ?case
    proof (cases "dm_ephemeral m")
      case None
      with Cons show ?thesis by (simp add: ttl_live_def remask_plain)
    next
      case (Some e)
      then have "dm_ephemeral (remask now m) \<noteq> None" using remask_ephemeral by blast
      with Cons Some show ?thesis by auto
    qed
  qed simp
  then show ?thesis by (simp add: ui_simps)
qed

lemma tick_expires:
  assumes "m \<in> set (ui_messages (tick_expire_ephemerals now s))" and "dm_ephemeral m = Some e"
  shows "now < es_received_at e + from_millis EPHEMERAL_TTL_MS"
    and "es_revealed_until e = Some t \<Longrightarrow> now < t"
proof -
  from assms(1) obtain m0 where m0: "m = remask now m0" "ttl_live now m0" "m0 \<in> set (ui_messages s)"
    by (auto simp: ui_simps)
  with assms(2) obtain e0 where e0: "dm_ephemeral m0 = Some e0"
    by (cases "dm_ephemeral m0") (auto simp: remask_plain)
  from remask_ephemeral [OF this, of now] m0 assms(2)
  have e: "es_received_at e = es_received_at e0" "\<forall>t. es_revealed_until e = Some t \<longrightarrow> now < t"
    by auto
  from m0(2) e0 have "duration_since now (es_received_at e0) < from_millis EPHEMERAL_TTL_MS"
    by (simp add: ttl_live_def)
  with e(1) show "now < es_received_at e + from_millis EPHEMERAL_TTL_MS"
    by (simp add: duration_since_def from_millis_def EPHEMERAL_TTL_MS_def)
  show "es_revealed_until e = Some t \<Longrightarrow> now < t" using e(2) by blast
qed

text \<open>Whole seconds left. The cast from 128-bit milliseconds to \<^verbatim>\<open>u64\<close> reduces modulo \<open>2 ^ 64\<close>.\<close>

definition ephemeral_secs_left :: "instant \<Rightarrow> instant \<Rightarrow> nat" where
  "ephemeral_secs_left received_at now =
     (let elapsed_ms = as_millis (duration_since now received_at) mod 2 ^ 64
      in (EPHEMERAL_TTL_MS - elapsed_ms + 999) div 1000)"

lemma secs_left_bounds:
  "ephemeral_secs_left t now \<le> 30"
  "now < t + from_millis EPHEMERAL_TTL_MS \<Longrightarrow> 1 \<le> ephemeral_secs_left t now"
proof -
  show "ephemeral_secs_left t now \<le> 30"
    by (simp add: ephemeral_secs_left_def EPHEMERAL_TTL_MS_def Let_def)
  assume "now < t + from_millis EPHEMERAL_TTL_MS"
  then have "as_millis (duration_since now t) < 30000"
    by (simp add: as_millis_def duration_since_def from_millis_def EPHEMERAL_TTL_MS_def)
  then show "1 \<le> ephemeral_secs_left t now"
    by (simp add: ephemeral_secs_left_def EPHEMERAL_TTL_MS_def Let_def)
qed

end
