(* ===== verification/Utf8.thy ===== *)
theory Utf8
  imports Prelude
begin

text \<open>
  Decoding of UTF-8 with replacement, \<^verbatim>\<open>String::from_utf8_lossy\<close> of the standard library, which the
  client applies to decrypted text. Every maximal invalid part becomes one replacement character.
  Decoding inverts the encoding on every string of Unicode scalar values.
\<close>

definition REPLACEMENT :: nat where "REPLACEMENT = 65533"

definition cont_byte :: "nat \<Rightarrow> bool" where
  "cont_byte b \<longleftrightarrow> 128 \<le> b \<and> b \<le> 191"

text \<open>The second byte of a three or four byte sequence is restricted by the first.\<close>

definition second_of_3 :: "nat \<Rightarrow> nat \<Rightarrow> bool" where
  "second_of_3 a b \<longleftrightarrow>
     a = 224 \<and> 160 \<le> b \<and> b \<le> 191 \<or> 225 \<le> a \<and> a \<le> 236 \<and> cont_byte b \<or>
     a = 237 \<and> 128 \<le> b \<and> b \<le> 159 \<or> 238 \<le> a \<and> a \<le> 239 \<and> cont_byte b"

definition second_of_4 :: "nat \<Rightarrow> nat \<Rightarrow> bool" where
  "second_of_4 a b \<longleftrightarrow>
     a = 240 \<and> 144 \<le> b \<and> b \<le> 191 \<or> 241 \<le> a \<and> a \<le> 243 \<and> cont_byte b \<or>
     a = 244 \<and> 128 \<le> b \<and> b \<le> 143"

text \<open>One step: a character, and how many bytes it used up.\<close>

definition decode_step :: "nat list \<Rightarrow> nat \<times> nat" where
  "decode_step bs =
     (case bs of
        [] \<Rightarrow> (REPLACEMENT, 1)
      | a # bs \<Rightarrow>
          if a < 128 then (a, 1)
          else if 194 \<le> a \<and> a \<le> 223 then
            (case bs of
               b # _ \<Rightarrow> if cont_byte b then ((a - 192) * 64 + (b - 128), 2) else (REPLACEMENT, 1)
             | [] \<Rightarrow> (REPLACEMENT, 1))
          else if 224 \<le> a \<and> a \<le> 239 then
            (case bs of
               b # bs \<Rightarrow>
                 if \<not> second_of_3 a b then (REPLACEMENT, 1)
                 else (case bs of
                    c # _ \<Rightarrow>
                      if cont_byte c then ((a - 224) * 4096 + (b - 128) * 64 + (c - 128), 3)
                      else (REPLACEMENT, 2)
                  | [] \<Rightarrow> (REPLACEMENT, 2))
             | [] \<Rightarrow> (REPLACEMENT, 1))
          else if 240 \<le> a \<and> a \<le> 244 then
            (case bs of
               b # bs \<Rightarrow>
                 if \<not> second_of_4 a b then (REPLACEMENT, 1)
                 else (case bs of
                    c # bs \<Rightarrow>
                      if \<not> cont_byte c then (REPLACEMENT, 2)
                      else (case bs of
                         d # _ \<Rightarrow>
                           if cont_byte d
                           then ((a - 240) * 262144 + (b - 128) * 4096 + (c - 128) * 64 + (d - 128), 4)
                           else (REPLACEMENT, 3)
                       | [] \<Rightarrow> (REPLACEMENT, 3))
                  | [] \<Rightarrow> (REPLACEMENT, 2))
             | [] \<Rightarrow> (REPLACEMENT, 1))
          else (REPLACEMENT, 1))"

lemma decode_step_pos: "0 < snd (decode_step bs)"
  by (auto simp: decode_step_def split: list.split)

function decode_lossy :: "nat list \<Rightarrow> str" where
  "decode_lossy bs =
     (if bs = [] then [] else fst (decode_step bs) # decode_lossy (drop (snd (decode_step bs)) bs))"
  by pat_completeness auto
termination
  by (relation "measure length") (use decode_step_pos in auto)

declare decode_lossy.simps [simp del]

definition from_utf8_lossy :: "bytes \<Rightarrow> str" where
  "from_utf8_lossy bs = decode_lossy (map unat bs)"

section \<open>Decoding inverts encoding\<close>

text \<open>A Unicode scalar value: what a Rust \<^verbatim>\<open>char\<close> holds.\<close>

definition scalar :: "nat \<Rightarrow> bool" where
  "scalar c \<longleftrightarrow> c < 1114112 \<and> \<not> (55296 \<le> c \<and> c < 57344)"

definition encode_nat :: "nat \<Rightarrow> nat list" where
  "encode_nat c =
     (if c < 128 then [c]
      else if c < 2048 then [192 + c div 64, 128 + c mod 64]
      else if c < 65536 then [224 + c div 4096, 128 + c div 64 mod 64, 128 + c mod 64]
      else [240 + c div 262144 mod 8, 128 + c div 4096 mod 64, 128 + c div 64 mod 64, 128 + c mod 64])"

lemma unat_byte: "n < 256 \<Longrightarrow> unat (of_nat n :: byte) = n"
  by (simp add: unat_of_nat)

lemma unat_utf8_char: "c < 1114112 \<Longrightarrow> map unat (utf8_char c) = encode_nat c"
proof -
  assume c: "c < 1114112"
  have "128 + k mod 64 < 256" for k :: nat
    using mod_less_divisor [of 64 k] by linarith
  moreover have "192 + c div 64 < 256" if "c < 2048" using that by linarith
  moreover have "224 + c div 4096 < 256" if "c < 65536" using that by linarith
  moreover have "240 + c div 262144 mod 8 < 256"
    using mod_less_divisor [of 8 "c div 262144"] by linarith
  ultimately show ?thesis
    by (simp add: utf8_char_def encode_nat_def unat_byte del: of_nat_add of_nat_mult)
qed

lemma split_64: "c div 64 * 64 + c mod 64 = (c :: nat)"
  by simp

lemma split_4096: "c div 4096 * 4096 + c div 64 mod 64 * 64 + c mod 64 = (c :: nat)"
proof -
  have "c div 4096 = c div 64 div 64" by (simp add: div_mult2_eq [symmetric])
  then show ?thesis
    using div_mult_mod_eq [of "c div 64" 64] div_mult_mod_eq [of c 64] by linarith
qed

lemma split_262144:
  "c div 262144 * 262144 + c div 4096 mod 64 * 4096 + c div 64 mod 64 * 64 + c mod 64 = (c :: nat)"
proof -
  have "c div 262144 = c div 4096 div 64" by (simp add: div_mult2_eq [symmetric])
  then show ?thesis
    using div_mult_mod_eq [of "c div 4096" 64] split_4096 [of c] by linarith
qed

lemma second_of_3_I:
  "a < 16 \<Longrightarrow> b < 64 \<Longrightarrow> a = 0 \<longrightarrow> 32 \<le> b \<Longrightarrow> a = 13 \<longrightarrow> b < 32 \<Longrightarrow> second_of_3 (224 + a) (128 + b)"
  unfolding second_of_3_def cont_byte_def by presburger

lemma second_of_4_I:
  "a \<le> 4 \<Longrightarrow> b < 64 \<Longrightarrow> a = 0 \<longrightarrow> 16 \<le> b \<Longrightarrow> a = 4 \<longrightarrow> b < 16 \<Longrightarrow> second_of_4 (240 + a) (128 + b)"
  unfolding second_of_4_def cont_byte_def by presburger

lemma cont_byte_I: "b < 64 \<Longrightarrow> cont_byte (128 + b)"
  by (simp add: cont_byte_def)

lemma decode_encode:
  assumes "scalar c"
  shows "decode_step (encode_nat c @ bs) = (c, length (encode_nat c))"
proof -
  have m: "k mod 64 < 64" for k :: nat by simp
  consider (one) "c < 128" | (two) "128 \<le> c" "c < 2048" | (three) "2048 \<le> c" "c < 65536"
    | (four) "65536 \<le> c" by linarith
  then show ?thesis
  proof cases
    case one
    then show ?thesis by (simp add: decode_step_def encode_nat_def)
  next
    case two
    have enc: "encode_nat c = [192 + c div 64, 128 + c mod 64]"
      using two by (simp add: encode_nat_def)
    have "194 \<le> 192 + c div 64" "192 + c div 64 \<le> 223" using two by linarith+
    moreover have "cont_byte (128 + c mod 64)" using m [of c] by (simp add: cont_byte_def)
    ultimately show ?thesis using split_64 [of c] unfolding enc decode_step_def by simp
  next
    case three
    let ?a = "c div 4096" and ?b = "c div 64 mod 64" and ?c = "c mod 64"
    have a: "?a < 16" using three by linarith
    have s: "?a * 4096 + ?b * 64 + ?c = c" by (rule split_4096)
    have "32 \<le> ?b" if "?a = 0" using three s m [of c] that by linarith
    moreover have "?b < 32" if "?a = 13"
      using assms three s m [of c] that by (simp add: scalar_def) linarith
    ultimately have "second_of_3 (224 + ?a) (128 + ?b)"
      by (intro second_of_3_I a m; simp)
    moreover have "encode_nat c = [224 + ?a, 128 + ?b, 128 + ?c]"
      using three by (simp add: encode_nat_def)
    ultimately show ?thesis using a s cont_byte_I [OF m, of c] by (simp add: decode_step_def)
  next
    case four
    let ?a = "c div 262144" and ?b = "c div 4096 mod 64" and ?c = "c div 64 mod 64" and ?d = "c mod 64"
    have a: "?a \<le> 4" using assms by (simp add: scalar_def) linarith
    have s: "?a * 262144 + ?b * 4096 + ?c * 64 + ?d = c" by (rule split_262144)
    have "16 \<le> ?b" if "?a = 0"
      using four s m [of c] m [of "c div 64"] that by linarith
    moreover have "?b < 16" if "?a = 4"
      using assms s that unfolding scalar_def by linarith
    ultimately have "second_of_4 (240 + ?a) (128 + ?b)"
      by (intro second_of_4_I a m; simp)
    moreover have "?a mod 8 = ?a" using a by simp
    then have "encode_nat c = [240 + ?a, 128 + ?b, 128 + ?c, 128 + ?d]"
      using four by (simp add: encode_nat_def)
    ultimately show ?thesis
      using a s cont_byte_I [OF m, of c] cont_byte_I [OF m, of "c div 64"] by (simp add: decode_step_def)
  qed
qed

lemma from_utf8_lossy_utf8:
  "\<forall>c \<in> set s. scalar c \<Longrightarrow> from_utf8_lossy (utf8 s) = s"
proof (induction s)
  case (Cons c s)
  let ?bs = "map unat (utf8 s)"
  have c: "scalar c" using Cons.prems by simp
  have bytes: "map unat (utf8 (c # s)) = encode_nat c @ ?bs"
    using unat_utf8_char c by (simp add: scalar_def)
  have "encode_nat c \<noteq> []" by (simp add: encode_nat_def)
  then have "decode_lossy (encode_nat c @ ?bs) = c # decode_lossy ?bs"
    by (subst decode_lossy.simps) (simp add: decode_encode [OF c])
  with Cons bytes show ?case by (simp add: from_utf8_lossy_def)
qed (simp add: from_utf8_lossy_def decode_lossy.simps)

section \<open>Text\<close>

text \<open>What a Rust \<^verbatim>\<open>str\<close> holds. Decoding always yields it.\<close>

definition text_ok :: "str \<Rightarrow> bool" where
  "text_ok s \<longleftrightarrow> (\<forall>c \<in> set s. scalar c)"

lemma text_ok_simps [simp]:
  "text_ok []" "text_ok (c # s) \<longleftrightarrow> scalar c \<and> text_ok s" "text_ok (s @ t) \<longleftrightarrow> text_ok s \<and> text_ok t"
  by (auto simp: text_ok_def)

lemma text_ok_subset: "set s \<subseteq> set t \<Longrightarrow> text_ok t \<Longrightarrow> text_ok s"
  by (auto simp: text_ok_def)

lemma text_ok_ascii: "(\<And>c. c \<in> set s \<Longrightarrow> c < 128) \<Longrightarrow> text_ok s"
  by (fastforce simp: text_ok_def scalar_def)

lemma text_ok_lit: "text_ok (lit s)"
proof (induction s)
  case (Cons c s)
  have "of_char c < (256 :: nat)" by simp
  then have "scalar (of_char c)" unfolding scalar_def by linarith
  with Cons show ?case by simp
qed simp

lemma scalar_decoded:
  "scalar REPLACEMENT" "a < 128 \<Longrightarrow> scalar a"
  "a \<le> 223 \<Longrightarrow> cont_byte b \<Longrightarrow> scalar ((a - 192) * 64 + (b - 128))"
  "second_of_3 a b \<Longrightarrow> cont_byte c \<Longrightarrow> scalar ((a - 224) * 4096 + (b - 128) * 64 + (c - 128))"
  "second_of_4 a b \<Longrightarrow> cont_byte c \<Longrightarrow> cont_byte d \<Longrightarrow>
     scalar ((a - 240) * 262144 + (b - 128) * 4096 + (c - 128) * 64 + (d - 128))"
  unfolding scalar_def REPLACEMENT_def cont_byte_def second_of_3_def second_of_4_def by (simp_all; linarith)+

lemma decode_step_scalar: "scalar (fst (decode_step bs))"
  by (simp add: decode_step_def scalar_decoded split: list.split)

lemma text_ok_decode: "text_ok (decode_lossy bs)"
proof (induction bs rule: decode_lossy.induct)
  case (1 bs)
  then show ?case
    using decode_step_scalar [of bs] by (subst decode_lossy.simps) (auto simp: split_def)
qed

lemma text_ok_lossy: "text_ok (from_utf8_lossy bs)"
  by (simp add: from_utf8_lossy_def text_ok_decode)

end
