(* ===== verification/UiKeys.thy ===== *)
theory UiKeys
  imports Ui Utf8
begin

text \<open>
  \<^verbatim>\<open>src/client/ui.rs\<close>, second part: the key handler with the outgoing messages it builds, and the
  decryption of an incoming message for display. A key event is the crossterm crate's, reduced to
  what the handler looks at.
\<close>

section \<open>Keys\<close>

datatype key_code =
    KEnter | KBackspace | KUp | KDown | KPageUp | KPageDown | KHome | KEnd | KChar nat | KOther

record key_event =
  ke_press :: bool
  ke_control :: bool
  ke_code :: key_code

datatype key_action = NoAction | SendFrame client_frame | Quit

text \<open>What one key press reads: the clock, the wall clock in milliseconds for the message and for an
  error notice, the random nonce.\<close>

record key_inputs =
  ki_now :: instant
  ki_now_ms :: u64
  ki_notice_ms :: u64
  ki_random :: "bytes option"

text \<open>The line of an enter key: the commands, the ephemeral prefix, the counter, the sealing.\<close>

definition submit_line ::
  "aead_ops \<Rightarrow> key_inputs \<Rightarrow> bytes \<Rightarrow> str \<Rightarrow> ui_state \<Rightarrow> key_action \<times> ui_state" where
  "submit_line ae ki room_key line s =
     (let trimmed = trim_end line in
      if trimmed = [] then (NoAction, s)
      else if trimmed = lit ''/c'' \<or> trimmed = lit ''/clear'' then (SendFrame Clear, s)
      else if trimmed = lit ''/q'' \<or> trimmed = lit ''/quit'' then (Quit, s)
      else
        let prefixed = (case strip_prefix (lit ''/s '') trimmed of
                          Some rest \<Rightarrow> Some rest
                        | None \<Rightarrow> strip_prefix (lit ''/secret '') trimmed);
            body_ephemeral = (case prefixed of
                Some rest \<Rightarrow>
                  let rest = trim rest in if rest = [] then None else Some (rest, True)
              | None \<Rightarrow> Some (trimmed, False))
        in case body_ephemeral of
             None \<Rightarrow> (NoAction, s)
           | Some (body, ephemeral) \<Rightarrow>
               let counter = ui_next_counter s;
                   s = s\<lparr>ui_next_counter := u64_saturating_add (ui_next_counter s) 1\<rparr>;
                   ad = \<lparr>ad_from = ui_user_id s, ad_username = ui_username s, ad_counter = counter,
                         ad_timestamp_ms = ki_now_ms ki, ad_ephemeral = ephemeral\<rparr>
               in case seal ae (ki_random ki) room_key (utf8 body) ad of
                    Inr ct \<Rightarrow> (SendFrame (ClientMessage ad ct), s)
                  | Inl _ \<Rightarrow> (NoAction, push_system (ki_notice_ms ki) (lit ''encryption failed'') s))"

definition page_step :: "ui_state \<Rightarrow> nat" where
  "page_step s = max (ui_last_inner_h s - 1) 1"

definition handle_key ::
  "aead_ops \<Rightarrow> key_inputs \<Rightarrow> bytes \<Rightarrow> key_event \<Rightarrow> ui_state \<Rightarrow> key_action \<times> ui_state" where
  "handle_key ae ki room_key key s =
     (if \<not> ke_press key then (NoAction, s)
      else if ke_control key \<and> ke_code key = KChar (of_char CHR ''c'') then (Quit, s)
      else if ke_control key \<and> ke_code key = KChar (of_char CHR ''r'')
        then (NoAction, reveal_ephemerals (ki_now ki) s)
      else
        case ke_code key of
          KEnter \<Rightarrow> submit_line ae ki room_key (ui_input s) (s\<lparr>ui_input := []\<rparr>)
        | KBackspace \<Rightarrow> (NoAction, s\<lparr>ui_input := butlast (ui_input s)\<rparr>)
        | KUp \<Rightarrow> (NoAction, scroll_up 1 s)
        | KDown \<Rightarrow> (NoAction, scroll_down 1 s)
        | KPageUp \<Rightarrow> (NoAction, scroll_up (page_step s) s)
        | KPageDown \<Rightarrow> (NoAction, scroll_down (page_step s) s)
        | KHome \<Rightarrow> (NoAction, scroll_to_oldest s)
        | KEnd \<Rightarrow> (NoAction, scroll_to_latest s)
        | KChar c \<Rightarrow> (NoAction, s\<lparr>ui_input := ui_input s @ [c]\<rparr>)
        | KOther \<Rightarrow> (NoAction, s))"

definition decrypt_to_display ::
  "aead_ops \<Rightarrow> instant \<Rightarrow> bytes \<Rightarrow> room_message \<Rightarrow> display_msg" where
  "decrypt_to_display ae now room_key m =
     (let ephemeral =
            (if ad_ephemeral (rm_ad m)
             then Some \<lparr>es_received_at = now, es_revealed_until = None\<rparr> else None)
      in case room_open ae room_key (rm_ciphertext m) (rm_ad m) of
           Inr pt \<Rightarrow>
             \<lparr>dm_ts_ms = ad_timestamp_ms (rm_ad m),
              dm_kind = DisplayMessage (rm_username m) (from_utf8_lossy pt),
              dm_ephemeral = ephemeral\<rparr>
         | Inl _ \<Rightarrow>
             \<lparr>dm_ts_ms = ad_timestamp_ms (rm_ad m),
              dm_kind = DisplaySystem (lit ''[decryption failed] '' @ rm_username m),
              dm_ephemeral = None\<rparr>)"

section \<open>What a line turns into\<close>

text \<open>A line is empty, a command, or a text with a flag. The prefix must be followed by text: the
  trimmed line cannot end in the prefix's space, so the empty-body case never arises.\<close>

definition line_body :: "str \<Rightarrow> str \<times> bool" where
  "line_body trimmed =
     (case strip_prefix (lit ''/s '') trimmed of
        Some rest \<Rightarrow> (trim rest, True)
      | None \<Rightarrow>
          (case strip_prefix (lit ''/secret '') trimmed of
             Some rest \<Rightarrow> (trim rest, True)
           | None \<Rightarrow> (trimmed, False)))"

definition is_command :: "str \<Rightarrow> bool" where
  "is_command t \<longleftrightarrow> t \<in> {lit ''/c'', lit ''/clear'', lit ''/q'', lit ''/quit''}"

lemma trim_end_prefix_body:
  assumes "trim_end line = p @ rest" and "p \<noteq> []" and "is_whitespace (last p)"
  shows "trim rest \<noteq> []"
proof
  assume "trim rest = []"
  then have ws: "\<forall>c \<in> set rest. is_whitespace c" by (simp add: trim_eq_Nil)
  have "last (trim_end line) = (if rest = [] then last p else last rest)"
    using assms by simp
  moreover have "trim_end line \<noteq> []" using assms by simp
  ultimately show False
    using trim_end_last [of line] ws assms by (auto split: if_splits)
qed

lemma prefix_space: "is_whitespace (last (lit ''/s ''))" "is_whitespace (last (lit ''/secret ''))"
  by (simp_all add: is_whitespace_def)

lemma body_nonempty:
  assumes "strip_prefix (lit ''/s '') (trim_end line) = Some rest \<or>
    strip_prefix (lit ''/secret '') (trim_end line) = Some rest"
  shows "trim rest \<noteq> []"
  using assms trim_end_prefix_body [of line "lit ''/s ''" rest]
    trim_end_prefix_body [of line "lit ''/secret ''" rest] prefix_space
  unfolding strip_prefix_Some by (auto simp: lit_def)

lemma submit_line_send:
  assumes "trim_end line \<noteq> []" and "\<not> is_command (trim_end line)"
  shows "submit_line ae ki key line s =
    (let (body, ephemeral) = line_body (trim_end line);
         s' = s\<lparr>ui_next_counter := u64_saturating_add (ui_next_counter s) 1\<rparr>;
         ad = \<lparr>ad_from = ui_user_id s, ad_username = ui_username s, ad_counter = ui_next_counter s,
               ad_timestamp_ms = ki_now_ms ki, ad_ephemeral = ephemeral\<rparr>
     in case seal ae (ki_random ki) key (utf8 body) ad of
          Inr ct \<Rightarrow> (SendFrame (ClientMessage ad ct), s')
        | Inl _ \<Rightarrow> (NoAction, push_system (ki_notice_ms ki) (lit ''encryption failed'') s'))"
proof -
  obtain body ephemeral where b: "line_body (trim_end line) = (body, ephemeral)"
    by (cases "line_body (trim_end line)")
  have "(case (case strip_prefix (lit ''/s '') (trim_end line) of
             Some rest \<Rightarrow> Some rest | None \<Rightarrow> strip_prefix (lit ''/secret '') (trim_end line)) of
           Some rest \<Rightarrow> let rest = trim rest in if rest = [] then None else Some (rest, True)
         | None \<Rightarrow> Some (trim_end line, False)) = Some (body, ephemeral)"
    using b body_nonempty [of line]
    by (auto simp: line_body_def Let_def simp del: lit_simps split: option.splits)
  with assms b show ?thesis
    unfolding submit_line_def is_command_def by (simp add: Let_def del: lit_simps split: sum.split)
qed

lemma submit_line_command:
  "trim_end line = [] \<Longrightarrow> submit_line ae ki key line s = (NoAction, s)"
  "trim_end line \<in> {lit ''/c'', lit ''/clear''} \<Longrightarrow> submit_line ae ki key line s = (SendFrame Clear, s)"
  "trim_end line \<in> {lit ''/q'', lit ''/quit''} \<Longrightarrow> submit_line ae ki key line s = (Quit, s)"
  by (auto simp: submit_line_def Let_def)

text \<open>A sent message carries the session's identity and the next counter.\<close>

lemma submit_line_message:
  assumes "submit_line ae ki key line s = (SendFrame (ClientMessage ad ct), s')"
  shows "ad_from ad = ui_user_id s" and "ad_username ad = ui_username s"
    and "ad_counter ad = ui_next_counter s"
    and "ui_next_counter s' = u64_saturating_add (ui_next_counter s) 1"
    and "ui_user_id s' = ui_user_id s" and "ui_username s' = ui_username s"
    and "seal ae (ki_random ki) key (utf8 (fst (line_body (trim_end line)))) ad = Inr ct"
    and "ad_ephemeral ad = snd (line_body (trim_end line))"
proof -
  have "trim_end line \<noteq> []" "\<not> is_command (trim_end line)"
    using assms submit_line_command [of line ae ki key s] by (auto simp: is_command_def simp del: lit_simps)
  from submit_line_send [OF this, of ae ki key s] assms
  show "ad_from ad = ui_user_id s" "ad_username ad = ui_username s"
    "ad_counter ad = ui_next_counter s"
    "ui_next_counter s' = u64_saturating_add (ui_next_counter s) 1"
    "ui_user_id s' = ui_user_id s" "ui_username s' = ui_username s"
    "seal ae (ki_random ki) key (utf8 (fst (line_body (trim_end line)))) ad = Inr ct"
    "ad_ephemeral ad = snd (line_body (trim_end line))"
    by (auto simp: Let_def split: prod.splits sum.splits)
qed

section \<open>Text survives the round trip\<close>

lemma room_open_seal:
  assumes "aead_correct ae" and "seal ae random key pt ad = Inr out"
    and "\<And>nonce. random = Some nonce \<Longrightarrow> length nonce = NONCE_LEN"
  shows "room_open ae key out ad = Inr pt"
  using assms(2)
proof (rule seal_InrD)
  fix nonce aad ct
  assume "random = Some nonce" "ae_ad_to_vec ae ad = Some aad" "ae_encrypt ae key nonce pt aad = Some ct"
    "out = nonce @ ct"
  with assms(1,3) show ?thesis by (simp add: room_open_nonce_ct aead_correct_def)
qed

lemma display_sealed:
  assumes "aead_correct ae" and "seal ae random key (utf8 body) (rm_ad m) = Inr (rm_ciphertext m)"
    and "\<And>nonce. random = Some nonce \<Longrightarrow> length nonce = NONCE_LEN" and "\<forall>c \<in> set body. scalar c"
  shows "dm_kind (decrypt_to_display ae now key m) = DisplayMessage (rm_username m) body"
  using room_open_seal [OF assms(1-3)] from_utf8_lossy_utf8 [OF assms(4)]
  by (simp add: decrypt_to_display_def)

section \<open>Keys keep the pane well-formed\<close>

lemma pane_ok_update [simp]:
  "pane_ok (s\<lparr>ui_input := x\<rparr>) = pane_ok s" "pane_ok (s\<lparr>ui_next_counter := c\<rparr>) = pane_ok s"
  by (simp_all add: pane_ok_def max_scroll_def)

lemma pane_ok_submit_line:
  assumes "pane_ok s"
  shows "pane_ok (snd (submit_line ae ki key line s))"
proof (cases "trim_end line = [] \<or> is_command (trim_end line)")
  case True
  then have "snd (submit_line ae ki key line s) = s"
    using submit_line_command [of line ae ki key s] by (auto simp: is_command_def)
  with assms show ?thesis by simp
next
  case False
  with assms show ?thesis
    by (auto simp: submit_line_send Let_def pane_ok_push_system split: prod.split sum.split)
qed

lemma pane_ok_handle_key:
  "pane_ok s \<Longrightarrow> pane_ok (snd (handle_key ae ki key k s))"
  by (simp add: handle_key_def pane_ok_intros pane_ok_submit_line split: key_code.split)

end
