(* ===== verification/AddrText.thy ===== *)
theory AddrText
  imports Ui
begin

text \<open>
  How the standard library writes numbers and socket addresses, which the status line of
  \<^verbatim>\<open>src/client/ui.rs\<close> shows: decimal and lower-case hexadecimal numerals, dotted IPv4 addresses, and
  IPv6 addresses with the longest run of zero segments abbreviated.
\<close>

section \<open>Numerals\<close>

fun dec :: "nat \<Rightarrow> str" where
  "dec n = (if n < 10 then [48 + n] else dec (n div 10) @ [48 + n mod 10])"

declare dec.simps [simp del]

definition hex_digit :: "nat \<Rightarrow> nat" where
  "hex_digit d = (if d < 10 then 48 + d else 87 + d)"

fun hex :: "nat \<Rightarrow> str" where
  "hex n = (if n < 16 then [hex_digit n] else hex (n div 16) @ [hex_digit (n mod 16)])"

declare hex.simps [simp del]

section \<open>Addresses\<close>

fun join_with :: "str \<Rightarrow> str list \<Rightarrow> str" where
  "join_with sep [] = []"
| "join_with sep [x] = x"
| "join_with sep (x # xs) = x @ sep @ join_with sep xs"

definition fmt_ipv4 :: "32 word \<Rightarrow> str" where
  "fmt_ipv4 a =
     join_with (lit ''.'') (map (\<lambda>i. dec (unat (drop_bit (8 * i) a) mod 256)) [3, 2, 1, 0])"

definition segments :: "128 word \<Rightarrow> nat list" where
  "segments a = map (\<lambda>i. unat (drop_bit (16 * i) a) mod 65536) [7, 6, 5, 4, 3, 2, 1, 0]"

text \<open>The first longest run of zeros, as its start and its length: the current run, the longest one,
  and the index of the next segment.\<close>

fun zero_span :: "nat \<times> nat \<Rightarrow> nat \<times> nat \<Rightarrow> nat \<Rightarrow> nat list \<Rightarrow> nat \<times> nat" where
  "zero_span current longest i [] = longest"
| "zero_span current longest i (x # xs) =
     (if x = 0 then
        let start = (if snd current = 0 then i else fst current);
            current = (start, snd current + 1)
        in zero_span current (if snd current > snd longest then current else longest) (i + 1) xs
      else zero_span (0, 0) longest (i + 1) xs)"

definition fmt_subslice :: "nat list \<Rightarrow> str" where
  "fmt_subslice chunk = join_with (lit '':'') (map hex chunk)"

definition fmt_ipv6 :: "128 word \<Rightarrow> str" where
  "fmt_ipv6 a =
     (let ss = segments a in
      if take 6 ss = [0, 0, 0, 0, 0, 65535] then lit ''::ffff:'' @ fmt_ipv4 (ucast a)
      else
        case zero_span (0, 0) (0, 0) 0 ss of
          (start, len) \<Rightarrow>
            if len > 1
            then fmt_subslice (take start ss) @ lit ''::'' @ fmt_subslice (drop (start + len) ss)
            else fmt_subslice ss)"

definition fmt_addr :: "socket_addr \<Rightarrow> str" where
  "fmt_addr addr =
     (case addr of
        SocketV4 ip port \<Rightarrow> fmt_ipv4 ip @ lit '':'' @ dec (unat port)
      | SocketV6 ip port scope \<Rightarrow>
          if scope = 0 then lit ''['' @ fmt_ipv6 ip @ lit '']:'' @ dec (unat port)
          else lit ''['' @ fmt_ipv6 ip @ lit ''%'' @ dec (unat scope) @ lit '']:'' @ dec (unat port))"

section \<open>All of it is ASCII\<close>

lemma ascii_dec: "c \<in> set (dec n) \<Longrightarrow> c < 128"
proof (induction n rule: dec.induct)
  case (1 n)
  have "n mod 10 < 10" by simp
  with 1 show ?case by (subst (asm) (2) dec.simps) (auto split: if_splits)
qed

lemma hex_digit_ascii: "d < 16 \<Longrightarrow> hex_digit d < 128"
  by (simp add: hex_digit_def)

lemma ascii_hex: "c \<in> set (hex n) \<Longrightarrow> c < 128"
proof (induction n rule: hex.induct)
  case (1 n)
  have "n mod 16 < 16" by simp
  with 1 hex_digit_ascii show ?case by (subst (asm) (2) hex.simps) (auto split: if_splits)
qed

lemma set_join_with: "set (join_with sep xs) \<subseteq> set sep \<union> \<Union> (set ` set xs)"
  by (induction sep xs rule: join_with.induct) auto

lemma ascii_fmt_ipv4: "c \<in> set (fmt_ipv4 a) \<Longrightarrow> c < 128"
  using set_join_with [of "lit ''.''"] ascii_dec unfolding fmt_ipv4_def by (fastforce simp: lit_def)

lemma ascii_fmt_subslice: "c \<in> set (fmt_subslice ss) \<Longrightarrow> c < 128"
  using set_join_with [of "lit '':''" "map hex ss"] ascii_hex unfolding fmt_subslice_def
  by (fastforce simp: lit_def)

lemma ascii_fmt_ipv6: "c \<in> set (fmt_ipv6 a) \<Longrightarrow> c < 128"
  using ascii_fmt_ipv4 ascii_fmt_subslice
  by (fastforce simp: fmt_ipv6_def Let_def lit_def split: if_splits prod.splits)

lemma ascii_fmt_addr: "c \<in> set (fmt_addr addr) \<Longrightarrow> c < 128"
  using ascii_fmt_ipv4 ascii_fmt_ipv6 ascii_dec
  by (fastforce simp: fmt_addr_def lit_def split: socket_addr.splits if_splits)

end
