(* ===== verification/UiRender.thy ===== *)
theory UiRender
  imports UiKeys AddrText
begin

text \<open>
  \<^verbatim>\<open>render\<close>, \<^verbatim>\<open>format_line\<close>, \<^verbatim>\<open>fmt_ts\<close> and \<^verbatim>\<open>color_for\<close> of \<^verbatim>\<open>src/client/ui.rs\<close>: which messages the pane
  shows and what stands on their lines. The layout engine and the drawing are the ratatui crate's:
  the height of the messages pane and the corner of the input box are arguments, and a line is the
  list of its styled spans.
\<close>

datatype color =
    Cyan | Green | Magenta | Yellow | Blue | LightCyan | LightGreen | LightMagenta | LightYellow
  | DarkGray | White | Black

record style =
  st_fg :: "color option"
  st_bg :: "color option"
  st_italic :: bool
  st_bold :: bool

definition plain :: style where "plain = \<lparr>st_fg = None, st_bg = None, st_italic = False, st_bold = False\<rparr>"

definition fg :: "color \<Rightarrow> style" where "fg c = plain\<lparr>st_fg := Some c\<rparr>"

type_synonym span = "style \<times> str"

definition PALETTE :: "color list" where
  "PALETTE = [Cyan, Green, Magenta, Yellow, Blue, LightCyan, LightGreen, LightMagenta, LightYellow]"

fun color_hash :: "u32 \<Rightarrow> bytes \<Rightarrow> u32" where
  "color_hash h [] = h"
| "color_hash h (b # bs) = color_hash (h * 31 + ucast b) bs"

definition color_for :: "str \<Rightarrow> color" where
  "color_for username = PALETTE ! (unat (color_hash 0 (utf8 username)) mod length PALETTE)"

text \<open>Decimal output with at least two digits.\<close>

definition dec2 :: "nat \<Rightarrow> str" where
  "dec2 n = (if n < 10 then 48 # dec n else dec n)"

definition fmt_ts :: "u64 \<Rightarrow> str" where
  "fmt_ts ms =
     (let secs = unat ms div 1000;
          h = secs div 3600 mod 24;
          m = secs div 60 mod 60;
          s = secs mod 60
      in dec2 h @ lit '':'' @ dec2 m @ lit '':'' @ dec2 s)"

definition format_line :: "instant \<Rightarrow> display_msg \<Rightarrow> span list" where
  "format_line now m =
     (let ts = fmt_ts (dm_ts_ms m) in
      case dm_kind m of
        DisplayMessage username t \<Rightarrow>
          let body =
                (case dm_ephemeral m of
                   Some e \<Rightarrow>
                     if (case es_revealed_until e of None \<Rightarrow> True | Some u \<Rightarrow> now \<ge> u)
                     then (fg DarkGray, EPHEMERAL_MASK)
                     else ((fg LightYellow)\<lparr>st_italic := True\<rparr>, t)
                 | None \<Rightarrow> (plain, t));
              header =
                (case dm_ephemeral m of
                   Some e \<Rightarrow>
                     username @ lit '' ('' @ dec (ephemeral_secs_left (es_received_at e) now) @ lit ''): ''
                 | None \<Rightarrow> username @ lit '': '')
          in [(fg DarkGray, lit ''['' @ ts @ lit ''] ''),
              ((fg (color_for username))\<lparr>st_bold := True\<rparr>, header), body]
      | DisplaySystem t \<Rightarrow>
          [(fg DarkGray, lit ''['' @ ts @ lit ''] ''), ((fg Yellow)\<lparr>st_italic := True\<rparr>, t)])"

text \<open>What is drawn into the four parts of the screen. \<open>height\<close> is the messages chunk's,
  \<open>(x, y)\<close> the input chunk's corner, \<open>clk i\<close> the instant that \<open>format_line\<close> reads for the line \<open>i\<close>; the
  cursor is computed in 16 bits.\<close>

record view =
  vw_header :: span
  vw_status :: span
  vw_title :: str
  vw_lines :: "span list list"
  vw_input :: str
  vw_cursor :: "u16 \<times> u16"

definition header_line :: span where
  "header_line =
     (plain\<lparr>st_fg := Some White, st_bg := Some Magenta, st_bold := True\<rparr>, lit ''Secure Terminal Chat'')"

definition status_line :: "ui_state \<Rightarrow> span" where
  "status_line s =
     (plain\<lparr>st_fg := Some Black, st_bg := Some Cyan\<rparr>,
      lit '' '' @ ui_username s @ lit '' '' @ [183] @ lit '' #'' @ ui_room s @ lit '' '' @ [183] @ lit '' ''
      @ fmt_addr (ui_addr s) @ lit ''  '' @ [8212] @ lit ''  enter '' @ [183] @ lit '' /(c)lear '' @ [183]
      @ lit '' /(q)uit '' @ [183] @ lit '' /(s)ecret <msg> '' @ [183] @ lit '' ^R reveal'')"

definition visible :: "nat \<Rightarrow> ui_state \<Rightarrow> display_msg list" where
  "visible inner_h s =
     (let len = length (ui_messages s);
          end = len - ui_scroll s;
          start = end - inner_h
      in take (end - start) (drop start (ui_messages s)))"

definition render ::
  "(nat \<Rightarrow> instant) \<Rightarrow> nat \<Rightarrow> u16 \<times> u16 \<Rightarrow> ui_state \<Rightarrow> view \<times> ui_state" where
  "render clk height corner s =
     (let status = status_line s;
          inner_h = height - 2;
          s = clamp_scroll (s\<lparr>ui_last_inner_h := inner_h\<rparr>);
          title =
            (if ui_scroll s > 0
             then lit '' room ('' @ [8593] @ lit '' scrolled '' @ dec (ui_scroll s) @ lit '' '' @ [8212]
               @ lit '' End to return) ''
             else lit '' room '');
          lines = map (\<lambda>(i, m). format_line (clk i) m) (enumerate 0 (visible inner_h s));
          cursor_x = fst corner + 1 + of_nat (length (ui_input s));
          cursor_y = snd corner + 1
      in (\<lparr>vw_header = header_line, vw_status = status, vw_title = title,
            vw_lines = lines, vw_input = ui_input s, vw_cursor = (cursor_x, cursor_y)\<rparr>,
          s))"

section \<open>The visible window\<close>

text \<open>\<open>inner_h\<close> consecutive messages, ending \<open>scroll\<close> above the latest.\<close>

lemma visible_alt:
  "visible h s = last_n h (take (length (ui_messages s) - ui_scroll s) (ui_messages s))"
proof -
  have "min (length (ui_messages s)) (length (ui_messages s) - ui_scroll s)
      = length (ui_messages s) - ui_scroll s" by simp
  then show ?thesis by (simp add: visible_def last_n_def drop_take Let_def)
qed

lemma visible_inner:
  "ui_scroll s + h \<le> length (ui_messages s) \<Longrightarrow>
     visible h s = take h (drop (length (ui_messages s) - ui_scroll s - h) (ui_messages s))"
  by (simp add: visible_def Let_def)

lemma length_visible:
  assumes "pane_ok s" and "ui_last_inner_h s = h" and "0 < h"
  shows "length (visible h s) = min h (length (ui_messages s))"
proof -
  have "ui_scroll s \<le> length (ui_messages s) - h"
    using assms by (simp add: pane_ok_def max_scroll_def)
  then show ?thesis by (auto simp: visible_alt length_last_n)
qed

lemma visible_pinned: "ui_scroll s = 0 \<Longrightarrow> visible h s = last_n h (ui_messages s)"
  by (simp add: visible_alt)

lemma visible_oldest:
  assumes "ui_last_inner_h s = h" and "0 < h"
  shows "visible h (scroll_to_oldest s) = take h (ui_messages s)"
proof -
  have "length (ui_messages s) - (length (ui_messages s) - max h 1) = min h (length (ui_messages s))"
    using assms(2) by auto
  then show ?thesis
    using assms by (auto simp: visible_alt scroll_to_oldest_def last_n_def min_def)
qed

text \<open>A message that arrives while the user reads back does not move the window, below the cap.\<close>

lemma visible_push_anchored:
  assumes "pane_ok s" and "0 < ui_scroll s" and "length (ui_messages s) < HISTORY_CAP"
  shows "visible h (ui_push m s) = visible h s"
proof -
  let ?n = "length (ui_messages s)"
  have le: "ui_scroll s \<le> ?n - max (ui_last_inner_h s) 1"
    using assms(1) by (simp add: pane_ok_def max_scroll_def)
  with assms(2) have "ui_scroll s < ?n" by linarith
  moreover have "ui_scroll (ui_push m s) = ui_scroll s + 1"
    using le assms(2,3) by (simp add: ui_push_def Let_def ui_simps max_scroll_def)
  ultimately show ?thesis
    using assms(3) by (simp add: visible_alt ui_simps)
qed

text \<open>At the cap it does: the window slides by one message.\<close>

lemma visible_push_capped:
  assumes "pane_ok s" and "0 < ui_scroll s" and "length (ui_messages s) = HISTORY_CAP"
    and "ui_last_inner_h s = h" and "0 < h"
  shows "visible h (ui_push m s) = take h (drop (HISTORY_CAP - ui_scroll s - h + 1) (ui_messages s))"
    and "visible h s = take h (drop (HISTORY_CAP - ui_scroll s - h) (ui_messages s))"
proof -
  let ?k = "ui_scroll s"
  have le: "?k \<le> HISTORY_CAP - h"
    using assms by (simp add: pane_ok_def max_scroll_def)
  then have kh: "?k + h \<le> HISTORY_CAP" using assms(2) by linarith
  have scroll: "ui_scroll (ui_push m s) = ?k"
    using le assms(2,3,4,5) by (simp add: ui_push_def Let_def ui_simps max_scroll_def)
  have len: "length (ui_messages (ui_push m s)) = HISTORY_CAP"
    using assms(3) by (simp add: ui_simps HISTORY_CAP_def)
  show "visible h s = take h (drop (HISTORY_CAP - ?k - h) (ui_messages s))"
    using visible_inner [of s h] kh assms(3) by simp
  have msgs: "ui_messages (ui_push m s) = tl (ui_messages s) @ [m]"
    using assms(3) by (simp add: ui_simps)
  have "visible h (ui_push m s) = take h (drop (HISTORY_CAP - ?k - h) (ui_messages (ui_push m s)))"
    using visible_inner [of "ui_push m s" h] kh scroll len by simp
  also have "\<dots> = take h (drop (HISTORY_CAP - ?k - h) (tl (ui_messages s) @ [m]))"
    by (simp only: msgs)
  also have "\<dots> = take h (drop (HISTORY_CAP - ?k - h) (tl (ui_messages s)))"
    using kh assms(2,3) by simp
  finally show "visible h (ui_push m s) = take h (drop (HISTORY_CAP - ?k - h + 1) (ui_messages s))"
    by (simp add: drop_Suc)
qed

section \<open>Lines\<close>

text \<open>Outside its reveal window an ephemeral message is drawn without its text.\<close>

definition masked :: "instant \<Rightarrow> display_msg \<Rightarrow> bool" where
  "masked now m \<longleftrightarrow>
     (\<exists>e. dm_ephemeral m = Some e \<and> (\<forall>t. es_revealed_until e = Some t \<longrightarrow> t \<le> now))"

lemma format_line_masked:
  assumes "masked now m" and "dm_kind m = DisplayMessage name t"
  shows "format_line now (m\<lparr>dm_kind := DisplayMessage name t'\<rparr>) = format_line now m"
    and "snd (format_line now m ! 2) = EPHEMERAL_MASK"
  using assms by (auto simp: masked_def format_line_def Let_def split: option.split)

lemma color_for_palette: "color_for name \<in> set PALETTE"
  unfolding color_for_def by (rule nth_mem) (simp add: PALETTE_def)

lemma length_dec2:
  assumes "n < 100"
  shows "length (dec2 n) = 2"
proof -
  have "n div 10 < 10" using assms by linarith
  then show ?thesis by (simp add: dec2_def dec.simps [of n] dec.simps [of "n div 10"])
qed

lemma length_fmt_ts: "length (fmt_ts ms) = 8"
proof -
  have "unat ms div 1000 div 3600 mod 24 < 100" "unat ms div 1000 div 60 mod 60 < 100"
    "unat ms div 1000 mod 60 < 100"
    using mod_less_divisor [of 24 "unat ms div 1000 div 3600"]
      mod_less_divisor [of 60 "unat ms div 1000 div 60"] mod_less_divisor [of 60 "unat ms div 1000"]
    by linarith+
  then show ?thesis by (simp add: fmt_ts_def Let_def length_dec2)
qed

lemma pane_ok_render: "pane_ok s \<Longrightarrow> pane_ok (snd (render clk height corner s))"
  unfolding render_def Let_def snd_conv by (rule pane_ok_clamp) (simp add: pane_ok_def)

end
