(* ===== verification/Terminal.thy ===== *)
theory Terminal
  imports Proto
begin

text \<open>
  The terminal guard of \<^verbatim>\<open>src/client/ui.rs\<close>: entering raw mode and the alternate screen, and leaving
  both when the guard is dropped. The terminal belongs to crossterm and ratatui; its operations are
  parameters over a terminal state \<open>'x\<close>, and \<open>term_laws\<close> is what their documentation says about the
  two modes the program changes.
\<close>

record 'x term_ops =
  to_enable_raw :: "'x \<Rightarrow> bool \<times> 'x"
  to_enter_alternate :: "'x \<Rightarrow> bool \<times> 'x"
  to_new_terminal :: "'x \<Rightarrow> bool \<times> 'x"
  to_disable_raw :: "'x \<Rightarrow> bool \<times> 'x"
  to_leave_alternate :: "'x \<Rightarrow> bool \<times> 'x"
  to_show_cursor :: "'x \<Rightarrow> bool \<times> 'x"

definition guard_enter :: "'x term_ops \<Rightarrow> 'x \<Rightarrow> unit result \<times> 'x" where
  "guard_enter ops x =
     (case to_enable_raw ops x of
        (False, x) \<Rightarrow> (Inl Io, x)
      | (True, x) \<Rightarrow>
     (case to_enter_alternate ops x of
        (False, x) \<Rightarrow> (Inl Io, x)
      | (True, x) \<Rightarrow>
     (case to_new_terminal ops x of
        (False, x) \<Rightarrow> (Inl Io, x)
      | (True, x) \<Rightarrow> (Inr (), x))))"

text \<open>\<^verbatim>\<open>Drop\<close>: three calls, each made whatever the others returned.\<close>

definition terminal_drop :: "'x term_ops \<Rightarrow> 'x \<Rightarrow> 'x" where
  "terminal_drop ops x =
     (let x = snd (to_disable_raw ops x); x = snd (to_leave_alternate ops x)
      in snd (to_show_cursor ops x))"

section \<open>The modes\<close>

text \<open>\<open>raw x\<close> and \<open>alt x\<close>: whether the terminal is in raw mode, and on the alternate screen.\<close>

definition term_laws :: "'x term_ops \<Rightarrow> ('x \<Rightarrow> bool) \<Rightarrow> ('x \<Rightarrow> bool) \<Rightarrow> bool" where
  "term_laws ops raw alt \<longleftrightarrow>
     (\<forall>x. (fst (to_enable_raw ops x) \<longrightarrow> raw (snd (to_enable_raw ops x))) \<and>
        (alt (snd (to_enable_raw ops x)) = alt x) \<and>
        (raw (snd (to_enter_alternate ops x)) = raw x) \<and>
        (raw (snd (to_new_terminal ops x)) = raw x) \<and>
        (fst (to_disable_raw ops x) \<longrightarrow> \<not> raw (snd (to_disable_raw ops x))) \<and>
        (raw (snd (to_leave_alternate ops x)) = raw x) \<and>
        (fst (to_leave_alternate ops x) \<longrightarrow> \<not> alt (snd (to_leave_alternate ops x))) \<and>
        (raw (snd (to_show_cursor ops x)) = raw x) \<and> (alt (snd (to_show_cursor ops x)) = alt x))"

text \<open>The terminal can be put back: neither call of the drop fails.\<close>

definition restorable :: "'x term_ops \<Rightarrow> bool" where
  "restorable ops \<longleftrightarrow> (\<forall>x. fst (to_disable_raw ops x) \<and> fst (to_leave_alternate ops x))"

lemma drop_restores:
  assumes "term_laws ops raw alt" and "restorable ops"
  shows "\<not> raw (terminal_drop ops x) \<and> \<not> alt (terminal_drop ops x)"
  using assms by (simp add: term_laws_def restorable_def terminal_drop_def Let_def)

text \<open>When entering fails after raw mode was enabled there is no guard yet, and raw mode stays on.\<close>

lemma failed_enter_keeps_raw:
  assumes laws: "term_laws ops raw alt" and enter: "guard_enter ops x = (Inl e, x')"
    and "fst (to_enable_raw ops x)"
  shows "raw x'"
proof -
  obtain x1 where 1: "to_enable_raw ops x = (True, x1)"
    using assms(3) by (cases "to_enable_raw ops x") auto
  obtain b2 x2 where 2: "to_enter_alternate ops x1 = (b2, x2)" by fastforce
  obtain b3 x3 where 3: "to_new_terminal ops x2 = (b3, x3)" by fastforce
  have "raw (snd (to_enable_raw ops x))" using laws assms(3) by (simp add: term_laws_def)
  moreover have "raw (snd (to_enter_alternate ops x1)) = raw x1"
    and "raw (snd (to_new_terminal ops x2)) = raw x2" using laws by (simp_all add: term_laws_def)
  ultimately have "raw x1 \<and> raw x2 \<and> raw x3" by (simp add: 1 2 3)
  with enter show ?thesis
    by (cases b2; cases b3) (simp_all add: guard_enter_def 1 2 3)
qed

end
