(* ===== verification/ClientSession.thy ===== *)
theory ClientSession
  imports UiRender Terminal
begin

text \<open>
  \<^verbatim>\<open>src/client/mod.rs\<close>: the client's connection, its handling of server frames and its event
  loop.
\<close>

section \<open>Server frames\<close>

text \<open>\<open>t\<close> and \<open>ms\<close>: the monotonic and the wall clock. The result is the error that ends the loop.\<close>

definition handle_server_frame ::
  "aead_ops \<Rightarrow> instant \<Rightarrow> u64 \<Rightarrow> bytes \<Rightarrow> server_frame \<Rightarrow> ui_state \<Rightarrow> error option \<times> ui_state" where
  "handle_server_frame ae t ms room_key msg s =
     (case msg of
        ServerMessage m \<Rightarrow>
          (case try_accept_counter (ad_from (rm_ad m)) (ad_counter (rm_ad m)) s of
             (False, s) \<Rightarrow> (None, push_system ms (lit ''dropped replay from '' @ rm_username m) s)
           | (True, s) \<Rightarrow> (None, ui_push (decrypt_to_display ae t room_key m) s))
      | Cleared _ username \<Rightarrow>
          (None, push_system ms (lit ''cleared by '' @ username) (clear_messages s))
      | ServerError reason \<Rightarrow> (Some (ServerErr reason), s)
      | ServerHello _ _ \<Rightarrow> (Some (Protocol ''unexpected handshake frame after auth''), s)
      | Welcome _ _ \<Rightarrow> (Some (Protocol ''unexpected handshake frame after auth''), s))"

text \<open>Seeding from the replayed history, each message with the clock reading of its decryption.\<close>

fun seed_history ::
  "aead_ops \<Rightarrow> bytes \<Rightarrow> (instant \<times> room_message) list \<Rightarrow> ui_state \<Rightarrow> ui_state" where
  "seed_history ae room_key [] s = s"
| "seed_history ae room_key ((t, m) # ms) s =
     seed_history ae room_key ms
       (ui_push (decrypt_to_display ae t room_key m)
         (snd (try_accept_counter (ad_from (rm_ad m)) (ad_counter (rm_ad m)) s)))"

section \<open>Connecting\<close>

record ('h, 't, 's) client_env =
  ce_noise :: "('h, 't) noise_ops"
  ce_stream :: "'s stream_ops"
  ce_to_vec :: "client_frame \<Rightarrow> bytes option"
  ce_from_bytes :: "bytes \<Rightarrow> server_frame option"
  ce_kdf :: kdf_ops
  ce_aead :: aead_ops

text \<open>\<^verbatim>\<open>run\<close> up to the welcome: the room key, the user id, the history, and the transport.\<close>

definition connect ::
  "('h, 't, 's) client_env \<Rightarrow> str \<Rightarrow> str \<Rightarrow> bytes \<Rightarrow> 's
     \<Rightarrow> (bytes \<times> uuid \<times> room_message list \<times> 't) result \<times> 's" where
  "connect env username room password s =
     (case send_postcard (ce_stream env) (ce_to_vec env) (RoomSelect room) s of
        (Inl e, s) \<Rightarrow> (Inl e, s)
      | (Inr _, s) \<Rightarrow>
     (case recv_postcard (ce_stream env) (ce_from_bytes env) s of
        (Inl e, s) \<Rightarrow> (Inl e, s)
      | (Inr hello, s) \<Rightarrow>
     (case (case hello of
              ServerHello room_salt server_version \<Rightarrow> Inr (room_salt, server_version)
            | ServerError reason \<Rightarrow> Inl (ServerErr reason)
            | _ \<Rightarrow> Inl (Protocol ''expected ServerFrame::Hello'')) of
        Inl e \<Rightarrow> (Inl e, s)
      | Inr (room_salt, server_version) \<Rightarrow>
      if server_version \<noteq> PROTOCOL_VERSION then (Inl (UnsupportedVersion server_version), s)
      else
     (case derive_keys (ce_kdf env) password room_salt of
        Inl e \<Rightarrow> (Inl e, s)
      | Inr keys \<Rightarrow>
     (case handshake_initiator (ce_noise env) (ce_stream env) (dk_psk keys)
         (build_prologue room room_salt server_version) s of
        (Inl e, s) \<Rightarrow> (Inl e, s)
      | (Inr transport, s) \<Rightarrow>
     (case send_encrypted (ce_noise env) (ce_stream env) (ce_to_vec env) (ClientHello username)
         s transport of
        (Inl e, s, transport) \<Rightarrow> (Inl e, s)
      | (Inr _, s, transport) \<Rightarrow>
     (case recv_encrypted (ce_noise env) (ce_stream env) (ce_from_bytes env) s transport of
        (Inl e, s, transport) \<Rightarrow> (Inl e, s)
      | (Inr welcome, s, transport) \<Rightarrow>
     (case welcome of
        Welcome user_id history \<Rightarrow> (Inr (dk_room_key keys, user_id, history, transport), s)
      | ServerError reason \<Rightarrow> (Inl (ServerErr reason), s)
      | _ \<Rightarrow> (Inl (Protocol ''expected ServerFrame::Welcome''), s)))))))))"

text \<open>The history comes from a welcome.\<close>

lemma recv_encrypted_InrD:
  "recv_encrypted nz st from_bytes s t = (Inr f, s', t') \<Longrightarrow> \<exists>b. from_bytes b = Some f"
  by (auto simp: recv_encrypted_def and_then_Inr_iff ok_or_def split: prod.splits sum.splits option.splits)

lemma connect_welcome:
  assumes "connect env username room password s = (Inr (key, u, h, t), s')"
  shows "\<exists>b. ce_from_bytes env b = Some (Welcome u h)"
  using assms
  by (auto simp: connect_def dest!: recv_encrypted_InrD split: prod.splits sum.splits server_frame.splits if_splits)

section \<open>The event loop\<close>

text \<open>How drawing the screen turns out, and which branch of the loop runs next with what the terminal
  or the network yields.\<close>

datatype draw = Drawn "nat \<Rightarrow> instant" nat "u16 \<times> u16" | DrawError

datatype client_event =
    KeyPressed key_event key_inputs
  | OtherTerminalEvent
  | TerminalError
  | TerminalEnd
  | Incoming instant u64
  | Tick instant

text \<open>One iteration draws and then takes one branch. The outcome \<open>None\<close> means that the loop goes
  on.\<close>

fun event_loop ::
  "('h, 't, 's) client_env \<Rightarrow> bytes \<Rightarrow> (draw \<times> client_event) list \<Rightarrow> ui_state \<Rightarrow> 's \<Rightarrow> 't
     \<Rightarrow> unit result option \<times> ui_state \<times> 's \<times> 't" where
  "event_loop env key [] st s t = (None, st, s, t)"
| "event_loop env key ((DrawError, ev) # es) st s t = (Some (Inl Io), st, s, t)"
| "event_loop env key ((Drawn clk height corner, ev) # es) st s t =
     (let st = snd (render clk height corner st) in
      case ev of
        KeyPressed k ki \<Rightarrow>
          (case handle_key (ce_aead env) ki key k st of
             (Quit, st) \<Rightarrow> (Some (Inr ()), st, s, t)
           | (SendFrame frame_out, st) \<Rightarrow>
               (case send_encrypted (ce_noise env) (ce_stream env) (ce_to_vec env) frame_out s t of
                  (Inl e, s, t) \<Rightarrow> (Some (Inl e), st, s, t)
                | (Inr _, s, t) \<Rightarrow> event_loop env key es st s t)
           | (NoAction, st) \<Rightarrow> event_loop env key es st s t)
      | OtherTerminalEvent \<Rightarrow> event_loop env key es st s t
      | TerminalError \<Rightarrow> (Some (Inl Io), st, s, t)
      | TerminalEnd \<Rightarrow> (Some (Inr ()), st, s, t)
      | Incoming now ms \<Rightarrow>
          (case so_next (ce_stream env) s of
             (Frame bytes, s) \<Rightarrow>
               (case transport_open (ce_noise env) t bytes of
                  (Inl e, t) \<Rightarrow> (Some (Inl e), st, s, t)
                | (Inr pt, t) \<Rightarrow>
               (case ce_from_bytes env pt of
                  None \<Rightarrow> (Some (Inl Postcard), st, s, t)
                | Some msg \<Rightarrow>
               (case handle_server_frame (ce_aead env) now ms key msg st of
                  (Some err, st) \<Rightarrow> (Some (Inl err), st, s, t)
                | (None, st) \<Rightarrow> event_loop env key es st s t)))
           | (ReadError, s) \<Rightarrow> (Some (Inl Io), st, s, t)
           | (EndOfStream, s) \<Rightarrow> (Some (Inr ()), st, s, t))
      | Tick now \<Rightarrow> event_loop env key es (tick_expire_ephemerals now st) s t)"

text \<open>
  \<^verbatim>\<open>run\<close>: \<open>clk\<close> are the clock readings of the seeding, \<open>ops\<close> the terminal's operations, \<open>draws\<close> what all
  the drawing in the loop does to the terminal \<open>x\<close>. The guard is dropped when the loop has returned.
\<close>

definition client_run ::
  "('h, 't, 's) client_env \<Rightarrow> 'x term_ops \<Rightarrow> ('x \<Rightarrow> 'x) \<Rightarrow> socket_addr \<Rightarrow> str \<Rightarrow> str \<Rightarrow> bytes
     \<Rightarrow> (nat \<Rightarrow> instant) \<Rightarrow> (draw \<times> client_event) list \<Rightarrow> 's \<Rightarrow> 'x
     \<Rightarrow> unit result option \<times> ui_state option \<times> 's \<times> 'x" where
  "client_run env ops draws addr username room password clk events s x =
     (case connect env username room password s of
        (Inl e, s) \<Rightarrow> (Some (Inl e), None, s, x)
      | (Inr (room_key, user_id, history, transport), s) \<Rightarrow>
          let state = seed_history (ce_aead env) room_key
                (zip (map clk [0..<length history]) history)
                (ui_state_new username user_id addr room)
          in (case guard_enter ops x of
                (Inl e, x) \<Rightarrow> (Some (Inl e), Some state, s, x)
              | (Inr _, x) \<Rightarrow>
                  (case event_loop env room_key events state s transport of
                     (None, state, s, t) \<Rightarrow> (None, Some state, s, draws x)
                   | (Some r, state, s, t) \<Rightarrow> (Some r, Some state, s, terminal_drop ops (draws x)))))"

section \<open>The pane is well-formed throughout\<close>

lemma pane_ok_server_frame:
  "pane_ok s \<Longrightarrow> pane_ok (snd (handle_server_frame ae t ms key msg s))"
  using pane_ok_accept [of s]
  by (auto simp: handle_server_frame_def pane_ok_intros split: server_frame.split prod.split bool.split)
    (metis pane_ok_accept pane_ok_push pane_ok_push_system snd_conv)+

end
