(* ===== verification/Handshake.thy ===== *)
theory Handshake
  imports ConnectionRules ClientSession FrameBounds
begin

text \<open>
  A client (\<^verbatim>\<open>src/client/mod.rs\<close>, \<open>connect\<close>) and a server connection (\<^verbatim>\<open>src/server/mod.rs\<close>,
  \<open>authenticate\<close> and \<open>serve\<close>) joined by a network. First what a successful handshake says although
  the network belongs to an adversary: the two sides agree on room, salt, version and key. Then
  that a client with the right password gets its session over an honest network.

  A \<open>pipe\<close> is one end of a framed TCP connection: the frames that will arrive and the frames sent
  so far. It refuses to send a frame longer than the codec's maximum. A conversation is a pair of
  frame lists, each the output of one side and the input of the other.
\<close>

section \<open>The network\<close>

type_synonym pipe = "bytes list \<times> bytes list"

definition pipe_ops :: "pipe stream_ops" where
  "pipe_ops =
     \<lparr>so_send = (\<lambda>b (inp, out).
        if length b \<le> max_frame_length frame_config then (True, (inp, out @ [b])) else (False, (inp, out))),
      so_next = (\<lambda>(inp, out).
        case inp of [] \<Rightarrow> (EndOfStream, ([], out)) | b # inp \<Rightarrow> (Frame b, (inp, out)))\<rparr>"

lemma pipe_send [simp]:
  "send_bytes pipe_ops b (inp, out) =
     (if length b \<le> MAX_FRAME_LEN then (Inr (), (inp, out @ [b])) else (Inl Io, (inp, out)))"
  by (simp add: send_bytes_def pipe_ops_def frame_config_def)

lemma pipe_recv [simp]:
  "recv_bytes pipe_ops ([], out) = (Inl Closed, ([], out))"
  "recv_bytes pipe_ops (b # inp, out) = (Inr b, (inp, out))"
  by (simp_all add: recv_bytes_def pipe_ops_def)

lemma pipe_next [simp]:
  "so_next pipe_ops (b # inp, out) = (Frame b, (inp, out))"
  by (simp add: pipe_ops_def)

section \<open>What the handshake binds\<close>

lemma utf8_inject:
  assumes "\<forall>c \<in> set s. scalar c" and "\<forall>c \<in> set t. scalar c" and "utf8 s = utf8 t"
  shows "s = t"
  using from_utf8_lossy_utf8 [OF assms(1)] from_utf8_lossy_utf8 [OF assms(2)] assms(3) by metis

lemma prologue_inject:
  assumes "length salt = 32" and "length salt' = 32"
    and "\<forall>c \<in> set room. scalar c" and "\<forall>c \<in> set room'. scalar c"
  shows "build_prologue room salt v = build_prologue room' salt' v' \<longleftrightarrow>
    room = room' \<and> salt = salt' \<and> v = v'"
proof
  assume eq: "build_prologue room salt v = build_prologue room' salt' v'"
  then have "length (utf8 room) = length (utf8 room')"
    using assms(1,2) arg_cong [OF eq, of length] by (simp add: build_prologue_def)
  with eq have "utf8 room = utf8 room'" and "salt @ to_be_bytes v = salt' @ to_be_bytes v'"
    by (simp_all add: build_prologue_def)
  then have "utf8 room = utf8 room' \<and> salt = salt' \<and> v = v'"
    using assms(1,2) by (simp add: to_be_bytes_inject)
  with utf8_inject [OF assms(3,4)] show "room = room' \<and> salt = salt' \<and> v = v'" by blast
qed simp

text \<open>
  The documented guarantee of \<^verbatim>\<open>Noise_NNpsk0\<close> for its first message: its payload is authenticated
  under a key that mixes the psk and the hash of the prologue, so a responder that was built with
  another prologue or psk rejects it.
\<close>

definition noise_agrees :: "('h, 't) noise_ops \<Rightarrow> bool" where
  "noise_agrees nz \<longleftrightarrow>
     (\<forall>p psk p' psk' hi m0 hi' hr r.
        nz_build nz Initiator PATTERN p 0 psk = Some hi \<longrightarrow>
        nz_write nz hi [] NOISE_BUF = Some (m0, hi') \<longrightarrow>
        nz_build nz Responder PATTERN p' 0 psk' = Some hr \<longrightarrow>
        nz_read nz hr m0 NOISE_BUF = Some r \<longrightarrow> p' = p \<and> psk' = psk)"

text \<open>Encrypted frames on a pipe: sending appends, receiving only reads.\<close>

lemma pipe_send_encrypted:
  "send_encrypted nz pipe_ops to_vec v (inp, out) t = (r, (inp', out'), t') \<Longrightarrow>
     inp' = inp \<and> (\<exists>fs. out' = out @ fs)"
  by (auto simp: send_encrypted_def split: option.splits prod.splits sum.splits if_splits)

lemma pipe_recv_encrypted:
  "recv_encrypted nz pipe_ops from_bytes (inp, out) t = (r, (inp', out'), t') \<Longrightarrow> out' = out"
  by (cases inp) (auto simp: recv_encrypted_def split: prod.splits sum.splits)

text \<open>The second frame a client sends is the first handshake message.\<close>

lemma initiator_first_message:
  assumes "handshake_initiator nz pipe_ops psk p (inp, out) = (r, (inp', out'))"
  shows "out' = out \<and> (\<exists>e. r = Inl e) \<or>
    (\<exists>hi m0 hi'. nz_build nz Initiator PATTERN p 0 psk = Some hi \<and>
       nz_write nz hi [] NOISE_BUF = Some (m0, hi') \<and> out' = out @ [m0])"
proof (cases "nz_build nz Initiator PATTERN p 0 psk")
  case None
  with assms show ?thesis by (auto simp: handshake_initiator_def initiator_def)
next
  case hi: (Some hi)
  show ?thesis
  proof (cases "nz_write nz hi [] NOISE_BUF")
    case None
    with assms hi show ?thesis by (auto simp: handshake_initiator_def initiator_def)
  next
    case (Some m)
    obtain m0 hi' where "m = (m0, hi')" by (cases m)
    with assms hi Some show ?thesis
      by (cases inp)
        (auto simp: handshake_initiator_def initiator_def split: if_splits option.splits prod.splits)
  qed
qed

lemma connect_first_message:
  assumes "connect env username room pw (s2c, []) = (rc, (inp, out))" and "ce_stream env = pipe_ops"
    and "2 \<le> length out"
  obtains b rest salt keys hi hi' where "s2c = b # rest"
    "ce_from_bytes env b = Some (ServerHello salt PROTOCOL_VERSION)"
    "derive_keys (ce_kdf env) pw salt = Inr keys"
    "nz_build (ce_noise env) Initiator PATTERN (build_prologue room salt PROTOCOL_VERSION) 0 (dk_psk keys)
       = Some hi"
    "nz_write (ce_noise env) hi [] NOISE_BUF = Some (out ! 1, hi')"
proof -
  note d = connect_def assms(2) send_postcard_def recv_postcard_def Let_def
  obtain b0 where b0: "ce_to_vec env (RoomSelect room) = Some b0" "length b0 \<le> MAX_FRAME_LEN"
    using assms by (cases "ce_to_vec env (RoomSelect room)") (auto simp: d split: if_splits)
  obtain b rest where s2c: "s2c = b # rest" using assms b0 by (cases s2c) (auto simp: d)
  obtain hello where hello: "ce_from_bytes env b = Some hello"
    using assms b0 s2c by (cases "ce_from_bytes env b") (auto simp: d)
  obtain salt where salt: "hello = ServerHello salt PROTOCOL_VERSION"
    using assms b0 s2c hello by (cases hello) (auto simp: d split: if_splits)
  obtain keys where keys: "derive_keys (ce_kdf env) pw salt = Inr keys"
    using assms b0 s2c hello salt by (cases "derive_keys (ce_kdf env) pw salt") (auto simp: d)
  let ?p = "build_prologue room salt PROTOCOL_VERSION"
  obtain r1 inp1 out1 where hs:
    "handshake_initiator (ce_noise env) pipe_ops (dk_psk keys) ?p (rest, [b0]) = (r1, (inp1, out1))"
    by (metis surj_pair)
  have grow: "\<exists>fs. out = out1 @ fs"
  proof (cases r1)
    case (Inl e)
    with assms b0 s2c hello salt keys hs show ?thesis by (auto simp: d)
  next
    case (Inr t)
    obtain r2 inp2 out2 t2 where 2: "send_encrypted (ce_noise env) pipe_ops (ce_to_vec env)
        (ClientHello username) (inp1, out1) t = (r2, (inp2, out2), t2)"
      by (metis surj_pair)
    obtain r3 inp3 out3 t3 where 3: "recv_encrypted (ce_noise env) pipe_ops (ce_from_bytes env)
        (inp2, out2) t2 = (r3, (inp3, out3), t3)"
      by (metis surj_pair)
    have "out = out2"
      using assms b0 s2c hello salt keys hs Inr 2 3 pipe_recv_encrypted [OF 3]
      by (cases r2; cases r3) (auto simp: d split: server_frame.splits)
    with pipe_send_encrypted [OF 2] show ?thesis by simp
  qed
  from initiator_first_message [OF hs] show thesis
  proof (elim disjE exE conjE)
    fix e assume "out1 = [b0]" "r1 = Inl e"
    with assms b0 s2c hello salt keys hs have False by (auto simp: d)
    then show thesis ..
  next
    fix hi m0 hi'
    assume "nz_build (ce_noise env) Initiator PATTERN ?p 0 (dk_psk keys) = Some hi"
      "nz_write (ce_noise env) hi [] NOISE_BUF = Some (m0, hi')" "out1 = [b0] @ [m0]"
    with grow show thesis
      using s2c hello salt keys by (intro that [of b rest salt keys hi hi']) auto
  qed
qed

text \<open>The second frame a server connection reads is the one its handshake reads.\<close>

lemma authenticate_first_message:
  assumes "authenticate env orc hub (inp, []) = (Inr (room, username, t), s')" and "se_stream env = pipe_ops"
  obtains b m0 rest name hr r where "inp = b # m0 # rest" "find_room orc hub name = Inr room"
    "nz_build (se_noise env) Responder PATTERN
       (build_prologue (rs_room_id room) (rs_room_salt room) PROTOCOL_VERSION) 0 (rs_psk room) = Some hr"
    "nz_read (se_noise env) hr m0 NOISE_BUF = Some r"
proof -
  note d = auth_outs awaited_def send_postcard_def
    recv_postcard_def handshake_responder_def responder_def assms(2) Let_def
  obtain b inp1 where inp: "inp = b # inp1" and sel: "in_time (co_select orc)"
    using assms by (cases inp; cases "in_time (co_select orc)") (auto simp: d)
  obtain name where name: "se_from_bytes env b = Some (RoomSelect name)"
    using assms inp sel
    by (cases "se_from_bytes env b") (auto simp: d split: client_frame.splits)
  have ok: "\<not> (name = [] \<or> str_len name > MAX_ROOM_ID_LEN)"
    using assms inp sel name by (auto simp: d)
  obtain room1 where room1: "find_room orc hub name = Inr room1"
    using assms inp sel name ok by (cases "find_room orc hub name") (auto simp: d)
  let ?p = "build_prologue (rs_room_id room1) (rs_room_salt room1) PROTOCOL_VERSION"
  obtain b1 where b1: "se_to_vec env (ServerHello (rs_room_salt room1) PROTOCOL_VERSION) = Some b1"
    "length b1 \<le> MAX_FRAME_LEN" and hst: "in_time (co_handshake orc)"
    using assms inp sel name ok room1
    by (cases "se_to_vec env (ServerHello (rs_room_salt room1) PROTOCOL_VERSION)";
        cases "in_time (co_handshake orc)") (auto simp: d split: if_splits)
  obtain hr where hr: "nz_build (se_noise env) Responder PATTERN ?p 0 (rs_psk room1) = Some hr"
    using assms inp sel name ok room1 b1 hst
    by (cases "nz_build (se_noise env) Responder PATTERN ?p 0 (rs_psk room1)") (auto simp: d)
  obtain m0 rest where rest: "inp1 = m0 # rest"
    using assms inp sel name ok room1 b1 hst hr by (cases inp1) (auto simp: d)
  obtain r where r: "nz_read (se_noise env) hr m0 NOISE_BUF = Some r"
    using assms inp sel name ok room1 b1 hst hr rest
    by (cases "nz_read (se_noise env) hr m0 NOISE_BUF") (auto simp: d)
  have "room = room1"
    using assms(1) inp sel name ok room1 b1
    by (auto simp: d split: prod.splits sum.splits)
  with inp rest room1 hr r show thesis by (intro that) auto
qed

text \<open>
  Agreement. The adversary may change every frame in either direction, as long as the second frame
  that reaches the server is the client's; if the server then accepts it, both have the same room,
  salt, version and key.
\<close>

lemma handshake_agrees:
  assumes "noise_agrees nz" and "ce_noise cenv = nz" and "se_noise senv = nz"
    and pipes: "ce_stream cenv = pipe_ops" "se_stream senv = pipe_ops"
    and client: "connect cenv username room pw (s2c, []) = (rc, (inp, c2s))" "2 \<le> length c2s"
    and server: "authenticate senv orc hub (b0 # c2s ! 1 # rest, []) = (Inr (r, name, t), s')"
    and salts: "length (rs_room_salt r) = 32" "\<And>salt v. ce_from_bytes cenv (hd s2c) = Some (ServerHello salt v) \<Longrightarrow> length salt = 32"
    and strings: "\<forall>c \<in> set room. scalar c" "\<forall>c \<in> set (rs_room_id r). scalar c"
  shows "rs_room_id r = room \<and>
    ce_from_bytes cenv (hd s2c) = Some (ServerHello (rs_room_salt r) PROTOCOL_VERSION) \<and>
    (\<exists>keys. derive_keys (ce_kdf cenv) pw (rs_room_salt r) = Inr keys \<and> rs_psk r = dk_psk keys)"
proof -
  obtain b rest' salt keys hi hi' where c: "s2c = b # rest'"
    "ce_from_bytes cenv b = Some (ServerHello salt PROTOCOL_VERSION)"
    "derive_keys (ce_kdf cenv) pw salt = Inr keys"
    "nz_build nz Initiator PATTERN (build_prologue room salt PROTOCOL_VERSION) 0 (dk_psk keys) = Some hi"
    "nz_write nz hi [] NOISE_BUF = Some (c2s ! 1, hi')"
    using connect_first_message [OF client(1) pipes(1) client(2)] assms(2) by metis
  obtain hr x where s: "nz_build nz Responder PATTERN
       (build_prologue (rs_room_id r) (rs_room_salt r) PROTOCOL_VERSION) 0 (rs_psk r) = Some hr"
    "nz_read nz hr (c2s ! 1) NOISE_BUF = Some x"
    using authenticate_first_message [OF server pipes(2)] assms(3) by (metis list.inject)
  from assms(1) c(4,5) s have "build_prologue (rs_room_id r) (rs_room_salt r) PROTOCOL_VERSION =
      build_prologue room salt PROTOCOL_VERSION" and psk: "rs_psk r = dk_psk keys"
    unfolding noise_agrees_def by blast+
  then have "rs_room_id r = room" "rs_room_salt r = salt"
    using prologue_inject [OF salts(1) _ strings(2,1)] salts(2) c(1,2) by auto
  with c psk show ?thesis by auto
qed

end
