(* ===== verification/Establish.thy ===== *)
theory Establish
  imports Handshake
begin

text \<open>
  Over an honest network a client with the right password and a server connection reach a session
  together: \<open>connect\<close> returns with the user id, the history and the room key, \<open>authenticate\<close> and
  \<open>serve\<close> have let the user in, and the two transports are in step.
\<close>

section \<open>The documented behaviour of the libraries\<close>

text \<open>
  The values the Rust types of the frames hold: strings of scalar values, salts of 32 bytes, and
  lengths in 64 bits. Postcard decodes what it encodes of them, and encodes a frame in no more bytes
  than its wire format allows.
\<close>

definition str_wf :: "str \<Rightarrow> bool" where
  "str_wf s \<longleftrightarrow> text_ok s \<and> str_len s < 2 ^ 64"

definition message_wf :: "room_message \<Rightarrow> bool" where
  "message_wf m \<longleftrightarrow>
     str_wf (rm_username m) \<and> str_wf (ad_username (rm_ad m)) \<and> length (rm_ciphertext m) < 2 ^ 64"

fun client_wf :: "client_frame \<Rightarrow> bool" where
  "client_wf (RoomSelect room) \<longleftrightarrow> str_wf room"
| "client_wf (ClientHello name) \<longleftrightarrow> str_wf name"
| "client_wf (ClientMessage ad ct) \<longleftrightarrow> str_wf (ad_username ad) \<and> length ct < 2 ^ 64"
| "client_wf Clear \<longleftrightarrow> True"

fun server_wf :: "server_frame \<Rightarrow> bool" where
  "server_wf (ServerHello salt v) \<longleftrightarrow> length salt = 32"
| "server_wf (Welcome u h) \<longleftrightarrow> length h < 2 ^ 64 \<and> (\<forall>m \<in> set h. message_wf m)"
| "server_wf (ServerMessage m) \<longleftrightarrow> message_wf m"
| "server_wf (Cleared u name) \<longleftrightarrow> str_wf name"
| "server_wf (ServerError e) \<longleftrightarrow> True"

definition postcard_roundtrip ::
  "('a \<Rightarrow> bool) \<Rightarrow> ('a \<Rightarrow> bytes option) \<Rightarrow> (bytes \<Rightarrow> 'a option) \<Rightarrow> bool" where
  "postcard_roundtrip valid to_vec from_bytes \<longleftrightarrow>
     (\<forall>f. valid f \<longrightarrow> (\<exists>b. to_vec f = Some b \<and> from_bytes b = Some f))"

lemma name_wf: "all_name_bytes s \<Longrightarrow> str_len s < 2 ^ 64 \<Longrightarrow> str_wf s"
  unfolding str_wf_def
  by (intro conjI text_ok_ascii) (auto simp: all_name_bytes_iff name_char_def)

lemma username_wf: "username_ok name \<Longrightarrow> str_wf name"
  by (auto simp: username_ok_def is_valid_username_def MAX_USERNAME_LEN_def intro: name_wf)

lemma room_name_wf: "validate_name name = Inr () \<Longrightarrow> str_wf name"
  by (auto simp: validate_name_def MAX_ROOM_ID_LEN_def intro: name_wf split: if_splits)

lemma history_wf: "history_ok h \<Longrightarrow> server_wf (Welcome u h)"
  by (auto simp: history_ok_def message_ok_def message_wf_def HISTORY_LEN_def MAX_CIPHERTEXT_LEN_def
      username_wf)

fun client_frame_size :: "client_frame \<Rightarrow> nat" where
  "client_frame_size (RoomSelect room) = VARINT_MAX + (VARINT_MAX + str_len room)"
| "client_frame_size (ClientHello name) = VARINT_MAX + (VARINT_MAX + str_len name)"
| "client_frame_size (ClientMessage ad ct) = VARINT_MAX + ad_size ad + (VARINT_MAX + length ct)"
| "client_frame_size Clear = VARINT_MAX"

definition postcard_client_sizes :: "(client_frame \<Rightarrow> bytes option) \<Rightarrow> bool" where
  "postcard_client_sizes to_vec \<longleftrightarrow> (\<forall>f b. to_vec f = Some b \<longrightarrow> length b \<le> client_frame_size f)"

text \<open>
  Two handshake states built from the same prologue (a length byte, at most 255 bytes of a name, the
  salt and the version) and psk complete the pattern, with messages
  that fit their buffer, and leave transports in step: \<open>in_step a b\<close> says that what one of them seals
  next the other opens, and that they stay in step.
\<close>

definition PROLOGUE_MAX :: nat where "PROLOGUE_MAX = 290"

definition noise_completes :: "('h, 't) noise_ops \<Rightarrow> ('t \<Rightarrow> 't \<Rightarrow> bool) \<Rightarrow> bool" where
  "noise_completes nz in_step \<longleftrightarrow>
     (\<forall>p psk. length p \<le> PROLOGUE_MAX \<longrightarrow> length psk = KEY_LEN \<longrightarrow>
        (\<exists>hi m0 hi1 hr hr1 m1 hr2 hi2 ti tr x y.
           nz_build nz Initiator PATTERN p 0 psk = Some hi \<and>
           nz_write nz hi [] NOISE_BUF = Some (m0, hi1) \<and> length m0 \<le> NOISE_BUF \<and>
           nz_build nz Responder PATTERN p 0 psk = Some hr \<and>
           nz_read nz hr m0 NOISE_BUF = Some (x, hr1) \<and>
           nz_write nz hr1 [] NOISE_BUF = Some (m1, hr2) \<and> length m1 \<le> NOISE_BUF \<and>
           nz_read nz hi1 m1 NOISE_BUF = Some (y, hi2) \<and>
           nz_into_transport nz hi2 = Some ti \<and> nz_into_transport nz hr2 = Some tr \<and> in_step ti tr))"

definition transport_laws :: "('h, 't) noise_ops \<Rightarrow> ('t \<Rightarrow> 't \<Rightarrow> bool) \<Rightarrow> bool" where
  "transport_laws nz in_step \<longleftrightarrow>
     (\<forall>a b. in_step a b \<longrightarrow> in_step b a \<and>
        (\<forall>pt. length pt + AEAD_TAG_LEN \<le> NOISE_BUF \<longrightarrow>
           (\<exists>ct a' b'. nz_seal nz a pt (length pt + AEAD_TAG_LEN) = (Some ct, a') \<and>
              length ct \<le> length pt + AEAD_TAG_LEN \<and>
              nz_open nz b ct (length ct) = (Some pt, b') \<and> in_step a' b')))"

section \<open>Frames over transports in step\<close>

lemma noise_fits_frame: "n \<le> NOISE_BUF \<Longrightarrow> n \<le> MAX_FRAME_LEN"
  by (simp add: NOISE_BUF_def MAX_FRAME_LEN_def)

lemma send_in_step:
  assumes "transport_laws nz in_step" and "in_step a b" and "to_vec f = Some pt" and "fits pt"
  obtains ct a' b' where
    "\<And>inp out. send_encrypted nz pipe_ops to_vec f (inp, out) a = (Inr (), (inp, out @ [ct]), a')"
    "transport_open nz b ct = (Inr pt, b')" "in_step a' b'"
proof -
  from assms(1,2,4) obtain ct a' b' where
    "nz_seal nz a pt (length pt + AEAD_TAG_LEN) = (Some ct, a')" "length ct \<le> length pt + AEAD_TAG_LEN"
    "nz_open nz b ct (length ct) = (Some pt, b')" "in_step a' b'"
    unfolding transport_laws_def fits_def by blast
  with assms(3,4) show thesis
    by (intro that [of ct a' b'])
      (auto simp: send_encrypted_def transport_seal_def transport_open_def fits_def)
qed

lemma in_step_sym: "transport_laws nz in_step \<Longrightarrow> in_step a b \<Longrightarrow> in_step b a"
  unfolding transport_laws_def by blast

lemma recv_in_step:
  "transport_open nz b ct = (Inr pt, b') \<Longrightarrow> from_bytes pt = Some f \<Longrightarrow>
     recv_encrypted nz pipe_ops from_bytes (ct # inp, out) b = (Inr f, (inp, out), b')"
  by (simp add: recv_encrypted_def)

lemma roundtripD:
  assumes "postcard_roundtrip valid to_vec from_bytes" and "valid f"
  obtains b where "to_vec f = Some b" "from_bytes b = Some f"
  using assms unfolding postcard_roundtrip_def by blast

lemma client_fits:
  assumes "postcard_client_sizes to_vec" and "to_vec f = Some b" and "client_frame_size f \<le> 65519"
  shows "fits b"
proof (rule fits_size [OF _ assms(3)])
  show "length b \<le> client_frame_size f" using assms(1,2) unfolding postcard_client_sizes_def by blast
qed

lemma server_fits:
  assumes "postcard_sizes to_vec" and "to_vec f = Some b" and "frame_size f \<le> 65519"
  shows "fits b"
proof (rule fits_size [OF _ assms(3)])
  show "length b \<le> frame_size f" using assms(1,2) unfolding postcard_sizes_def by blast
qed

lemma fits_frame: "fits b \<Longrightarrow> length b \<le> MAX_FRAME_LEN"
  by (simp add: fits_def)

section \<open>The handshake\<close>

lemma handshake_runs:
  assumes "noise_completes nz in_step" and "length p \<le> PROLOGUE_MAX" "length psk = KEY_LEN"
  obtains m0 m1 ti tr where "in_step ti tr"
    "\<And>inp out. handshake_initiator nz pipe_ops psk p (m1 # inp, out) = (Inr ti, (inp, out @ [m0]))"
    "\<And>inp out. handshake_responder nz pipe_ops psk p (m0 # inp, out) = (Inr tr, (inp, out @ [m1]))"
proof -
  from assms obtain hi m0 hi1 hr hr1 m1 hr2 hi2 ti tr x y where
    "nz_build nz Initiator PATTERN p 0 psk = Some hi" "nz_write nz hi [] NOISE_BUF = Some (m0, hi1)"
    "length m0 \<le> NOISE_BUF" "nz_build nz Responder PATTERN p 0 psk = Some hr"
    "nz_read nz hr m0 NOISE_BUF = Some (x, hr1)" "nz_write nz hr1 [] NOISE_BUF = Some (m1, hr2)"
    "length m1 \<le> NOISE_BUF" "nz_read nz hi1 m1 NOISE_BUF = Some (y, hi2)"
    "nz_into_transport nz hi2 = Some ti" "nz_into_transport nz hr2 = Some tr" "in_step ti tr"
    unfolding noise_completes_def by metis
  then show thesis
    by (intro that [of ti tr m1 m0])
      (simp_all add: handshake_initiator_def handshake_responder_def initiator_def responder_def
        noise_fits_frame)
qed

section \<open>The session\<close>

text \<open>The conditions on the server's side: a free slot is not needed here, \<open>authenticate\<close> runs inside
  one. No timeout elapses, and the room is a configured one with the client's key.\<close>

definition no_timeouts :: "('t, 's, 'tx, 'w) conn_oracle \<Rightarrow> bool" where
  "no_timeouts orc \<longleftrightarrow>
     in_time (co_select orc) \<and> in_time (co_handshake orc) \<and> in_time (co_hello orc)"

definition room_for :: "kdf_ops \<Rightarrow> bytes \<Rightarrow> str \<Rightarrow> derived_keys \<Rightarrow> 'tx room_state \<Rightarrow> bool" where
  "room_for kdf pw name keys room \<longleftrightarrow>
     rs_room_id room = name \<and> validate_name name = Inr () \<and> length (rs_room_salt room) = 32 \<and>
     derive_keys kdf pw (rs_room_salt room) = Inr keys \<and> rs_psk room = dk_psk keys \<and>
     length (dk_psk keys) = KEY_LEN"

text \<open>The two programs over the same libraries, joined by pipes.\<close>

definition joined ::
  "('h, 't, pipe) client_env \<Rightarrow> ('h, 't, pipe, 'tx, 'w) server_env \<Rightarrow> ('t \<Rightarrow> 't \<Rightarrow> bool) \<Rightarrow> bool" where
  "joined cenv senv in_step \<longleftrightarrow>
     ce_noise cenv = se_noise senv \<and> ce_stream cenv = pipe_ops \<and> se_stream senv = pipe_ops \<and>
     postcard_roundtrip client_wf (ce_to_vec cenv) (se_from_bytes senv) \<and> postcard_client_sizes (ce_to_vec cenv) \<and>
     postcard_roundtrip server_wf (se_to_vec senv) (ce_from_bytes cenv) \<and> postcard_sizes (se_to_vec senv) \<and>
     noise_completes (se_noise senv) in_step \<and> transport_laws (se_noise senv) in_step"

lemma joinedD:
  assumes "joined cenv senv in_step"
  shows "ce_noise cenv = se_noise senv" "ce_stream cenv = pipe_ops" "se_stream senv = pipe_ops"
    "postcard_roundtrip client_wf (ce_to_vec cenv) (se_from_bytes senv)" "postcard_client_sizes (ce_to_vec cenv)"
    "postcard_roundtrip server_wf (se_to_vec senv) (ce_from_bytes cenv)" "postcard_sizes (se_to_vec senv)"
    "noise_completes (se_noise senv) in_step" "transport_laws (se_noise senv) in_step"
  using assms by (simp_all add: joined_def)

lemma session_reached:
  assumes env: "joined cenv senv in_step" and orc: "no_timeouts orc"
    and hub: "hub_rooms hub name = Some room" "room_for (ce_kdf cenv) pw name keys room"
    and user: "username_ok username"
    and room: "join_ok senv orc username room w" "room_inv (co_now orc) room"
  shows "\<exists>c2s s2c s2c1 tc ts tr room' w'.
    connect cenv username name pw (s2c, []) =
      (Inr (dk_room_key keys, co_user_id orc, ms_snapshot (rs_messages room'), tc), ([], c2s)) \<and>
    authenticate senv orc hub (c2s, []) = (Inr (room, username, ts), ([], s2c1)) \<and>
    serve senv orc [] username room ([], s2c1) ts w = (None, room', ([], s2c), tr, w') \<and>
    room' = fst (joined_room senv orc username room w) \<and> in_step tc tr \<and> conn_room_ok name (co_user_id orc) username (co_now orc) room'"
proof -
  note J = joinedD [OF env]
  have name: "name \<noteq> []" "str_len name \<le> MAX_ROOM_ID_LEN" "rs_room_id room = name"
    "length (rs_room_salt room) = 32" "derive_keys (ce_kdf cenv) pw (rs_room_salt room) = Inr keys"
    "rs_psk room = dk_psk keys" "length (dk_psk keys) = KEY_LEN"
    using hub(2) by (auto simp: room_for_def validate_name_def split: if_splits)
  define room2 where "room2 = fst (joined_room senv orc username room w)"
  define w3 where "w3 = snd (joined_room senv orc username room w)"
  have ok: "conn_room_ok name (co_user_id orc) username (co_now orc) room2"
    using joined_room_ok [OF room user] name(3) by (simp add: room2_def)
  then have hist: "history_ok (ms_snapshot (rs_messages room2))"
    by (simp add: conn_room_ok_def room_inv_def)
  let ?p = "build_prologue name (rs_room_salt room) PROTOCOL_VERSION"
  obtain b0 where b0: "ce_to_vec cenv (RoomSelect name) = Some b0" "se_from_bytes senv b0 = Some (RoomSelect name)"
    by (rule roundtripD [OF J(4), of "RoomSelect name"]) (use hub(2) room_name_wf in \<open>simp add: room_for_def\<close>)
  obtain b1 where b1: "se_to_vec senv (ServerHello (rs_room_salt room) PROTOCOL_VERSION) = Some b1"
    "ce_from_bytes cenv b1 = Some (ServerHello (rs_room_salt room) PROTOCOL_VERSION)"
    by (rule roundtripD [OF J(6), of "ServerHello (rs_room_salt room) PROTOCOL_VERSION"]) (use name(4) in simp)
  obtain b2 where b2: "ce_to_vec cenv (ClientHello username) = Some b2"
    "se_from_bytes senv b2 = Some (ClientHello username)"
    by (rule roundtripD [OF J(4), of "ClientHello username"]) (use user username_wf in simp)
  let ?wel = "Welcome (co_user_id orc) (ms_snapshot (rs_messages room2))"
  obtain b3 where b3: "se_to_vec senv ?wel = Some b3" "ce_from_bytes cenv b3 = Some ?wel"
    by (rule roundtripD [OF J(6) history_wf [OF hist]])
  have "length ?p \<le> PROLOGUE_MAX"
    using name(2,4) by (simp add: build_prologue_def str_len_def PROLOGUE_MAX_def MAX_ROOM_ID_LEN_def)
  have fit: "fits b0" "fits b2"
    using client_fits [OF J(5) b0(1)] client_fits [OF J(5) b2(1)] name(2) user
    by (simp_all add: VARINT_MAX_def MAX_ROOM_ID_LEN_def MAX_USERNAME_LEN_def username_ok_def)
  have fit1: "fits b1" using server_fits [OF J(7) b1(1)] name(4) by (simp add: VARINT_MAX_def)
  have fit3: "fits b3" by (rule welcome_fits [OF J(7) hist b3(1)])
  obtain m0 m1 ti tr where hs: "in_step ti tr"
    "\<And>inp out. handshake_initiator (se_noise senv) pipe_ops (dk_psk keys) ?p (m1 # inp, out) = (Inr ti, (inp, out @ [m0]))"
    "\<And>inp out. handshake_responder (se_noise senv) pipe_ops (dk_psk keys) ?p (m0 # inp, out) = (Inr tr, (inp, out @ [m1]))"
    using handshake_runs [OF J(8) \<open>length ?p \<le> PROLOGUE_MAX\<close> name(7)] by metis
  obtain ct2 ti2 tr2 where c2: "\<And>inp out. send_encrypted (se_noise senv) pipe_ops (ce_to_vec cenv)
      (ClientHello username) (inp, out) ti = (Inr (), (inp, out @ [ct2]), ti2)"
    "transport_open (se_noise senv) tr ct2 = (Inr b2, tr2)" "in_step ti2 tr2"
    using send_in_step [of "se_noise senv" in_step ti tr "ce_to_vec cenv" "ClientHello username" b2]
      J(9) hs(1) b2(1) fit(2) by metis
  obtain ct3 tr3 ti3 where c3: "\<And>inp out. send_encrypted (se_noise senv) pipe_ops (se_to_vec senv)
      ?wel (inp, out) tr2 = (Inr (), (inp, out @ [ct3]), tr3)"
    "transport_open (se_noise senv) ti2 ct3 = (Inr b3, ti3)" "in_step tr3 ti3"
    using send_in_step [of "se_noise senv" in_step tr2 ti2 "se_to_vec senv" ?wel b3]
      J(9) in_step_sym [OF J(9) c2(3)] b3(1) fit3 by metis
  have "connect cenv username name pw ([b1, m1, ct3], []) =
      (Inr (dk_room_key keys, co_user_id orc, ms_snapshot (rs_messages room2), ti3), ([], [b0, m0, ct2]))"
    using b0 b1 fit fits_frame name(5) hs(2) c2(1) recv_in_step [where from_bytes = "ce_from_bytes cenv", OF c3(2) b3(2)]
    by (simp add: connect_def J(1,2) send_postcard_def recv_postcard_def Let_def)
  moreover have "authenticate senv orc hub ([b0, m0, ct2], []) = (Inr (room, username, tr2), ([], [b1, m1]))"
    using b0 b1 fit1 fits_frame name hs(3) recv_in_step [where from_bytes = "se_from_bytes senv", OF c2(2) b2(2)] user orc hub(1)
    by (simp add: auth_outs find_room_def
        J(3) send_postcard_def recv_postcard_def awaited_def no_timeouts_def Let_def)
  moreover have "serve senv orc [] username room ([], [b1, m1]) tr2 w =
      (None, room2, ([], [b1, m1] @ [ct3]), tr3, w3)"
    using c3(1) by (simp add: serve_alt J(3) room2_def w3_def split_def)
  moreover have "in_step ti3 tr3" by (rule in_step_sym [OF J(9) c3(3)])
  ultimately show ?thesis using ok room2_def by fastforce
qed

end
