(* ===== verification/ClientRules.thy ===== *)
theory ClientRules
  imports ClientSession
begin

text \<open>
  What the client guarantees: the pane stays well-formed through the whole session, the messages
  it sends carry its identity and strictly increasing counters, replayed messages are never shown,
  and a tampered message never shows its text.
\<close>

section \<open>Invariants of a session\<close>

text \<open>
  What holds of a new client state and survives a key press, a frame, a tick, a drawing and the
  seeding holds throughout a run. The keys and the frames may be known to be typed.
\<close>

locale ui_invariant =
  fixes I :: "ui_state \<Rightarrow> bool" and key_typed :: "key_event \<Rightarrow> bool" and frame_typed :: "server_frame \<Rightarrow> bool"
  assumes key_step: "I s \<Longrightarrow> key_typed k \<Longrightarrow> I (snd (handle_key ae ki key k s))"
    and frame_step: "I s \<Longrightarrow> frame_typed f \<Longrightarrow> I (snd (handle_server_frame ae t ms key f s))"
    and tick_step: "I s \<Longrightarrow> I (tick_expire_ephemerals t s)"
    and draw_step: "I s \<Longrightarrow> I (snd (render clk h c s))"
    and seed_step: "I s \<Longrightarrow> frame_typed (ServerMessage m) \<Longrightarrow>
      I (ui_push (decrypt_to_display ae t key m) (snd (try_accept_counter u n s)))"
    and history: "frame_typed (Welcome u hist) \<Longrightarrow> m \<in> set hist \<Longrightarrow> frame_typed (ServerMessage m)"
begin

lemma seed_keeps: "I s \<Longrightarrow> \<forall>(t, m) \<in> set ms. frame_typed (ServerMessage m) \<Longrightarrow> I (seed_history ae key ms s)"
  by (induction ae key ms s rule: seed_history.induct) (auto simp: seed_step)

lemma event_loop_keeps:
  assumes frames: "\<forall>b f. ce_from_bytes env b = Some f \<longrightarrow> frame_typed f"
  shows "I st \<Longrightarrow> \<forall>(d, ev) \<in> set es. \<forall>k ki. ev = KeyPressed k ki \<longrightarrow> key_typed k \<Longrightarrow>
    event_loop env key es st s t = (r, st', s', t') \<Longrightarrow> I st'"
  using frames
proof (induction env key es st s t rule: event_loop.induct)
  case (3 env key clk height corner ev es st s t)
  define st0 where "st0 = snd (render clk height corner st)"
  have ok: "I st0" using "3.prems"(1) by (simp add: st0_def draw_step)
  note IH = "3.IH" [OF st0_def] and loop = "3.prems"(3) [unfolded event_loop.simps Let_def, folded st0_def]
    and typed = "3.prems"(2,4)
  show ?case
  proof (cases ev)
    case (KeyPressed k ki)
    obtain act st1 where h: "handle_key (ce_aead env) ki key k st0 = (act, st1)"
      by (cases "handle_key (ce_aead env) ki key k st0")
    with ok key_step [of st0 k "ce_aead env" ki key] typed(1) KeyPressed have "I st1" by simp
    with IH KeyPressed loop h typed show ?thesis
      by (auto split: key_action.splits prod.splits sum.splits)
  next
    case (Incoming now ms)
    have "I st1" if "handle_server_frame (ce_aead env) now ms key msg st0 = (e, st1)"
      "ce_from_bytes env pt = Some msg" for msg e st1 pt
      using ok frame_step [of st0 msg "ce_aead env" now ms key] typed(2) that by simp
    with IH Incoming loop ok typed show ?thesis
      by (auto split: recv_event.splits prod.splits sum.splits option.splits)
  qed (use IH loop ok typed in \<open>auto simp: tick_step\<close>)
qed simp_all

lemma client_run_keeps:
  assumes frames: "\<forall>b f. ce_from_bytes env b = Some f \<longrightarrow> frame_typed f"
    and keys: "\<forall>(d, ev) \<in> set events. \<forall>k ki. ev = KeyPressed k ki \<longrightarrow> key_typed k"
    and start: "\<And>u. I (ui_state_new name u addr room)"
    and run: "client_run env ops draws addr name room pw clk events s x = (r, Some st, s', x')"
  shows "I st"
proof -
  obtain r1 s1 where c: "connect env name room pw s = (r1, s1)" by (cases "connect env name room pw s")
  with run obtain key u h t where r1: "r1 = Inr (key, u, h, t)"
    by (cases r1) (auto simp: client_run_def)
  let ?st = "seed_history (ce_aead env) key (zip (map clk [0..<length h]) h) (ui_state_new name u addr room)"
  obtain b where "ce_from_bytes env b = Some (Welcome u h)" using connect_welcome [OF c [unfolded r1]] by blast
  then have "\<forall>(t, m) \<in> set (zip (map clk [0..<length h]) h). frame_typed (ServerMessage m)"
    using frames history by (fastforce dest: set_zip_rightD)
  then have ok: "I ?st" by (intro seed_keeps start)
  obtain g x1 where g: "guard_enter ops x = (g, x1)" by (cases "guard_enter ops x")
  obtain r2 st2 s2 t2 where e: "event_loop env key events ?st s1 t = (r2, st2, s2, t2)"
    by (cases "event_loop env key events ?st s1 t")
  with run c r1 g have "st \<in> {?st, st2}"
    by (cases g; cases r2) (auto simp: client_run_def Let_def)
  then show ?thesis using ok event_loop_keeps [OF frames ok keys e] by blast
qed

end

interpretation pane: ui_invariant pane_ok "\<lambda>_. True" "\<lambda>_. True"
  by unfold_locales
    (simp_all add: pane_ok_handle_key pane_ok_server_frame pane_ok_tick pane_ok_render pane_ok_accept
      pane_ok_push)

lemma client_run_pane:
  assumes "client_run env ops draws addr name room pw clk events s x = (r, Some st, s', x')"
  shows "pane_ok st"
  by (rule pane.client_run_keeps [OF _ _ pane_ok_new assms]) simp_all

section \<open>The terminal\<close>

text \<open>What a client leaves behind on the terminal.\<close>

lemma client_run_terminal:
  assumes laws: "term_laws ops raw alt" "restorable ops"
    and run: "client_run env ops draws addr name room pw clk events s x = (Some r, st, s', x')"
  shows "case st of
      None \<Rightarrow> x' = x
    | Some _ \<Rightarrow>
        (case guard_enter ops x of
           (Inr _, _) \<Rightarrow> \<not> raw x' \<and> \<not> alt x'
         | (Inl e, x1) \<Rightarrow> x' = x1 \<and> (fst (to_enable_raw ops x) \<longrightarrow> raw x'))"
proof -
  obtain r1 s1 where c: "connect env name room pw s = (r1, s1)" by (cases "connect env name room pw s")
  show ?thesis
  proof (cases r1)
    case (Inl e)
    with run c show ?thesis by (auto simp: client_run_def)
  next
    case (Inr y)
    obtain key u h t where y: "y = (key, u, h, t)" by (cases y)
    let ?st = "seed_history (ce_aead env) key (zip (map clk [0..<length h]) h) (ui_state_new name u addr room)"
    obtain g x1 where g: "guard_enter ops x = (g, x1)" by (cases "guard_enter ops x")
    obtain r2 st2 s2 t2 where e: "event_loop env key events ?st s1 t = (r2, st2, s2, t2)"
      by (cases "event_loop env key events ?st s1 t")
    show ?thesis
    proof (cases g)
      case gl: (Inl e)
      with run c Inr y g have "st = Some ?st" "x' = x1" by (auto simp: client_run_def Let_def)
      with gl g failed_enter_keeps_raw [OF laws(1), of x e x1] show ?thesis by simp
    next
      case gr: (Inr z)
      with run c Inr y g e have "st = Some st2" "x' = terminal_drop ops (draws x1)"
        by (cases r2; auto simp: client_run_def Let_def)+
      with gr g drop_restores [OF laws, of "draws x1"] show ?thesis by simp
    qed
  qed
qed

section \<open>Outgoing messages\<close>

text \<open>Everything that happens to the client's state, and the messages it sends on the way.\<close>

datatype ui_op =
    OpKey key_event key_inputs
  | OpFrame instant u64 server_frame
  | OpTick instant
  | OpDraw "nat \<Rightarrow> instant" nat "u16 \<times> u16"

primrec ui_step :: "aead_ops \<Rightarrow> bytes \<Rightarrow> ui_op \<Rightarrow> ui_state \<Rightarrow> key_action \<times> ui_state" where
  "ui_step ae key (OpKey k ki) s = handle_key ae ki key k s"
| "ui_step ae key (OpFrame t ms f) s = (NoAction, snd (handle_server_frame ae t ms key f s))"
| "ui_step ae key (OpTick t) s = (NoAction, tick_expire_ephemerals t s)"
| "ui_step ae key (OpDraw clk h c) s = (NoAction, snd (render clk h c s))"

fun sent_ads :: "aead_ops \<Rightarrow> bytes \<Rightarrow> ui_op list \<Rightarrow> ui_state \<Rightarrow> message_ad list" where
  "sent_ads ae key [] s = []"
| "sent_ads ae key (x # xs) s =
     (case ui_step ae key x s of
        (SendFrame (ClientMessage ad ct), s) \<Rightarrow> ad # sent_ads ae key xs s
      | (_, s) \<Rightarrow> sent_ads ae key xs s)"

definition identity :: "ui_state \<Rightarrow> uuid \<times> str" where
  "identity s = (ui_user_id s, ui_username s)"

lemma push_frame [ui_simps]:
  "ui_next_counter (ui_push m s) = ui_next_counter s" "identity (ui_push m s) = identity s"
  "ui_seen_counters (ui_push m s) = ui_seen_counters s"
  by (simp_all add: ui_push_def clamp_scroll_def identity_def Let_def)

lemma push_system_frame [ui_simps]:
  "ui_next_counter (push_system t x s) = ui_next_counter s" "identity (push_system t x s) = identity s"
  "ui_seen_counters (push_system t x s) = ui_seen_counters s"
  by (simp_all add: push_system_def ui_simps)

lemma accept_frame [ui_simps]:
  "ui_next_counter (snd (try_accept_counter u c s)) = ui_next_counter s"
  "identity (snd (try_accept_counter u c s)) = identity s"
  "ui_messages (snd (try_accept_counter u c s)) = ui_messages s"
  by (simp_all add: try_accept_counter_def Let_def identity_def)

lemma server_frame_frame [ui_simps]:
  "ui_next_counter (snd (handle_server_frame ae t ms key f s)) = ui_next_counter s"
  "identity (snd (handle_server_frame ae t ms key f s)) = identity s"
proof -
  have clear: "ui_next_counter (clear_messages s) = ui_next_counter s"
    "identity (clear_messages s) = identity s"
    by (simp_all add: clear_messages_def identity_def)
  show "ui_next_counter (snd (handle_server_frame ae t ms key f s)) = ui_next_counter s"
    "identity (snd (handle_server_frame ae t ms key f s)) = identity s"
    using accept_frame [of _ _ s] clear
    by (cases f; simp add: handle_server_frame_def ui_simps split: prod.split bool.split;
        metis snd_conv)+
qed

lemma tick_draw_frame [ui_simps]:
  "ui_next_counter (tick_expire_ephemerals t s) = ui_next_counter s"
  "identity (tick_expire_ephemerals t s) = identity s"
  "ui_next_counter (snd (render clk h c s)) = ui_next_counter s"
  "identity (snd (render clk h c s)) = identity s"
  by (simp_all add: tick_expire_ephemerals_def render_def clamp_scroll_def identity_def Let_def)

lemma submit_line_frame:
  "identity (snd (submit_line ae ki key line s)) = identity s"
  "ui_next_counter (snd (submit_line ae ki key line s)) \<in>
     {ui_next_counter s, u64_saturating_add (ui_next_counter s) 1}"
proof -
  have "identity (snd (submit_line ae ki key line s)) = identity s \<and>
    ui_next_counter (snd (submit_line ae ki key line s)) \<in>
     {ui_next_counter s, u64_saturating_add (ui_next_counter s) 1}"
  proof (cases "trim_end line = [] \<or> is_command (trim_end line)")
    case True
    then have "snd (submit_line ae ki key line s) = s"
      using submit_line_command [of line ae ki key s] by (auto simp: is_command_def)
    then show ?thesis by simp
  next
    case False
    have "identity (s\<lparr>ui_next_counter := c\<rparr>) = identity s" for c by (simp add: identity_def)
    with False show ?thesis
      by (auto simp: submit_line_send Let_def ui_simps split: prod.split sum.split)
  qed
  then show "identity (snd (submit_line ae ki key line s)) = identity s"
    "ui_next_counter (snd (submit_line ae ki key line s)) \<in>
     {ui_next_counter s, u64_saturating_add (ui_next_counter s) 1}" by blast+
qed

lemma handle_key_frame:
  "identity (snd (handle_key ae ki key k s)) = identity s"
  "ui_next_counter (snd (handle_key ae ki key k s)) \<in>
     {ui_next_counter s, u64_saturating_add (ui_next_counter s) 1}"
  using submit_line_frame [of ae ki key "ui_input s" "s\<lparr>ui_input := []\<rparr>"]
  by (auto simp: handle_key_def reveal_ephemerals_def scroll_up_def scroll_down_def identity_def
      scroll_to_oldest_def scroll_to_latest_def clamp_scroll_def Let_def split: key_code.split)

lemma handle_key_message:
  assumes "handle_key ae ki key k s = (SendFrame (ClientMessage ad ct), s')"
  shows "(ad_from ad, ad_username ad) = identity s" and "ad_counter ad = ui_next_counter s"
    and "ui_next_counter s' = u64_saturating_add (ui_next_counter s) 1"
proof -
  have "submit_line ae ki key (ui_input s) (s\<lparr>ui_input := []\<rparr>) = (SendFrame (ClientMessage ad ct), s')"
    using assms by (auto simp: handle_key_def split: if_splits key_code.splits)
  from submit_line_message(1-4) [OF this]
  show "(ad_from ad, ad_username ad) = identity s" "ad_counter ad = ui_next_counter s"
    "ui_next_counter s' = u64_saturating_add (ui_next_counter s) 1"
    by (simp_all add: identity_def)
qed

lemma unat_next: "unat c + Suc n < 2 ^ 64 \<Longrightarrow> unat (u64_saturating_add c 1) = Suc (unat c)"
  by (simp add: unat_u64_saturating_add)

lemma ui_step_frame:
  "identity (snd (ui_step ae key x s)) = identity s"
  "ui_next_counter (snd (ui_step ae key x s)) \<in>
     {ui_next_counter s, u64_saturating_add (ui_next_counter s) 1}"
  using handle_key_frame by (cases x; simp add: ui_simps)+

text \<open>The counters of a session that sends fewer than \<open>2 ^ 64 - 1\<close> messages increase strictly.\<close>

lemma sent_ads_counters:
  assumes "unat (ui_next_counter s) + length xs < 2 ^ 64"
  shows "sorted_wrt (<) (map ad_counter (sent_ads ae key xs s)) \<and>
    (\<forall>ad \<in> set (sent_ads ae key xs s).
       ui_next_counter s \<le> ad_counter ad \<and> (ad_from ad, ad_username ad) = identity s)"
  using assms
proof (induction xs arbitrary: s)
  case (Cons x xs)
  obtain act s1 where x: "ui_step ae key x s = (act, s1)" by (cases "ui_step ae key x s")
  have id: "identity s1 = identity s" using ui_step_frame(1) [of ae key x s] x by simp
  have nxt: "ui_next_counter s1 \<in> {ui_next_counter s, u64_saturating_add (ui_next_counter s) 1}"
    using ui_step_frame(2) [of ae key x s] x by simp
  have succ: "unat (u64_saturating_add (ui_next_counter s) 1) = Suc (unat (ui_next_counter s))"
    using Cons.prems by (intro unat_next [of _ "length xs"]) simp
  have le: "ui_next_counter s \<le> ui_next_counter s1"
    using nxt succ by (auto simp: word_le_nat_alt)
  have "unat (ui_next_counter s1) + length xs < 2 ^ 64"
    using nxt succ Cons.prems by auto
  note IH = Cons.IH [OF this]
  show ?case
  proof (cases "\<exists>ad ct. act = SendFrame (ClientMessage ad ct)")
    case True
    then obtain ad ct where act: "act = SendFrame (ClientMessage ad ct)" by blast
    with x obtain k ki where op: "x = OpKey k ki" by (cases x) auto
    with x act have h: "handle_key ae ki key k s = (SendFrame (ClientMessage ad ct), s1)" by simp
    have "ui_next_counter s < ui_next_counter s1"
      using handle_key_message(3) [OF h] succ by (simp add: word_less_nat_alt)
    with IH id le handle_key_message(1,2) [OF h] x act show ?thesis
      by (fastforce intro: less_le_trans)
  next
    case False
    then have "sent_ads ae key (x # xs) s = sent_ads ae key xs s1"
      using x by (auto split: key_action.splits client_frame.splits)
    with IH id le show ?thesis by (auto intro: order_trans)
  qed
qed simp

section \<open>Incoming messages\<close>

lemma handle_message_frame:
  "handle_server_frame ae t ms key (ServerMessage m) s =
     (None,
      if seen_counter s (ad_from (rm_ad m)) < ad_counter (rm_ad m)
      then ui_push (decrypt_to_display ae t key m)
        (snd (try_accept_counter (ad_from (rm_ad m)) (ad_counter (rm_ad m)) s))
      else push_system ms (lit ''dropped replay from '' @ rm_username m)
        (snd (try_accept_counter (ad_from (rm_ad m)) (ad_counter (rm_ad m)) s)))"
proof -
  obtain ok s1 where a: "try_accept_counter (ad_from (rm_ad m)) (ad_counter (rm_ad m)) s = (ok, s1)"
    by (cases "try_accept_counter (ad_from (rm_ad m)) (ad_counter (rm_ad m)) s")
  moreover from a client_replay.accept_iff [of "ad_from (rm_ad m)" "ad_counter (rm_ad m)" s]
  have "ok \<longleftrightarrow> seen_counter s (ad_from (rm_ad m)) < ad_counter (rm_ad m)" by simp
  ultimately show ?thesis by (cases ok) (simp_all add: handle_server_frame_def)
qed

text \<open>
  A sequence of arriving messages: the client's state after it, the verdict of the replay check on
  each of them, and what each adds to the pane under its verdict.
\<close>

definition presented :: "room_message \<Rightarrow> uuid \<times> u64" where
  "presented m = (ad_from (rm_ad m), ad_counter (rm_ad m))"

fun received ::
  "aead_ops \<Rightarrow> bytes \<Rightarrow> (instant \<times> u64 \<times> room_message) list \<Rightarrow> ui_state \<Rightarrow> ui_state" where
  "received ae key [] s = s"
| "received ae key ((t, ms, m) # fs) s =
     received ae key fs (snd (handle_server_frame ae t ms key (ServerMessage m) s))"

fun verdicts ::
  "aead_ops \<Rightarrow> bytes \<Rightarrow> (instant \<times> u64 \<times> room_message) list \<Rightarrow> ui_state \<Rightarrow> bool list" where
  "verdicts ae key [] s = []"
| "verdicts ae key ((t, ms, m) # fs) s =
     fst (try_accept_counter (ad_from (rm_ad m)) (ad_counter (rm_ad m)) s) #
       verdicts ae key fs (snd (handle_server_frame ae t ms key (ServerMessage m) s))"

fun pane_entry :: "aead_ops \<Rightarrow> bytes \<Rightarrow> bool \<Rightarrow> instant \<times> u64 \<times> room_message \<Rightarrow> display_msg" where
  "pane_entry ae key True (t, ms, m) = decrypt_to_display ae t key m"
| "pane_entry ae key False (t, ms, m) =
     \<lparr>dm_ts_ms = ms, dm_kind = DisplaySystem (lit ''dropped replay from '' @ rm_username m),
      dm_ephemeral = None\<rparr>"

text \<open>The messages that passed.\<close>

definition shown ::
  "aead_ops \<Rightarrow> bytes \<Rightarrow> (instant \<times> u64 \<times> room_message) list \<Rightarrow> ui_state \<Rightarrow> room_message list" where
  "shown ae key fs s = map (\<lambda>(_, _, _, m). m) (filter fst (zip (verdicts ae key fs s) fs))"

lemma accept_run_seen:
  "ui_seen_counters s = ui_seen_counters s' \<Longrightarrow>
     accept_run try_accept_counter s xs = accept_run try_accept_counter s' xs"
proof (induction xs arbitrary: s s')
  case (Cons x xs)
  obtain u c where x: "x = (u, c)" by (cases x)
  have "fst (try_accept_counter u c s) = fst (try_accept_counter u c s')"
    "ui_seen_counters (snd (try_accept_counter u c s)) = ui_seen_counters (snd (try_accept_counter u c s'))"
    using Cons.prems by (simp_all add: try_accept_counter_def Let_def split: option.split)
  with Cons.IH [OF this(2)] x show ?case by simp
qed simp

lemma shown_accept_run:
  "map presented (shown ae key fs s) =
     accept_run try_accept_counter s (map (\<lambda>f. presented (snd (snd f))) fs)"
proof (induction ae key fs s rule: verdicts.induct)
  case (2 ae key t ms m fs s)
  let ?s = "snd (handle_server_frame ae t ms key (ServerMessage m) s)"
  let ?a = "snd (try_accept_counter (ad_from (rm_ad m)) (ad_counter (rm_ad m)) s)"
  have "ui_seen_counters ?s = ui_seen_counters ?a"
    by (simp add: handle_message_frame ui_simps)
  from accept_run_seen [OF this] 2 show ?case
    by (simp add: presented_def shown_def)
qed (simp add: shown_def)

lemma pane_after_frame:
  "ui_messages (snd (handle_server_frame ae t ms key (ServerMessage m) s)) =
     ui_messages (ui_push (pane_entry ae key
       (fst (try_accept_counter (ad_from (rm_ad m)) (ad_counter (rm_ad m)) s)) (t, ms, m)) s)"
  using client_replay.accept_iff [of "ad_from (rm_ad m)" "ad_counter (rm_ad m)" s]
  by (simp add: handle_message_frame push_system_def ui_messages_push accept_frame)

text \<open>The pane after the sequence: every message left its entry, up to the cap.\<close>

lemma received_pane:
  assumes "length (ui_messages s) \<le> HISTORY_CAP"
  shows "ui_messages (received ae key fs s) =
    last_n HISTORY_CAP (ui_messages s @ map2 (pane_entry ae key) (verdicts ae key fs s) fs)"
  using assms
proof (induction ae key fs s rule: verdicts.induct)
  case (1 ae key s)
  then show ?case by (simp add: last_n_all)
next
  case (2 ae key t ms m fs s)
  let ?s = "snd (handle_server_frame ae t ms key (ServerMessage m) s)"
  let ?e = "pane_entry ae key (fst (try_accept_counter (ad_from (rm_ad m)) (ad_counter (rm_ad m)) s)) (t, ms, m)"
  have s1: "ui_messages ?s = last_n HISTORY_CAP (ui_messages s @ [?e])"
    using scrollback.items_push_last_n [OF "2.prems"] by (simp add: pane_after_frame)
  then have "length (ui_messages ?s) \<le> HISTORY_CAP" by (simp add: length_last_n)
  from "2.IH" [OF this] s1 show ?case by (simp add: last_n_last_n_append)
qed

text \<open>A ciphertext under other associated data than it was sealed with never shows a text.\<close>

lemma display_tampered:
  assumes "aead_binding ae" and "ad_injective ae"
    and "seal ae random key pt ad = Inr (rm_ciphertext m)"
    and "\<And>nonce. random = Some nonce \<Longrightarrow> length nonce = NONCE_LEN" and "rm_ad m \<noteq> ad"
  shows "dm_kind (decrypt_to_display ae now key m) =
    DisplaySystem (lit ''[decryption failed] '' @ rm_username m)"
  using assms(3)
proof (rule seal_InrD)
  fix nonce aad ct
  assume s: "random = Some nonce" "ae_ad_to_vec ae ad = Some aad"
    "ae_encrypt ae key nonce pt aad = Some ct" "rm_ciphertext m = nonce @ ct"
  have "room_open ae key (nonce @ ct) (rm_ad m) \<in> range Inl"
  proof (cases "ae_ad_to_vec ae (rm_ad m)")
    case None
    with assms(4) s(1) show ?thesis by (simp add: room_open_nonce_ct)
  next
    case (Some aad')
    with assms(2,5) s(2) have "aad' \<noteq> aad" unfolding ad_injective_def by metis
    with assms(1) s(3) have "ae_decrypt ae key nonce ct aad' = None" by (simp add: aead_binding_def)
    with Some assms(4) s(1) show ?thesis by (simp add: room_open_nonce_ct)
  qed
  with s(4) show ?thesis by (auto simp: decrypt_to_display_def simp del: lit_simps)
qed

text \<open>The outer name of a message is not authenticated, and it is the one shown.\<close>

lemma display_relabelled:
  "dm_kind (decrypt_to_display ae now key m) = DisplayMessage name t \<Longrightarrow>
     dm_kind (decrypt_to_display ae now key (m\<lparr>rm_username := other\<rparr>)) = DisplayMessage other t"
  by (simp add: decrypt_to_display_def Let_def split: sum.splits)

end
