(* ===== verification/Delivery.thy ===== *)
theory Delivery
  imports Establish ClientRules
begin

text \<open>
  One message from the keyboard of one user to the screen of another: the key press and the event
  loop of the sender's client, the select loop and the handler of the sender's connection, the
  receiver's outbox and select loop, and the event loop of the receiver's client.
\<close>

section \<open>What was typed is what is shown\<close>

lemma set_line_body: "set (fst (line_body t)) \<subseteq> set t"
  using set_trim
  by (fastforce simp: line_body_def strip_prefix_Some simp del: lit_simps split: option.splits)

lemma handle_key_submit:
  "handle_key ae ki key k s = (SendFrame f, s') \<Longrightarrow>
     submit_line ae ki key (ui_input s) (s\<lparr>ui_input := []\<rparr>) = (SendFrame f, s')"
  by (auto simp: handle_key_def split: if_splits key_code.splits)

lemma display_ephemeral:
  "dm_kind (decrypt_to_display ae now key m) = DisplayMessage name t \<Longrightarrow>
     (dm_ephemeral (decrypt_to_display ae now key m) \<noteq> None) = ad_ephemeral (rm_ad m)"
  by (simp add: decrypt_to_display_def Let_def split: sum.splits)

lemma typed_text_shown:
  assumes "aead_correct ae" and "\<forall>c \<in> set (ui_input s). scalar c"
    and "\<forall>nonce. ki_random ki = Some nonce \<longrightarrow> length nonce = NONCE_LEN"
    and "handle_key ae ki key k s = (SendFrame (ClientMessage ad ct), s')"
  shows "dm_kind (decrypt_to_display ae now key (stored_message u name ad ct)) =
      DisplayMessage name (fst (line_body (trim_end (ui_input s)))) \<and>
    (dm_ephemeral (decrypt_to_display ae now key (stored_message u name ad ct)) \<noteq> None) =
      snd (line_body (trim_end (ui_input s)))"
proof -
  let ?b = "line_body (trim_end (ui_input s))"
  note sent = submit_line_message [OF handle_key_submit [OF assms(4)]]
  have sc: "\<forall>c \<in> set (fst ?b). scalar c"
    using assms(2) set_line_body [of "trim_end (ui_input s)"] set_trim_end [of "ui_input s"] by blast
  have "dm_kind (decrypt_to_display ae now key (stored_message u name ad ct)) =
      DisplayMessage (rm_username (stored_message u name ad ct)) (fst ?b)"
    by (rule display_sealed [OF assms(1) _ _ sc, of "ki_random ki"])
      (use sent(7) assms(3) in \<open>simp_all add: stored_message_def\<close>)
  then have kind: "dm_kind (decrypt_to_display ae now key (stored_message u name ad ct)) =
      DisplayMessage name (fst ?b)"
    by (simp add: stored_message_def)
  with display_ephemeral [OF kind] sent(8) show ?thesis by (simp add: stored_message_def)
qed

section \<open>The receiving end of an outbox\<close>

text \<open>\<^verbatim>\<open>rx.recv()\<close> yields the oldest frame that waits in the channel.\<close>

definition recv_laws ::
  "('tx \<Rightarrow> 'w \<Rightarrow> server_frame option \<times> 'w) \<Rightarrow> ('w \<Rightarrow> 'tx \<Rightarrow> server_frame list) \<Rightarrow> bool" where
  "recv_laws recv queued \<longleftrightarrow>
     (\<forall>tx w f fs. queued w tx = f # fs \<longrightarrow>
        fst (recv tx w) = Some f \<and> queued (snd (recv tx w)) tx = fs)"

section \<open>The hops\<close>

text \<open>Sender's client to sender's connection.\<close>

lemma client_sends:
  assumes env: "joined cenv senv in_step" and step: "in_step tc ts"
    and typed: "handle_key (ce_aead cenv) ki key k (snd (render clk h c st)) = (SendFrame f, st')"
    and size: "client_frame_size f \<le> 65519" "client_wf f"
  obtains b ct tc' ts' where
    "event_loop cenv key [(Drawn clk h c, KeyPressed k ki)] st (inp, out) tc = (None, st', (inp, out @ [ct]), tc')"
    "transport_open (se_noise senv) ts ct = (Inr b, ts')" "se_from_bytes senv b = Some f" "in_step tc' ts'"
proof -
  note J = joinedD [OF env]
  obtain b where b: "ce_to_vec cenv f = Some b" "se_from_bytes senv b = Some f"
    by (rule roundtripD [OF J(4) size(2)])
  have "fits b" by (rule client_fits [OF J(5) b(1) size(1)])
  then obtain ct tc' ts' where
    "\<And>inp out. send_encrypted (se_noise senv) pipe_ops (ce_to_vec cenv) f (inp, out) tc =
      (Inr (), (inp, out @ [ct]), tc')"
    "transport_open (se_noise senv) ts ct = (Inr b, ts')" "in_step tc' ts'"
    using send_in_step [of "se_noise senv" in_step tc ts "ce_to_vec cenv" f b] J(9) step b(1) by metis
  with typed b(2) show thesis
    by (intro that [of ct tc' b ts']) (simp_all add: J(1,2))
qed

text \<open>Sender's connection to the outboxes of the room.\<close>

lemma connection_handles:
  assumes env: "joined cenv senv in_step"
    and arrived: "transport_open (se_noise senv) ts ct = (Inr b, ts')"
      "se_from_bytes senv b = Some (ClientMessage ad body)"
    and ok: "message_accepted clk room u name ad body"
    and laws: "mpsc_laws (se_try_send senv) queued accepting"
    and order: "iteration_order (cm_senders (rs_connections room)) (hc_order clk)"
    and inj: "distinct_channels (rs_connections room)"
  obtains room' w' where
    "pump senv u name rx [PumpIncoming clk] room ([ct], []) ts w = (None, room', ([], []), ts', w')"
    "\<And>tx. queued w' tx = queued w tx @
       (if tx \<in> ran (cm_senders (rs_connections room)) \<and> accepting w tx
        then [ServerMessage (stored_message u name ad body)] else [])"
proof -
  note J = joinedD [OF env]
  obtain room' w' where b: "broadcast (se_try_send senv) (hc_order clk) (message_room clk room u name ad body)
      (ServerMessage (stored_message u name ad body)) w = (room', w')"
    by (metis surj_pair)
  have conns: "rs_connections (message_room clk room u name ad body) = rs_connections room"
    by (simp add: message_room_def)
  have "queued w' tx = queued w tx @
      (if tx \<in> ran (cm_senders (rs_connections room)) \<and> accepting w tx
       then [ServerMessage (stored_message u name ad body)] else [])" for tx
    using broadcast_delivery(2) [OF laws _ _ b] order inj by (simp add: conns)
  moreover have "pump senv u name rx [PumpIncoming clk] room ([ct], []) ts w =
      (None, room', ([], []), ts', w')"
    using handle_message_accept [OF ok, of "se_try_send senv" w] b arrived by (simp add: J(3))
  ultimately show thesis by (rule that [rotated])
qed

text \<open>Receiver's connection to receiver's client.\<close>

lemma connection_forwards:
  assumes env: "joined cenv senv in_step" and step: "in_step ts tc"
    and laws: "recv_laws (se_recv senv) queued" and waiting: "queued w rx = f # fs"
    and size: "frame_size f \<le> 65519" "server_wf f"
  obtains b ct ts' tc' w' where
    "pump senv v vname rx [PumpOutgoing] room (inp, out) ts w = (None, room, (inp, out @ [ct]), ts', w')"
    "transport_open (se_noise senv) tc ct = (Inr b, tc')" "ce_from_bytes cenv b = Some f" "in_step ts' tc'"
    "queued w' rx = fs"
proof -
  note J = joinedD [OF env]
  obtain b where b: "se_to_vec senv f = Some b" "ce_from_bytes cenv b = Some f"
    by (rule roundtripD [OF J(6) size(2)])
  have "fits b" by (rule server_fits [OF J(7) b(1) size(1)])
  then obtain ct ts' tc' where
    "\<And>inp out. send_encrypted (se_noise senv) pipe_ops (se_to_vec senv) f (inp, out) ts =
      (Inr (), (inp, out @ [ct]), ts')"
    "transport_open (se_noise senv) tc ct = (Inr b, tc')" "in_step ts' tc'"
    using send_in_step [of "se_noise senv" in_step ts tc "se_to_vec senv" f b] J(9) step b(1) by metis
  moreover obtain w' where "se_recv senv rx w = (Some f, w')" "queued w' rx = fs"
    using laws waiting unfolding recv_laws_def by (metis prod.collapse)
  ultimately show thesis
    using b(2) by (intro that [of ct ts' w' b tc']) (simp_all add: J(3))
qed

text \<open>Receiver's client to the screen.\<close>

lemma render_keeps [simp]:
  "ui_input (snd (render clk h c s)) = ui_input s"
  "ui_user_id (snd (render clk h c s)) = ui_user_id s"
  "ui_username (snd (render clk h c s)) = ui_username s"
  "ui_seen_counters (snd (render clk h c s)) = ui_seen_counters s"
  "ui_messages (snd (render clk h c s)) = ui_messages s"
  by (simp_all add: render_def clamp_scroll_def Let_def)

lemma client_shows:
  assumes env: "joined cenv senv in_step"
    and arrived: "transport_open (se_noise senv) tc ct = (Inr b, tc')"
      "ce_from_bytes cenv b = Some (ServerMessage m)"
    and new: "seen_counter st (ad_from (rm_ad m)) < ad_counter (rm_ad m)"
  obtains st' where
    "event_loop cenv key [(Drawn clk h c, Incoming now ms)] st ([ct], out) tc = (None, st', ([], out), tc')"
    "last (ui_messages st') = decrypt_to_display (ce_aead cenv) now key m"
proof -
  note J = joinedD [OF env]
  let ?st = "snd (render clk h c st)"
  have "seen_counter ?st (ad_from (rm_ad m)) < ad_counter (rm_ad m)"
    using new by (simp add: seen_counter_def)
  then show thesis
    using arrived by (intro that [of "snd (handle_server_frame (ce_aead cenv) now ms key (ServerMessage m) ?st)"])
      (simp_all add: J(1,2) handle_message_frame ui_messages_push Let_def)
qed

section \<open>The whole way\<close>

lemma message_size_le:
  assumes "length body \<le> MAX_CIPHERTEXT_LEN" and "username_ok name" and "ad_username ad = name"
  shows "client_frame_size (ClientMessage ad body) \<le> 65519"
    and "frame_size (ServerMessage (stored_message u name ad body)) \<le> 65519"
  using assms message_size_bound [of "stored_message u name ad body"]
  by (simp_all add: stored_message_def ad_size_def VARINT_MAX_def MAX_CIPHERTEXT_LEN_def
      MESSAGE_SIZE_MAX_def username_ok_def MAX_USERNAME_LEN_def)

lemma message_wf_accepted:
  assumes "length body \<le> MAX_CIPHERTEXT_LEN" and "username_ok name" and "ad_username ad = name"
  shows "client_wf (ClientMessage ad body)" and "server_wf (ServerMessage (stored_message u name ad body))"
  using assms username_wf
  by (simp_all add: stored_message_def message_wf_def MAX_CIPHERTEXT_LEN_def)

text \<open>
  \<open>u\<close> and \<open>v\<close> are two users of a room, \<open>ta\<close>/\<open>sa\<close> and \<open>sb\<close>/\<open>tb\<close> the transports of their connections. The
  message that \<open>u\<close> types is accepted by the room and \<open>v\<close> is connected, with an outbox that is empty.
\<close>

lemma delivered_end_to_end:
  assumes env: "joined cenv senv in_step" and steps: "in_step ta sa" "in_step sb tb"
    and aead: "aead_correct (ce_aead cenv)"
    and chan: "mpsc_laws (se_try_send senv) queued accepting" "recv_laws (se_recv senv) queued"
    and typed: "handle_key (ce_aead cenv) ki key k (snd (render ca ha pa sta)) = (SendFrame (ClientMessage ad body), sta')"
    and line: "\<forall>c \<in> set (ui_input sta). scalar c"
      "\<forall>nonce. ki_random ki = Some nonce \<longrightarrow> length nonce = NONCE_LEN"
    and room: "message_accepted clk room u name ad body" "username_ok name"
      "iteration_order (cm_senders (rs_connections room)) (hc_order clk)"
      "distinct_channels (rs_connections room)"
    and receiver: "cm_senders (rs_connections room) v = Some rx" "accepting w rx" "queued w rx = []"
      "seen_counter stb u < ad_counter ad"
  shows "\<exists>f1 f2 ta' sa' sb' tb' room' w1 w2 stb'.
    event_loop cenv key [(Drawn ca ha pa, KeyPressed k ki)] sta ([], []) ta =
      (None, sta', ([], [f1]), ta') \<and>
    pump senv u name rxa [PumpIncoming clk] room ([f1], []) sa w = (None, room', ([], []), sa', w1) \<and>
    pump senv v vname rx [PumpOutgoing] room'' ([], []) sb w1 = (None, room'', ([], [f2]), sb', w2) \<and>
    event_loop cenv key [(Drawn cb hb pb, Incoming now ms)] stb ([f2], []) tb =
      (None, stb', ([], []), tb') \<and>
    in_step ta' sa' \<and> in_step sb' tb' \<and>
    dm_kind (last (ui_messages stb')) = DisplayMessage name (fst (line_body (trim_end (ui_input sta))))"
proof -
  let ?m = "stored_message u name ad body"
  have acc: "ad_from ad = u" "ad_username ad = name" "length body \<le> MAX_CIPHERTEXT_LEN"
    using room(1) by (simp_all add: message_accepted_def)
  note size = message_size_le [OF acc(3) room(2) acc(2)]
  note wf = message_wf_accepted [OF acc(3) room(2) acc(2)]
  obtain b1 f1 ta' sa' where 1: "event_loop cenv key [(Drawn ca ha pa, KeyPressed k ki)] sta ([], []) ta =
      (None, sta', ([], [f1]), ta')"
    "transport_open (se_noise senv) sa f1 = (Inr b1, sa')" "se_from_bytes senv b1 = Some (ClientMessage ad body)"
    "in_step ta' sa'"
    using client_sends [where in_step = in_step and tc = ta and ts = sa and inp = "[]" and out = "[]",
      OF env steps(1) typed size(1) wf(1)] by (metis append_Nil)
  obtain room' w1 where 2: "pump senv u name rxa [PumpIncoming clk] room ([f1], []) sa w =
      (None, room', ([], []), sa', w1)"
    "\<And>tx. queued w1 tx = queued w tx @
       (if tx \<in> ran (cm_senders (rs_connections room)) \<and> accepting w tx then [ServerMessage ?m] else [])"
    using connection_handles [OF env 1(2,3) room(1) chan(1) room(3,4)] by metis
  have "queued w1 rx = ServerMessage ?m # []"
    using 2(2) [of rx] receiver by (simp add: ranI)
  then obtain b2 f2 sb' tb' w2 where 3: "pump senv v vname rx [PumpOutgoing] room'' ([], []) sb w1 =
      (None, room'', ([], [f2]), sb', w2)"
    "transport_open (se_noise senv) tb f2 = (Inr b2, tb')" "ce_from_bytes cenv b2 = Some (ServerMessage ?m)"
    "in_step sb' tb'"
    using connection_forwards [where in_step = in_step and ts = sb and tc = tb and inp = "[]" and out = "[]",
      OF env steps(2) chan(2) _ size(2) wf(2)] by (metis append_Nil)
  obtain stb' where 4: "event_loop cenv key [(Drawn cb hb pb, Incoming now ms)] stb ([f2], []) tb =
      (None, stb', ([], []), tb')"
    "last (ui_messages stb') = decrypt_to_display (ce_aead cenv) now key ?m"
    using client_shows [OF env 3(2,3)] receiver(4) acc(1) by (metis stored_message_def room_message.select_convs(3))
  have "dm_kind (last (ui_messages stb')) = DisplayMessage name (fst (line_body (trim_end (ui_input sta))))"
    using typed_text_shown [OF aead _ line(2) typed, of now u name] line(1) 4(2) by simp
  with 1(1,4) 2(1) 3(1,4) 4(1) show ?thesis by blast
qed

end
