(* ===== verification/Cli.thy ===== *)
theory Cli
  imports Rooms ClientSession
begin

text \<open>
  \<^verbatim>\<open>src/cli.rs\<close> and \<^verbatim>\<open>src/main.rs\<close>: the environment variables and checks before a server or a client
  starts, and the log filter. The environment, the socket address parser and the password prompt
  are arguments; parsing the command line (clap) is not modelled, its result is.
\<close>

section \<open>The command line\<close>

datatype command = Serve | Connect

definition PASSWORD_ENV :: string where "PASSWORD_ENV = ''CHAT_RS_PASSWORD''"
definition BIND_ENV :: string where "BIND_ENV = ''CHAT_RS_BIND''"
definition ROOMS_ENV :: string where "ROOMS_ENV = ''CHAT_RS_ROOMS''"
definition SERVER_ENV :: string where "SERVER_ENV = ''CHAT_RS_SERVER''"
definition USERNAME_ENV :: string where "USERNAME_ENV = ''CHAT_RS_USERNAME''"
definition ROOM_ENV :: string where "ROOM_ENV = ''CHAT_RS_ROOM''"
definition CLI_MIN_PW_LEN :: nat where "CLI_MIN_PW_LEN = 12"

text \<open>\<open>env key\<close> is \<^verbatim>\<open>env::var(key)\<close>, \<open>None\<close> when it is unset or not UTF-8.\<close>

definition require_env :: "(string \<Rightarrow> str option) \<Rightarrow> string \<Rightarrow> str result" where
  "require_env env key =
     (case env key of
        Some v \<Rightarrow> if v \<noteq> [] then Inr v else Inl (MissingEnv key)
      | None \<Rightarrow> Inl (MissingEnv key))"

definition read_addr ::
  "(string \<Rightarrow> str option) \<Rightarrow> (str \<Rightarrow> socket_addr option) \<Rightarrow> string \<Rightarrow> socket_addr result" where
  "read_addr env parse_addr key =
     and_then (require_env env key) (\<lambda>raw.
       ok_or (Protocol ''env var must be ip:port'') (parse_addr raw))"

text \<open>\<open>prompt\<close> is the password typed at the terminal, \<open>None\<close> when reading fails.\<close>

definition read_password :: "(string \<Rightarrow> str option) \<Rightarrow> str option \<Rightarrow> bytes result" where
  "read_password env prompt =
     and_then
       (case env PASSWORD_ENV of
          Some v \<Rightarrow> if v \<noteq> [] then Inr (utf8 v) else and_then (ok_or Io prompt) (\<lambda>pw. Inr (utf8 pw))
        | None \<Rightarrow> and_then (ok_or Io prompt) (\<lambda>pw. Inr (utf8 pw)))
       (\<lambda>raw. if length raw < CLI_MIN_PW_LEN then Inl (Protocol ''password too short'') else Inr raw)"

text \<open>What \<^verbatim>\<open>run\<close> starts.\<close>

datatype launch =
    LaunchServer socket_addr "room_config list"
  | LaunchClient socket_addr str str bytes

definition cli_run ::
  "(string \<Rightarrow> str option) \<Rightarrow> (str \<Rightarrow> socket_addr option) \<Rightarrow> str option \<Rightarrow> command \<Rightarrow> launch result" where
  "cli_run env parse_addr prompt cmd =
     (case cmd of
        Serve \<Rightarrow>
          and_then (read_addr env parse_addr BIND_ENV) (\<lambda>addr.
          and_then (require_env env ROOMS_ENV) (\<lambda>rooms_text.
          and_then (parse rooms_text) (\<lambda>configs.
          Inr (LaunchServer addr configs))))
      | Connect \<Rightarrow>
          and_then (read_addr env parse_addr SERVER_ENV) (\<lambda>addr.
          and_then (require_env env USERNAME_ENV) (\<lambda>username.
          and_then (require_env env ROOM_ENV) (\<lambda>room.
          and_then (validate_name room) (\<lambda>_.
          and_then (read_password env prompt) (\<lambda>pw.
          Inr (LaunchClient addr username room pw)))))))"

lemma read_password_Inr: "read_password env prompt = Inr pw \<Longrightarrow> CLI_MIN_PW_LEN \<le> length pw"
  by (auto simp: read_password_def and_then_Inr_iff split: if_splits)

lemma cli_run_server:
  assumes "cli_run env parse_addr prompt cmd = Inr (LaunchServer addr configs)"
  shows "configs \<noteq> [] \<and> (\<forall>rc \<in> set configs. config_ok rc) \<and> distinct (map rc_name configs)"
  using assms parse_sound
  by (auto simp: cli_run_def and_then_Inr_iff split: command.splits)

lemma cli_run_client:
  assumes "cli_run env parse_addr prompt cmd = Inr (LaunchClient addr name room pw)"
  shows "name \<noteq> [] \<and> validate_name room = Inr () \<and> CLI_MIN_PW_LEN \<le> length pw"
  using assms read_password_Inr
  by (auto simp: cli_run_def require_env_def and_then_Inr_iff split: command.splits option.splits if_splits)

section \<open>The log filter\<close>

definition FORBIDDEN_FIELDS :: "str list" where
  "FORBIDDEN_FIELDS =
     map lit [''password'', ''psk'', ''room_key'', ''master'', ''nonce'', ''tag'', ''auth_tag'']"

definition field_scrub_enabled :: "str list \<Rightarrow> bool" where
  "field_scrub_enabled names \<longleftrightarrow> \<not> (\<exists>f \<in> set names. f \<in> set FORBIDDEN_FIELDS)"

end
