(* ===== verification/Samples.thy ===== *)
theory Samples
  imports FrameBounds ServerLoop Delivery Cli
begin

text \<open>
  Concrete surroundings: a bounded channel, a cipher, a serializer, a byte stream and a handshake
  that satisfy the hypotheses under which the properties are stated, and a run of a room from its
  creation to a delivered message. They show that the hypotheses can hold, and nothing else
  depends on them.
\<close>

section \<open>A bounded channel\<close>

type_synonym sample_world = "nat \<Rightarrow> server_frame list"

definition sample_accepting :: "sample_world \<Rightarrow> nat \<Rightarrow> bool" where
  "sample_accepting w tx \<longleftrightarrow> length (w tx) < OUTBOX_DEPTH"

definition sample_send :: "(nat, sample_world) sender" where
  "sample_send tx f w =
     (if sample_accepting w tx then (Sent, w(tx := w tx @ [f])) else (OutboxFull, w))"

lemma sample_send_laws: "mpsc_laws sample_send (\<lambda>w. w) sample_accepting"
  by (simp add: mpsc_laws_def sample_send_def sample_accepting_def)

section \<open>A serializer and a cipher\<close>

definition enc_nat :: "nat \<Rightarrow> bytes" where
  "enc_nat n = replicate n 0 @ [1]"

definition enc_str :: "str \<Rightarrow> bytes" where
  "enc_str s = enc_nat (length s) @ concat (map enc_nat s)"

definition sample_ad_to_vec :: "message_ad \<Rightarrow> bytes option" where
  "sample_ad_to_vec ad =
     Some (enc_nat (unat (ad_from ad)) @ enc_str (ad_username ad) @ enc_nat (unat (ad_counter ad)) @
       enc_nat (unat (ad_timestamp_ms ad)) @ enc_nat (if ad_ephemeral ad then 1 else 0))"

lemma enc_nat_inject: "enc_nat n @ r = enc_nat n' @ r' \<longleftrightarrow> n = n' \<and> r = r'"
proof (induction n arbitrary: n')
  case 0
  then show ?case by (cases n') (auto simp: enc_nat_def)
next
  case (Suc n)
  then show ?case by (cases n') (auto simp: enc_nat_def)
qed

lemma enc_nats_inject:
  "length xs = length ys \<Longrightarrow>
     concat (map enc_nat xs) @ r = concat (map enc_nat ys) @ r' \<longleftrightarrow> xs = ys \<and> r = r'"
  by (induction xs ys rule: list_induct2) (auto simp: enc_nat_inject)

lemma enc_str_inject: "enc_str s @ r = enc_str s' @ r' \<longleftrightarrow> s = s' \<and> r = r'"
  using enc_nats_inject [of s s' r r'] by (auto simp: enc_str_def enc_nat_inject)

text \<open>The associated data in front of the message, in a prefix-free code.\<close>

fun sample_tag :: "bytes \<Rightarrow> bytes" where
  "sample_tag [] = [1]"
| "sample_tag (b # bs) = 0 # b # sample_tag bs"

lemma sample_tag_inject: "sample_tag a @ r = sample_tag a' @ r' \<longleftrightarrow> a = a' \<and> r = r'"
proof (induction a arbitrary: a')
  case Nil
  then show ?case by (cases a') auto
next
  case (Cons b a)
  then show ?case by (cases a') auto
qed

definition sample_aead :: aead_ops where
  "sample_aead =
     \<lparr>ae_encrypt = (\<lambda>key nonce msg aad. Some (sample_tag aad @ msg)),
      ae_decrypt = (\<lambda>key nonce ct aad.
        let p = sample_tag aad in
        if take (length p) ct = p then Some (drop (length p) ct) else None),
      ae_ad_to_vec = sample_ad_to_vec\<rparr>"

lemma sample_aead_correct: "aead_correct sample_aead"
  by (auto simp: aead_correct_def sample_aead_def Let_def)

lemma sample_aead_binding: "aead_binding sample_aead"
  unfolding aead_binding_def
proof (intro allI impI)
  fix k n m a a' c
  assume c: "ae_encrypt sample_aead k n m a = Some c" and ne: "a' \<noteq> a"
  have "take (length (sample_tag a')) c \<noteq> sample_tag a'"
  proof
    assume "take (length (sample_tag a')) c = sample_tag a'"
    then have "c = sample_tag a' @ drop (length (sample_tag a')) c"
      by (metis append_take_drop_id)
    moreover have "c = sample_tag a @ m" using c by (simp add: sample_aead_def)
    ultimately have "sample_tag a @ m = sample_tag a' @ drop (length (sample_tag a')) c" by simp
    then have "a = a'" by (simp only: sample_tag_inject)
    with ne show False by simp
  qed
  then show "ae_decrypt sample_aead k n c a' = None" by (simp add: sample_aead_def Let_def)
qed

lemma sample_ad_injective: "ad_injective sample_aead"
  unfolding ad_injective_def
proof (intro allI impI)
  fix ad ad' b
  assume "ae_ad_to_vec sample_aead ad = Some b" "ae_ad_to_vec sample_aead ad' = Some b"
  then have "ad_from ad' = ad_from ad" "ad_username ad' = ad_username ad"
    "ad_counter ad' = ad_counter ad" "ad_timestamp_ms ad' = ad_timestamp_ms ad"
    "ad_ephemeral ad' = ad_ephemeral ad"
    using enc_nat_inject [of _ "[]" _ "[]"]
    by (auto simp: sample_aead_def sample_ad_to_vec_def enc_nat_inject enc_str_inject
        word_unat_eq_iff split: if_splits)
  then show "ad' = ad" by (cases ad; cases ad') simp
qed

section \<open>A room at work\<close>

text \<open>The steps of the room machine as functions.\<close>

definition do_join ::
  "uuid \<Rightarrow> 'tx \<Rightarrow> str \<Rightarrow> ('tx, 'w) machine \<Rightarrow> ('tx, 'w) machine" where
  "do_join u tx name m =
     m\<lparr>mc_room := register (mc_now m) u name tx (mc_room m),
       mc_tasks := (mc_tasks m)(u \<mapsto> \<lparr>tk_username = name, tk_stage = Joined\<rparr>),
       mc_names := (mc_names m)(u \<mapsto> name)\<rparr>"

definition do_welcomed :: "uuid \<Rightarrow> ('tx, 'w) machine \<Rightarrow> ('tx, 'w) machine" where
  "do_welcomed u m =
     (case mc_tasks m u of
        Some tk \<Rightarrow> if tk_stage tk = Joined
          then m\<lparr>mc_tasks := at_stage u tk Ready (mc_tasks m)\<rparr> else m
      | None \<Rightarrow> m)"

definition do_receive :: "uuid \<Rightarrow> client_frame \<Rightarrow> ('tx, 'w) machine \<Rightarrow> ('tx, 'w) machine" where
  "do_receive u f m =
     (case mc_tasks m u of
        Some tk \<Rightarrow> if tk_stage tk = Ready
          then m\<lparr>mc_room := (mc_room m)\<lparr>rs_sessions := ss_touch (mc_now m) u (rs_sessions (mc_room m))\<rparr>,
            mc_tasks := at_stage u tk (Handling f) (mc_tasks m)\<rparr> else m
      | None \<Rightarrow> m)"

definition do_block ::
  "('tx, 'w) sender \<Rightarrow> uuid list \<Rightarrow> uuid \<Rightarrow> ('tx, 'w) machine \<Rightarrow> ('tx, 'w) machine" where
  "do_block ts order u m =
     (case mc_tasks m u of
        Some tk \<Rightarrow>
          (case task_block ts (mc_now m) order u (tk_username tk) (tk_stage tk, mc_room m, mc_chan m) of
             (stage, room, w) \<Rightarrow>
               m\<lparr>mc_room := room, mc_chan := w, mc_tasks := at_stage u tk stage (mc_tasks m),
                 mc_log := mc_log m @ announced u (tk_username tk) (tk_stage tk),
                 mc_sent := delivered ts (tk_stage tk) (mc_chan m) (mc_sent m)\<rparr>)
      | None \<Rightarrow> m)"

lemma reachable_join:
  "reachable ts m0 m \<Longrightarrow> mc_names m u = None \<Longrightarrow> tx \<notin> ran (cm_senders (rs_connections (mc_room m))) \<Longrightarrow>
     username_ok name \<Longrightarrow> reachable ts m0 (do_join u tx name m)"
  unfolding do_join_def by (rule reachable.step, assumption, rule machine_step.join) auto

lemma reachable_welcomed: "reachable ts m0 m \<Longrightarrow> reachable ts m0 (do_welcomed u m)"
  by (auto simp: do_welcomed_def split: option.split intro: reachable.step machine_step.welcomed)

lemma reachable_receive: "reachable ts m0 m \<Longrightarrow> reachable ts m0 (do_receive u f m)"
  by (auto simp: do_receive_def split: option.split intro: reachable.step machine_step.receive)

lemma reachable_block:
  assumes "reachable ts m0 m" and "iteration_order (cm_senders (rs_connections (mc_room m))) order"
  shows "reachable ts m0 (do_block ts order u m)"
proof (cases "mc_tasks m u")
  case (Some tk)
  obtain stage room w where "task_block ts (mc_now m) order u (tk_username tk)
      (tk_stage tk, mc_room m, mc_chan m) = (stage, room, w)"
    by (cases "task_block ts (mc_now m) order u (tk_username tk) (tk_stage tk, mc_room m, mc_chan m)")
  with machine_step.block [OF Some assms(2) this] Some show ?thesis
    by (auto simp: do_block_def intro: reachable.step [OF assms(1)])
qed (simp add: do_block_def assms(1))

text \<open>Bob joins and sends one message: four blocks admit it, store it, take the snapshot and put it
  into his own outbox.\<close>

definition sample_ad :: message_ad where
  "sample_ad = \<lparr>ad_from = 7, ad_username = lit ''bob'', ad_counter = 1, ad_timestamp_ms = 5,
     ad_ephemeral = False\<rparr>"

definition sample_message :: room_message where
  "sample_message = \<lparr>rm_from = 7, rm_username = lit ''bob'', rm_ad = sample_ad, rm_ciphertext = [1, 2]\<rparr>"

definition sample_init :: "(nat, sample_world) machine" where
  "sample_init = machine_init (lit ''main'') (replicate 32 3) [4] (\<lambda>_. [])"

definition sample_joined :: "(nat, sample_world) machine" where
  "sample_joined = do_welcomed 7 (do_join 7 0 (lit ''bob'') sample_init)"

definition sample_run :: "nat \<Rightarrow> (nat, sample_world) machine" where
  "sample_run n =
     ((do_block sample_send [7] 7) ^^ n) (do_receive 7 (ClientMessage sample_ad [1, 2]) sample_joined)"

lemma sample_bob: "username_ok (lit ''bob'')"
  by (simp add: username_ok_def str_len_def utf8_def utf8_char_def MAX_USERNAME_LEN_def
      is_valid_username_def all_name_bytes_def is_ascii_alphanumeric_def)

lemma sample_joined_reachable: "reachable sample_send sample_init sample_joined"
  unfolding sample_joined_def
  by (intro reachable_welcomed reachable_join reachable.start sample_bob)
    (simp_all add: sample_init_def machine_init_def room_state_new_def)

definition sample_session :: "u64 \<Rightarrow> instant list \<Rightarrow> user_session" where
  "sample_session c stamps =
     \<lparr>us_user_id = 7, us_username = lit ''bob'', us_last_active = 0, us_last_counter = c,
      us_message_window = stamps, us_last_clear = None\<rparr>"

definition sample_state ::
  "user_session \<Rightarrow> room_message list \<Rightarrow> sample_world \<Rightarrow> nat stage \<Rightarrow> server_frame list
     \<Rightarrow> (nat \<Rightarrow> server_frame list) \<Rightarrow> (nat, sample_world) machine" where
  "sample_state sess h w stage log sent =
     \<lparr>mc_room =
        \<lparr>rs_room_id = lit ''main'', rs_room_salt = replicate 32 3, rs_psk = [4],
         rs_messages = \<lparr>ms_history = h\<rparr>,
         rs_sessions = \<lparr>ss_sessions = [7 \<mapsto> sess], ss_timeout = SESSION_TIMEOUT\<rparr>,
         rs_connections = \<lparr>cm_senders = [7 \<mapsto> 0]\<rparr>\<rparr>,
      mc_chan = w, mc_tasks = [7 \<mapsto> \<lparr>tk_username = lit ''bob'', tk_stage = stage\<rparr>],
      mc_sweep = [], mc_now = 0, mc_names = [7 \<mapsto> lit ''bob''], mc_log = log, mc_sent = sent\<rparr>"

lemma sample_run_0:
  "sample_run 0 = sample_state (sample_session 0 []) [] (\<lambda>_. [])
     (Handling (ClientMessage sample_ad [1, 2])) [] (\<lambda>_. [])"
  by (simp add: sample_run_def sample_joined_def sample_init_def do_join_def do_welcomed_def
      do_receive_def machine_init_def at_stage_def register_def room_state_new_def cm_insert_def
      ss_insert_def ss_touch_def connection_manager_new_def session_store_new_def
      message_store_new_def sample_state_def sample_session_def)

lemma sample_run_Suc: "sample_run (Suc n) = do_block sample_send [7] 7 (sample_run n)"
  by (simp add: sample_run_def)

lemmas sample_block_defs = do_block_def sample_state_def at_stage_def

lemma sample_run_1:
  "sample_run 1 = sample_state (sample_session 1 [0]) [] (\<lambda>_. []) (Admitted sample_message) [] (\<lambda>_. [])"
  using sample_run_Suc [of 0]
  by (simp add: sample_run_0 sample_block_defs sample_ad_def sample_message_def MAX_CIPHERTEXT_LEN_def
      try_advance_counter_def try_consume_message_quota_def MSG_RATE_MAX_def sample_session_def)

lemma sample_run_2:
  "sample_run 2 = sample_state (sample_session 1 [0]) [sample_message] (\<lambda>_. [])
     (Announcing (ServerMessage sample_message)) [ServerMessage sample_message] (\<lambda>_. [])"
  using sample_run_Suc [of 1]
  by (simp add: sample_run_1 [unfolded One_nat_def] sample_block_defs ms_push_def HISTORY_LEN_def
      sample_message_def sample_ad_def numeral_2_eq_2)

lemma sample_run_3:
  "sample_run 3 = sample_state (sample_session 1 [0]) [sample_message] (\<lambda>_. [])
     (Sending (ServerMessage sample_message) [(7, 0)] []) [ServerMessage sample_message] (\<lambda>_. [])"
  using sample_run_Suc [of 2]
  by (simp add: sample_run_2 sample_block_defs cm_snapshot_def)

lemma sample_run_4:
  "sample_run 4 = sample_state (sample_session 1 [0]) [sample_message]
     ((\<lambda>_. [])(0 := [ServerMessage sample_message]))
     (Sending (ServerMessage sample_message) [] []) [ServerMessage sample_message]
     ((\<lambda>_. [])(0 := [ServerMessage sample_message]))"
  using sample_run_Suc [of 3]
  by (simp add: sample_run_3 sample_block_defs sample_send_def sample_accepting_def OUTBOX_DEPTH_def)

lemma sample_order:
  "iteration_order (cm_senders (rs_connections (mc_room (sample_state sess h w stage log sent)))) [7]"
  by (simp add: iteration_order_def sample_state_def)

lemma sample_run_onward:
  assumes "reachable sample_send m0 sample_joined"
  shows "reachable sample_send m0 (sample_run 4)"
proof -
  have "reachable sample_send m0 (sample_run 0)"
    unfolding sample_run_def by (simp add: reachable_receive assms)
  then have "reachable sample_send m0 (sample_run 1)"
    using reachable_block [of sample_send m0 "sample_run 0" "[7]" 7] sample_run_Suc [of 0]
    by (simp add: sample_run_0 sample_order)
  then have "reachable sample_send m0 (sample_run 2)"
    using reachable_block [of sample_send m0 "sample_run 1" "[7]" 7] sample_run_Suc [of 1]
    by (simp add: sample_run_1 [unfolded One_nat_def] sample_order numeral_2_eq_2)
  then have "reachable sample_send m0 (sample_run 3)"
    using reachable_block [of sample_send m0 "sample_run 2" "[7]" 7] sample_run_Suc [of 2]
    by (simp add: sample_run_2 sample_order)
  then show ?thesis
    using reachable_block [of sample_send m0 "sample_run 3" "[7]" 7] sample_run_Suc [of 3]
    by (simp add: sample_run_3 sample_order)
qed

lemma sample_run_reachable: "reachable sample_send sample_init (sample_run 4)"
  by (rule sample_run_onward) (rule sample_joined_reachable)

definition sample_frame :: server_frame where
  "sample_frame = ServerMessage sample_message"

section \<open>A connection\<close>

text \<open>A byte stream is what is still to be read and what has been written.\<close>

definition sample_stream :: "(bytes list \<times> bytes list) stream_ops" where
  "sample_stream =
     \<lparr>so_send = (\<lambda>b (inp, out). (True, (inp, out @ [b]))),
      so_next = (\<lambda>(inp, out). case inp of
        [] \<Rightarrow> (EndOfStream, ([], out)) | b # inp \<Rightarrow> (Frame b, (inp, out)))\<rparr>"

text \<open>A handshake that succeeds on any message, and a transport that leaves its data alone.\<close>

definition sample_noise :: "(unit, unit) noise_ops" where
  "sample_noise =
     \<lparr>nz_build = (\<lambda>role pattern prologue i psk. Some ()), nz_write = (\<lambda>h payload buf. Some ([9], h)),
      nz_read = (\<lambda>h msg buf. Some ([], h)), nz_into_transport = Some,
      nz_seal = (\<lambda>t pt buf. (Some pt, t)), nz_open = (\<lambda>t ct buf. (Some ct, t))\<rparr>"

definition sample_from_bytes :: "bytes \<Rightarrow> client_frame option" where
  "sample_from_bytes b =
     (if b = [1] then Some (RoomSelect (lit ''main''))
      else if b = [2] then Some (ClientHello (lit ''bob''))
      else if b = [3] then Some Clear
      else None)"

definition sample_to_vec :: "server_frame \<Rightarrow> bytes option" where
  "sample_to_vec f =
     (case f of
        ServerHello salt v \<Rightarrow> Some [11] | Welcome u h \<Rightarrow> Some [12] | ServerMessage m \<Rightarrow> Some [13]
      | Cleared u n \<Rightarrow> Some [14] | ServerError e \<Rightarrow> Some [15])"

definition sample_env ::
  "(unit, unit, bytes list \<times> bytes list, nat, sample_world) server_env" where
  "sample_env =
     \<lparr>se_noise = sample_noise, se_stream = sample_stream, se_to_vec = sample_to_vec,
      se_from_bytes = sample_from_bytes, se_channel = (\<lambda>w. (0, w(0 := []))),
      se_try_send = sample_send,
      se_recv = (\<lambda>tx w. case w tx of [] \<Rightarrow> (None, w) | f # fs \<Rightarrow> (Some f, w(tx := fs)))\<rparr>"

text \<open>Reads that are ready after a nanosecond.\<close>

definition sample_wait :: "(bytes list \<times> bytes list) waiting" where
  "sample_wait = \<lparr>wt_takes = Some 1, wt_dropped = ([], [])\<rparr>"

definition sample_oracle :: "(unit, bytes list \<times> bytes list, nat, sample_world) conn_oracle" where
  "sample_oracle =
     \<lparr>co_select = sample_wait, co_refusal_send = Some 0, co_fake_salt = Some (replicate 32 5), co_fake_psk = Some [6],
      co_hello_send = Some 0, co_handshake = sample_wait, co_hello = \<lparr>wt_takes = Some 1, wt_dropped = (([], []), ())\<rparr>,
      co_user_id = 7, co_now = 10,
      co_before_join = (\<lambda>x. x), co_before_history = (\<lambda>x. x)\<rparr>"

definition sample_clock :: handler_clock where
  "sample_clock = \<lparr>hc_touch = 11, hc_check = 12, hc_order = [7]\<rparr>"

definition sample_room :: "nat room_state" where
  "sample_room = room_state_new (lit ''main'') (replicate 32 3) [4]"

definition sample_hub :: "nat server_hub" where
  "sample_hub =
     \<lparr>hub_rooms = [lit ''main'' \<mapsto> sample_room],
      hub_ratelimit = rate_limiter_new RATELIMIT_MAX RATELIMIT_WINDOW, hub_active_conns = 0\<rparr>"

lemmas sample_env_defs =
  sample_env_def sample_oracle_def sample_wait_def sample_noise_def sample_stream_def sample_to_vec_def
  sample_from_bytes_def

lemmas in_time_defs = in_time_def HANDSHAKE_TIMEOUT_def from_secs_def

lemma sample_in_time:
  "in_time (co_select sample_oracle)" "in_time (co_handshake sample_oracle)" "in_time (co_hello sample_oracle)"
  by (simp_all add: in_time_def sample_oracle_def sample_wait_def HANDSHAKE_TIMEOUT_def from_secs_def)

lemma sample_select:
  "snd (select_phase sample_env sample_oracle ([1] # inp, out)) = (Inr (lit ''main''), (inp, out))"
  by (simp add: select_out awaited_def in_time_defs recv_postcard_def recv_bytes_def sample_env_defs
      str_len_def utf8_def utf8_char_def MAX_ROOM_ID_LEN_def)

lemma sample_handshake:
  "snd (handshake_phase sample_env sample_oracle room (m0 # inp, out)) = (Inr (), (inp, out @ [[11], [9]]))"
  by (simp add: handshake_out awaited_def in_time_defs send_postcard_def send_bytes_def recv_bytes_def
      handshake_responder_def responder_def sample_env_defs Let_def)

lemma sample_hello:
  "snd (hello_phase sample_env sample_oracle ([2] # inp, out) ()) = (Inr (lit ''bob''), (inp, out), ())"
  using sample_bob
  by (simp add: hello_out awaited_def in_time_defs recv_encrypted_def transport_open_def recv_bytes_def
      username_ok_def sample_env_defs)

lemma sample_authenticate:
  "hub_rooms hub (lit ''main'') = Some room \<Longrightarrow>
     authenticate sample_env sample_oracle hub ([1] # m0 # [2] # inp, out) =
       (Inr (room, lit ''bob'', ()), (inp, out @ [[11], [9]]))"
  by (simp add: authenticate_out sample_select sample_handshake sample_hello find_room_def
      del: lit_simps)

section \<open>A client at work\<close>

text \<open>A client with a line typed in, and an enter key.\<close>

definition sample_ui :: ui_state where
  "sample_ui = (ui_state_new (lit ''bob'') 7 (SocketV4 1 80) (lit ''main''))\<lparr>ui_input := lit ''hi  ''\<rparr>"

definition sample_enter :: key_event where
  "sample_enter = \<lparr>ke_press = True, ke_control = False, ke_code = KEnter\<rparr>"

definition sample_inputs :: key_inputs where
  "sample_inputs = \<lparr>ki_now = 1, ki_now_ms = 5, ki_notice_ms = 6, ki_random = Some (replicate NONCE_LEN 0)\<rparr>"

lemma sample_line:
  "line_body (lit ''hi'') = (lit ''hi'', False)" "trim_end (lit ''hi  '') = lit ''hi''"
  by (simp_all add: trim_end_def is_whitespace_def line_body_def strip_prefix_def)

lemma sample_lengths: "length (sample_tag a) = 2 * length a + 1" "length (enc_nat n) = n + 1"
  by (induction a) (simp_all add: enc_nat_def)

lemma sample_submit:
  "\<exists>ct s'. handle_key sample_aead sample_inputs key sample_enter sample_ui =
    (SendFrame (ClientMessage sample_ad ct), s') \<and> length ct \<le> MAX_CIPHERTEXT_LEN"
proof -
  have "\<not> is_command (lit ''hi'')" "lit ''hi'' \<noteq> []" by (simp_all add: is_command_def)
  with submit_line_send [of "lit ''hi  ''" sample_aead sample_inputs key "sample_ui\<lparr>ui_input := []\<rparr>"]
  show ?thesis
    by (simp add: handle_key_def sample_enter_def sample_line sample_ui_def ui_state_new_def
        sample_inputs_def seal_def sample_aead_def sample_ad_to_vec_def sample_ad_def
        del: lit_simps split: sum.split)
      (simp add: sample_lengths enc_str_def NONCE_LEN_def MAX_CIPHERTEXT_LEN_def utf8_def utf8_char_def)
qed

lemma sample_sent: "map ad_counter (sent_ads sample_aead key [OpKey sample_enter sample_inputs] sample_ui) = [1]"
  using sample_submit [of key] by (auto simp: sample_ad_def)

end
