(* ===== verification/SampleCodec.thy ===== *)
theory SampleCodec
  imports Establish
begin

text \<open>
  A concrete serializer in the style of postcard: a variant index, fixed-width little-endian numbers,
  length-prefixed strings and sequences. It satisfies the round trip and the size hypotheses of
  \<open>Establish\<close>, so that these can hold together; nothing else depends on it.
\<close>

section \<open>Numbers\<close>

fun le_bytes :: "nat \<Rightarrow> nat \<Rightarrow> bytes" where
  "le_bytes 0 n = []"
| "le_bytes (Suc k) n = of_nat (n mod 256) # le_bytes k (n div 256)"

fun le_value :: "bytes \<Rightarrow> nat" where
  "le_value [] = 0"
| "le_value (b # bs) = unat b + 256 * le_value bs"

lemma length_le_bytes [simp]: "length (le_bytes k n) = k"
  by (induction k arbitrary: n) simp_all

lemma le_value_bytes: "n < 256 ^ k \<Longrightarrow> le_value (le_bytes k n) = n"
proof (induction k arbitrary: n)
  case (Suc k)
  then have "n div 256 < 256 ^ k" by (simp add: less_mult_imp_div_less mult.commute)
  with Suc show ?case by (simp add: unat_of_nat)
qed simp

definition dec_le :: "nat \<Rightarrow> bytes \<Rightarrow> (nat \<times> bytes) option" where
  "dec_le k bs = (if length bs < k then None else Some (le_value (take k bs), drop k bs))"

lemma dec_le [simp]: "n < 256 ^ k \<Longrightarrow> dec_le k (le_bytes k n @ r) = Some (n, r)"
  by (simp add: dec_le_def le_value_bytes)

section \<open>Strings and bytes\<close>

definition enc_bytes :: "bytes \<Rightarrow> bytes" where
  "enc_bytes b = le_bytes 8 (length b) @ b"

definition dec_bytes :: "bytes \<Rightarrow> (bytes \<times> bytes) option" where
  "dec_bytes bs =
     Option.bind (dec_le 8 bs) (\<lambda>(n, r). if length r < n then None else Some (take n r, drop n r))"

lemma dec_bytes [simp]: "length b < 2 ^ 64 \<Longrightarrow> dec_bytes (enc_bytes b @ r) = Some (b, r)"
  by (simp add: dec_bytes_def enc_bytes_def)

definition dec_string :: "bytes \<Rightarrow> (str \<times> bytes) option" where
  "dec_string bs = map_option (\<lambda>(b, r). (from_utf8_lossy b, r)) (dec_bytes bs)"

lemma dec_string [simp]: "str_wf s \<Longrightarrow> dec_string (enc_bytes (utf8 s) @ r) = Some (s, r)"
  by (simp add: dec_string_def str_wf_def str_len_def text_ok_def from_utf8_lossy_utf8)

section \<open>Messages\<close>

definition enc_ad :: "message_ad \<Rightarrow> bytes" where
  "enc_ad ad =
     le_bytes 16 (unat (ad_from ad)) @ enc_bytes (utf8 (ad_username ad)) @ le_bytes 8 (unat (ad_counter ad)) @
     le_bytes 8 (unat (ad_timestamp_ms ad)) @ le_bytes 1 (of_bool (ad_ephemeral ad))"

definition dec_ad :: "bytes \<Rightarrow> (message_ad \<times> bytes) option" where
  "dec_ad bs =
     Option.bind (dec_le 16 bs) (\<lambda>(u, bs).
     Option.bind (dec_string bs) (\<lambda>(name, bs).
     Option.bind (dec_le 8 bs) (\<lambda>(c, bs).
     Option.bind (dec_le 8 bs) (\<lambda>(t, bs).
     Option.bind (dec_le 1 bs) (\<lambda>(e, bs).
     Some (\<lparr>ad_from = of_nat u, ad_username = name, ad_counter = of_nat c, ad_timestamp_ms = of_nat t,
       ad_ephemeral = (e = 1)\<rparr>, bs))))))"

lemma word_bounds: "unat (u :: uuid) < 256 ^ 16" "unat (c :: u64) < 256 ^ 8" "unat (v :: u16) < 256 ^ 2"
  using unsigned_less [of u] unsigned_less [of c] unsigned_less [of v] by simp_all

lemmas word_limits = word_bounds [simplified]

lemma dec_ad [simp]: "str_wf (ad_username ad) \<Longrightarrow> dec_ad (enc_ad ad @ r) = Some (ad, r)"
  by (simp add: dec_ad_def enc_ad_def word_limits del: le_bytes.simps)

definition enc_message :: "room_message \<Rightarrow> bytes" where
  "enc_message m =
     le_bytes 16 (unat (rm_from m)) @ enc_bytes (utf8 (rm_username m)) @ enc_ad (rm_ad m) @
     enc_bytes (rm_ciphertext m)"

definition dec_message :: "bytes \<Rightarrow> (room_message \<times> bytes) option" where
  "dec_message bs =
     Option.bind (dec_le 16 bs) (\<lambda>(u, bs).
     Option.bind (dec_string bs) (\<lambda>(name, bs).
     Option.bind (dec_ad bs) (\<lambda>(ad, bs).
     Option.bind (dec_bytes bs) (\<lambda>(ct, bs).
     Some (\<lparr>rm_from = of_nat u, rm_username = name, rm_ad = ad, rm_ciphertext = ct\<rparr>, bs)))))"

lemma dec_message [simp]: "message_wf m \<Longrightarrow> dec_message (enc_message m @ r) = Some (m, r)"
  by (simp add: dec_message_def enc_message_def message_wf_def word_limits del: le_bytes.simps)

fun dec_messages :: "nat \<Rightarrow> bytes \<Rightarrow> (room_message list \<times> bytes) option" where
  "dec_messages 0 bs = Some ([], bs)"
| "dec_messages (Suc n) bs =
     Option.bind (dec_message bs) (\<lambda>(m, bs).
     Option.bind (dec_messages n bs) (\<lambda>(ms, bs). Some (m # ms, bs)))"

lemma dec_messages [simp]:
  "\<forall>m \<in> set ms. message_wf m \<Longrightarrow>
     dec_messages (length ms) (concat (map enc_message ms) @ r) = Some (ms, r)"
  by (induction ms) simp_all

section \<open>Frames\<close>

fun sample_client_vec :: "client_frame \<Rightarrow> bytes option" where
  "sample_client_vec (RoomSelect room) = Some (0 # enc_bytes (utf8 room))"
| "sample_client_vec (ClientHello name) = Some (1 # enc_bytes (utf8 name))"
| "sample_client_vec (ClientMessage ad ct) = Some (2 # enc_ad ad @ enc_bytes ct)"
| "sample_client_vec Clear = Some [3]"

definition dec_client :: "bytes \<Rightarrow> client_frame option" where
  "dec_client bs =
     (case bs of
        [] \<Rightarrow> None
      | tag # bs \<Rightarrow>
          if tag = 0 then map_option (\<lambda>(room, _). RoomSelect room) (dec_string bs)
          else if tag = 1 then map_option (\<lambda>(name, _). ClientHello name) (dec_string bs)
          else if tag = 2 then
            Option.bind (dec_ad bs) (\<lambda>(ad, bs). map_option (\<lambda>(ct, _). ClientMessage ad ct) (dec_bytes bs))
          else if tag = 3 then Some Clear
          else None)"

lemma sample_client_roundtrip: "postcard_roundtrip client_wf sample_client_vec dec_client"
proof -
  have "\<exists>b. sample_client_vec f = Some b \<and> dec_client b = Some f" if "client_wf f" for f
    using that dec_string [of _ "[]"] dec_bytes [of _ "[]"]
    by (cases f) (simp_all add: dec_client_def)
  then show ?thesis by (simp add: postcard_roundtrip_def)
qed

lemma enc_sizes [simp]:
  "length (enc_bytes b) = 8 + length b" "length (enc_ad ad) = 41 + str_len (ad_username ad)"
  "length (enc_message m) = 73 + str_len (rm_username m) + str_len (ad_username (rm_ad m)) + length (rm_ciphertext m)"
  by (simp_all add: enc_bytes_def enc_ad_def enc_message_def str_len_def)

lemma sample_client_sizes: "postcard_client_sizes sample_client_vec"
proof -
  have "length b \<le> client_frame_size f" if "sample_client_vec f = Some b" for f b
    using that by (cases f) (auto simp: VARINT_MAX_def str_len_def ad_size_def)
  then show ?thesis by (simp add: postcard_client_sizes_def)
qed

fun error_tag :: "error_kind \<Rightarrow> byte" where
  "error_tag AuthFailed = 0"
| "error_tag BadFrame = 1"
| "error_tag RateLimited = 2"
| "error_tag UnsupportedVersionKind = 3"
| "error_tag Internal = 4"

definition dec_error :: "byte \<Rightarrow> error_kind" where
  "dec_error b =
     (if b = 0 then AuthFailed else if b = 1 then BadFrame else if b = 2 then RateLimited
      else if b = 3 then UnsupportedVersionKind else Internal)"

fun sample_server_vec :: "server_frame \<Rightarrow> bytes option" where
  "sample_server_vec (ServerHello salt v) = Some (0 # salt @ le_bytes 2 (unat v))"
| "sample_server_vec (Welcome u h) =
     Some (1 # le_bytes 16 (unat u) @ le_bytes 8 (length h) @ concat (map enc_message h))"
| "sample_server_vec (ServerMessage m) = Some (2 # enc_message m)"
| "sample_server_vec (Cleared u name) = Some (3 # le_bytes 16 (unat u) @ enc_bytes (utf8 name))"
| "sample_server_vec (ServerError e) = Some [4, error_tag e]"

definition dec_server :: "bytes \<Rightarrow> server_frame option" where
  "dec_server bs =
     (case bs of
        [] \<Rightarrow> None
      | tag # bs \<Rightarrow>
          if tag = 0 then
            map_option (\<lambda>(v, _). ServerHello (take 32 bs) (of_nat v)) (dec_le 2 (drop 32 bs))
          else if tag = 1 then
            Option.bind (dec_le 16 bs) (\<lambda>(u, bs).
            Option.bind (dec_le 8 bs) (\<lambda>(n, bs).
            map_option (\<lambda>(h, _). Welcome (of_nat u) h) (dec_messages n bs)))
          else if tag = 2 then map_option (\<lambda>(m, _). ServerMessage m) (dec_message bs)
          else if tag = 3 then
            Option.bind (dec_le 16 bs) (\<lambda>(u, bs).
            map_option (\<lambda>(name, _). Cleared (of_nat u) name) (dec_string bs))
          else (case bs of [e] \<Rightarrow> Some (ServerError (dec_error e)) | _ \<Rightarrow> None))"

lemma dec_error [simp]: "dec_error (error_tag e) = e"
  by (cases e) (simp_all add: dec_error_def)

lemma sample_server_roundtrip: "postcard_roundtrip server_wf sample_server_vec dec_server"
proof -
  have "\<exists>b. sample_server_vec f = Some b \<and> dec_server b = Some f" if "server_wf f" for f
    using that dec_string [of _ "[]"] dec_message [of _ "[]"] dec_messages [of _ "[]"] dec_le [of _ 2 "[]"]
    by (cases f) (simp_all add: dec_server_def word_limits del: le_bytes.simps)
  then show ?thesis by (simp add: postcard_roundtrip_def)
qed

lemma sample_server_sizes: "postcard_sizes sample_server_vec"
proof -
  have sum: "length (concat (map enc_message h)) \<le> sum_list (map message_size h)" for h
    by (induction h) (simp_all add: message_size_def ad_size_def VARINT_MAX_def)
  have "length b \<le> frame_size f" if b: "sample_server_vec f = Some b" for f b
  proof (cases f)
    case (Welcome u h)
    with b sum [of h] show ?thesis by (auto simp: VARINT_MAX_def simp del: length_concat)
  qed (use b in \<open>auto simp: VARINT_MAX_def str_len_def message_size_def ad_size_def\<close>)
  then show ?thesis by (simp add: postcard_sizes_def)
qed

end
