(* ===== verification/UnitTests.thy ===== *)
theory UnitTests
  imports ClientRules Rooms SessionRules
begin

text \<open>
  The repository's own unit tests, the \<^verbatim>\<open>mod tests\<close> of \<^verbatim>\<open>server/stores.rs\<close>, \<^verbatim>\<open>server/rooms.rs\<close>,
  \<^verbatim>\<open>server/ratelimit.rs\<close>, \<^verbatim>\<open>client/ui.rs\<close> and \<^verbatim>\<open>crypto/room.rs\<close>, run on the definitions of this
  development: each test is a predicate that follows the test's statements, and a lemma says that
  it holds. The clock readings and random ids a test draws are arguments; where the test relies on
  running faster than a time limit, the lemma says so.
\<close>

section \<open>Stores\<close>

definition test_msg :: "uuid \<Rightarrow> str \<Rightarrow> room_message" where
  "test_msg v4 t =
     \<lparr>rm_from = v4, rm_username = lit ''x'',
      rm_ad = \<lparr>ad_from = 0, ad_username = lit ''x'', ad_counter = 1, ad_timestamp_ms = 0,
        ad_ephemeral = False\<rparr>,
      rm_ciphertext = utf8 t\<rparr>"

definition history_caps_at_limit :: "(nat \<Rightarrow> uuid) \<Rightarrow> bool" where
  "history_caps_at_limit v4 \<longleftrightarrow>
     (let s = fold ms_push (map (\<lambda>i. test_msg (v4 i) (dec i)) [0..<HISTORY_LEN + 5]) message_store_new;
          snap = ms_snapshot s
      in length snap = HISTORY_LEN \<and> rm_ciphertext (hd snap) = utf8 (lit ''5'') \<and>
         rm_ciphertext (last snap) = utf8 (dec (HISTORY_LEN + 4)))"

lemma history_caps_at_limit: "history_caps_at_limit v4"
proof -
  let ?ms = "map (\<lambda>i. test_msg (v4 i) (dec i)) [0..<HISTORY_LEN + 5]"
  have "ms_snapshot (fold ms_push ?ms message_store_new) =
      map (\<lambda>i. test_msg (v4 i) (dec i)) [5..<HISTORY_LEN + 5]"
    using history.items_pushes [of message_store_new ?ms]
    by (simp add: message_store_new_def ms_snapshot_def last_n_def drop_map drop_upt)
  moreover have "dec 5 = lit ''5''" by (simp add: dec.simps)
  ultimately show ?thesis
    by (simp add: history_caps_at_limit_def Let_def HISTORY_LEN_def hd_map last_map test_msg_def
        del: lit_simps upt_Suc)
qed

section \<open>Room configurations\<close>

definition newline :: str where "newline = [10]"

definition parses_two_rooms_with_comments :: bool where
  "parses_two_rooms_with_comments \<longleftrightarrow>
     (let t = newline @ lit ''            # dev environment'' @ newline
            @ lit ''            dev = changeme-12c'' @ newline
            @ lit ''            # ops'' @ newline
            @ lit ''            ops = anothersecret'' @ newline @ lit ''        ''
      in case parse t of
           Inl e \<Rightarrow> False
         | Inr r \<Rightarrow> length r = 2 \<and> rc_name (r ! 0) = lit ''dev'' \<and>
             rc_password (r ! 0) = lit ''changeme-12c'' \<and> rc_name (r ! 1) = lit ''ops'')"

definition parse_is_err :: "str \<Rightarrow> bool" where
  "parse_is_err t = (case parse t of Inl e \<Rightarrow> True | Inr r \<Rightarrow> False)"

definition rejects_short_password :: bool where
  "rejects_short_password = parse_is_err (lit ''dev=short1'' @ newline)"

definition rejects_invalid_name :: bool where
  "rejects_invalid_name \<longleftrightarrow>
     parse_is_err (lit ''dev/ops=changeme-12c'' @ newline) \<and> parse_is_err (lit ''=changeme-12c'' @ newline)"

definition rejects_duplicate_room :: bool where
  "rejects_duplicate_room =
     parse_is_err (lit ''dev=changeme-12c'' @ newline @ lit ''dev=changeme-other'' @ newline)"

definition rejects_empty_config :: bool where
  "rejects_empty_config = parse_is_err (lit ''# only comments'' @ newline)"

lemmas parse_eval = parse_def lines_def strip_cr_def trim_def trim_start_def trim_end_def
  starts_with_hash_def is_whitespace_def split_once_def validate_name_def str_len_def utf8_def
  utf8_char_def MAX_ROOM_ID_LEN_def MIN_PW_LEN_def all_name_bytes_def is_ascii_alphanumeric_def
  newline_def missing_equals_def

lemma rejects_short_password: rejects_short_password
  by (simp add: rejects_short_password_def parse_is_err_def parse_eval)

lemma rejects_invalid_name: rejects_invalid_name
  by (simp add: rejects_invalid_name_def parse_is_err_def parse_eval)

lemma rejects_duplicate_room: rejects_duplicate_room
  by (simp add: rejects_duplicate_room_def parse_is_err_def parse_eval)

lemma rejects_empty_config: rejects_empty_config
  by (simp add: rejects_empty_config_def parse_is_err_def parse_eval)

lemma parses_two_rooms_with_comments: parses_two_rooms_with_comments
  by (simp add: parses_two_rooms_with_comments_def parse_eval)

section \<open>The connection limiter\<close>

text \<open>\<open>checks\<close>: a sequence of calls at their clock readings, and their results.\<close>

fun checks :: "(instant \<times> ip_addr) list \<Rightarrow> rate_limiter \<Rightarrow> bool list" where
  "checks [] rl = []"
| "checks ((t, ip) # xs) rl = (case check t ip rl of (b, rl) \<Rightarrow> b # checks xs rl)"

definition LOCALHOST :: ip_addr where "LOCALHOST = V4 2130706433"

definition allows_below_limit_blocks_above :: "instant \<Rightarrow> instant \<Rightarrow> instant \<Rightarrow> instant \<Rightarrow> bool" where
  "allows_below_limit_blocks_above t0 t1 t2 t3 \<longleftrightarrow>
     checks [(t0, LOCALHOST), (t1, LOCALHOST), (t2, LOCALHOST), (t3, LOCALHOST)]
       (rate_limiter_new 3 (from_secs 60)) = [True, True, True, False]"

definition distinct_ips_are_independent :: "instant \<Rightarrow> instant \<Rightarrow> instant \<Rightarrow> bool" where
  "distinct_ips_are_independent t0 t1 t2 \<longleftrightarrow>
     (let a = V4 167772161; b = V4 167772162
      in checks [(t0, a), (t1, b), (t2, a)] (rate_limiter_new 1 (from_secs 60)) = [True, True, False])"

text \<open>\<open>t1\<close> and \<open>t2\<close> are read after the sleep.\<close>

definition cleanup_drops_empty :: "instant \<Rightarrow> instant \<Rightarrow> instant \<Rightarrow> bool" where
  "cleanup_drops_empty t0 t1 t2 \<longleftrightarrow>
     (case check t0 LOCALHOST (rate_limiter_new 1 (from_millis 1)) of
        (r0, rl) \<Rightarrow> r0 \<and> fst (check t2 LOCALHOST (cleanup t1 rl)))"

lemma allows_below_limit_blocks_above:
  assumes "t0 \<le> t1" "t1 \<le> t2" "t2 \<le> t3" and "t3 \<le> t0 + from_secs 60"
  shows "allows_below_limit_blocks_above t0 t1 t2 t3"
proof -
  have "t1 - t0 \<le> from_secs 60" "t2 - t0 \<le> from_secs 60" "t3 - t0 \<le> from_secs 60"
    using assms by linarith+
  then show ?thesis
    by (simp add: allows_below_limit_blocks_above_def check_def rate_limiter_new_def duration_since_def
        not_less [symmetric])
qed

lemma distinct_ips_are_independent:
  "t2 \<le> t0 + from_secs 60 \<Longrightarrow> distinct_ips_are_independent t0 t1 t2"
  by (simp add: distinct_ips_are_independent_def check_def rate_limiter_new_def duration_since_def)

lemma cleanup_drops_empty: "t0 + from_millis 5 \<le> t1 \<Longrightarrow> cleanup_drops_empty t0 t1 t2"
  by (simp add: cleanup_drops_empty_def check_def cleanup_def rate_limiter_new_def duration_since_def
      from_millis_def Let_def)

section \<open>The client state\<close>

definition test_state :: ui_state where
  "test_state = ui_state_new (lit ''alice'') 0 (SocketV4 2130706433 3000) (lit ''main'')"

definition sys :: "str \<Rightarrow> display_msg" where
  "sys t = \<lparr>dm_ts_ms = 0, dm_kind = DisplaySystem t, dm_ephemeral = None\<rparr>"

text \<open>\<open>n\<close> pushes of the messages \<open>m0\<close>, \<open>m1\<close> and so on.\<close>

definition push_sys :: "nat \<Rightarrow> ui_state \<Rightarrow> ui_state" where
  "push_sys n s = fold ui_push (map (\<lambda>i. sys (lit ''m'' @ dec i)) [0..<n]) s"

definition push_keeps_scroll_zero_when_pinned :: bool where
  "push_keeps_scroll_zero_when_pinned \<longleftrightarrow>
     (let s = test_state\<lparr>ui_last_inner_h := 5\<rparr>; s = push_sys 10 s in ui_scroll s = 0)"

definition push_increments_scroll_when_scrolled :: bool where
  "push_increments_scroll_when_scrolled \<longleftrightarrow>
     (let s = test_state\<lparr>ui_last_inner_h := 5\<rparr>; s = push_sys 10 s; s = scroll_up 3 s
      in ui_scroll s = 3 \<and> ui_scroll (ui_push (sys (lit ''new'')) s) = 4)"

definition clear_messages_resets_scroll :: bool where
  "clear_messages_resets_scroll \<longleftrightarrow>
     (let s = test_state\<lparr>ui_last_inner_h := 5\<rparr>; s = push_sys 20 s; s = scroll_up 10 s
      in ui_scroll s > 0 \<and>
         (let s = clear_messages s in ui_scroll s = 0 \<and> ui_messages s = []))"

definition cap_evicts_oldest :: bool where
  "cap_evicts_oldest \<longleftrightarrow>
     (let s = push_sys (HISTORY_CAP + 5) test_state
      in length (ui_messages s) = HISTORY_CAP \<and>
         (case dm_kind (hd (ui_messages s)) of DisplaySystem t \<Rightarrow> t = lit ''m5'' | _ \<Rightarrow> False))"

definition scroll_clamps_to_max :: bool where
  "scroll_clamps_to_max \<longleftrightarrow>
     (let s = test_state\<lparr>ui_last_inner_h := 5\<rparr>; s = push_sys 10 s; s = scroll_up 100 s
      in ui_scroll s = 5)"

definition submit :: "aead_ops \<Rightarrow> key_inputs \<Rightarrow> str \<Rightarrow> key_action" where
  "submit ae ki t =
     fst (handle_key ae ki (replicate 32 0) \<lparr>ke_press = True, ke_control = False, ke_code = KEnter\<rparr>
       (test_state\<lparr>ui_input := t\<rparr>))"

definition quit_aliases_exit :: "aead_ops \<Rightarrow> key_inputs \<Rightarrow> bool" where
  "quit_aliases_exit ae ki \<longleftrightarrow> (\<forall>cmd \<in> set [lit ''/q'', lit ''/quit'']. submit ae ki cmd = Quit)"

definition clear_aliases_send_clear :: "aead_ops \<Rightarrow> key_inputs \<Rightarrow> bool" where
  "clear_aliases_send_clear ae ki \<longleftrightarrow>
     (\<forall>cmd \<in> set [lit ''/c'', lit ''/clear'']. submit ae ki cmd = SendFrame Clear)"

definition try_accept_counter_rejects_replay_per_sender :: "uuid \<Rightarrow> uuid \<Rightarrow> bool" where
  "try_accept_counter_rejects_replay_per_sender alice bob \<longleftrightarrow>
     (case try_accept_counter alice 1 test_state of (r1, s) \<Rightarrow>
      case try_accept_counter alice 2 s of (r2, s) \<Rightarrow>
      case try_accept_counter alice 2 s of (r3, s) \<Rightarrow>
      case try_accept_counter alice 1 s of (r4, s) \<Rightarrow>
      case try_accept_counter alice 3 s of (r5, s) \<Rightarrow>
      case try_accept_counter bob 1 s of (r6, s) \<Rightarrow>
        r1 \<and> r2 \<and> \<not> r3 \<and> \<not> r4 \<and> r5 \<and> r6)"

definition ephemeral_msg :: "instant \<Rightarrow> display_msg" where
  "ephemeral_msg received_at =
     \<lparr>dm_ts_ms = 0, dm_kind = DisplayMessage (lit ''alice'') (lit ''secret''),
      dm_ephemeral = Some \<lparr>es_received_at = received_at, es_revealed_until = None\<rparr>\<rparr>"

text \<open>The clock readings, in order.\<close>

definition tick_expire_drops_aged_ephemerals_only :: "instant \<Rightarrow> instant \<Rightarrow> instant \<Rightarrow> bool" where
  "tick_expire_drops_aged_ephemerals_only t0 t1 t2 \<longleftrightarrow>
     (let aged = t0 - from_millis (EPHEMERAL_TTL_MS + 100); fresh = t1;
          s = ui_push (ephemeral_msg aged) test_state;
          s = ui_push (ephemeral_msg fresh) s;
          s = ui_push (sys (lit ''regular system msg'')) s;
          s = tick_expire_ephemerals t2 s
      in length (ui_messages s) = 2)"

definition ephemeral_countdown_rounds_up :: "instant \<Rightarrow> bool" where
  "ephemeral_countdown_rounds_up now \<longleftrightarrow>
     ephemeral_secs_left now now = EPHEMERAL_TTL_MS div 1000 \<and>
     ephemeral_secs_left now (now + from_millis 1) = EPHEMERAL_TTL_MS div 1000 \<and>
     ephemeral_secs_left now (now + from_secs 1) = EPHEMERAL_TTL_MS div 1000 - 1 \<and>
     ephemeral_secs_left now (now + from_millis (EPHEMERAL_TTL_MS - 1)) = 1 \<and>
     ephemeral_secs_left now (now + from_millis (EPHEMERAL_TTL_MS + 500)) = 0"

definition is_revealed :: "display_msg \<Rightarrow> bool" where
  "is_revealed m = (case dm_ephemeral m of Some e \<Rightarrow> es_revealed_until e \<noteq> None | None \<Rightarrow> False)"

text \<open>\<open>force t m\<close> moves the end of the reveal window of \<open>m\<close> to \<open>t\<close>.\<close>

definition force_window :: "instant \<Rightarrow> display_msg \<Rightarrow> display_msg" where
  "force_window t m =
     (case dm_ephemeral m of
        Some e \<Rightarrow> m\<lparr>dm_ephemeral := Some (e\<lparr>es_revealed_until := Some t\<rparr>)\<rparr> | None \<Rightarrow> m)"

definition reveal_then_remask_after_window :: "instant \<Rightarrow> instant \<Rightarrow> instant \<Rightarrow> instant \<Rightarrow> bool" where
  "reveal_then_remask_after_window t0 t1 t2 t3 \<longleftrightarrow>
     (let s = ui_push (ephemeral_msg t0) test_state; s = reveal_ephemerals t1 s
      in is_revealed (ui_messages s ! 0) \<and>
         (let s = s\<lparr>ui_messages := (ui_messages s)[0 := force_window (t2 - from_millis 1) (ui_messages s ! 0)]\<rparr>;
              s = tick_expire_ephemerals t3 s
          in \<not> is_revealed (ui_messages s ! 0)))"

lemma pushes_pinned:
  "ui_scroll s = 0 \<Longrightarrow> ui_scroll (fold ui_push ms s) = 0 \<and>
     ui_last_inner_h (fold ui_push ms s) = ui_last_inner_h s"
proof (induction ms arbitrary: s)
  case (Cons m ms)
  have "ui_scroll (ui_push m s) = 0" "ui_last_inner_h (ui_push m s) = ui_last_inner_h s"
    using Cons.prems by (simp_all add: ui_push_def clamp_scroll_def Let_def)
  with Cons.IH show ?case by simp
qed simp

lemma push_sys_new:
  assumes "n \<le> HISTORY_CAP"
  shows "ui_scroll (push_sys n (test_state\<lparr>ui_last_inner_h := h\<rparr>)) = 0"
    and "ui_last_inner_h (push_sys n (test_state\<lparr>ui_last_inner_h := h\<rparr>)) = h"
    and "length (ui_messages (push_sys n (test_state\<lparr>ui_last_inner_h := h\<rparr>))) = n"
  using assms pushes_pinned [of "test_state\<lparr>ui_last_inner_h := h\<rparr>"]
    scrollback.items_pushes [of "test_state\<lparr>ui_last_inner_h := h\<rparr>"]
  by (simp_all add: push_sys_def test_state_def ui_state_new_def length_last_n)

lemma scroll_up_new:
  assumes "n \<le> HISTORY_CAP" and "k \<le> 100"
  shows "ui_scroll (scroll_up k (push_sys n (test_state\<lparr>ui_last_inner_h := h\<rparr>))) = min k (n - max h 1)"
  using push_sys_new [OF assms(1), of h] assms(2)
  by (simp add: scroll_up_def clamp_scroll_def max_scroll_def usize_saturating_add_def usize_max_def)

lemma push_keeps_scroll_zero_when_pinned: push_keeps_scroll_zero_when_pinned
  by (simp add: push_keeps_scroll_zero_when_pinned_def push_sys_new HISTORY_CAP_def Let_def)

lemma push_increments_scroll_when_scrolled: push_increments_scroll_when_scrolled
proof -
  let ?s = "scroll_up 3 (push_sys 10 (test_state\<lparr>ui_last_inner_h := 5\<rparr>))"
  have 1: "ui_scroll ?s = 3" using scroll_up_new [of 10 3 5] by (simp add: HISTORY_CAP_def)
  have "length (ui_messages ?s) = 10" "ui_last_inner_h ?s = 5"
    using push_sys_new [of 10 5] by (simp_all add: HISTORY_CAP_def scroll_up_def ui_simps)
  with 1 have "ui_scroll (ui_push m ?s) = 4" for m
    by (simp add: ui_push_def clamp_scroll_def max_scroll_def HISTORY_CAP_def Let_def)
  with 1 show ?thesis by (simp add: push_increments_scroll_when_scrolled_def Let_def)
qed

lemma clear_messages_resets_scroll: clear_messages_resets_scroll
  using scroll_up_new [of 20 10 5]
  by (simp add: clear_messages_resets_scroll_def clear_messages_def HISTORY_CAP_def Let_def)

lemma scroll_clamps_to_max: scroll_clamps_to_max
  using scroll_up_new [of 10 100 5] by (simp add: scroll_clamps_to_max_def HISTORY_CAP_def Let_def)

lemma cap_evicts_oldest: cap_evicts_oldest
proof -
  let ?m = "\<lambda>i. sys (lit ''m'' @ dec i)"
  have "ui_messages (push_sys (HISTORY_CAP + 5) test_state) = map ?m [5..<HISTORY_CAP + 5]"
    using scrollback.items_pushes [of test_state "map ?m [0..<HISTORY_CAP + 5]"]
    by (simp add: push_sys_def test_state_def ui_state_new_def last_n_def drop_map drop_upt)
  moreover have "dec 5 = lit ''5''" by (simp add: dec.simps)
  ultimately show ?thesis
    by (simp add: cap_evicts_oldest_def Let_def HISTORY_CAP_def hd_map sys_def del: upt_Suc)
qed

lemma command_line: "trim_end (lit ''/q'') = lit ''/q''" "trim_end (lit ''/quit'') = lit ''/quit''"
  "trim_end (lit ''/c'') = lit ''/c''" "trim_end (lit ''/clear'') = lit ''/clear''"
  by (simp_all add: trim_end_def is_whitespace_def)

lemma submit_command: "submit ae ki t = fst (submit_line ae ki (replicate 32 0) t (test_state\<lparr>ui_input := []\<rparr>))"
  by (simp add: submit_def handle_key_def)

lemma quit_aliases_exit: "quit_aliases_exit ae ki"
  using command_line submit_line_command(3) by (simp add: quit_aliases_exit_def submit_command del: lit_simps)

lemma clear_aliases_send_clear: "clear_aliases_send_clear ae ki"
  using command_line submit_line_command(2)
  by (simp add: clear_aliases_send_clear_def submit_command del: lit_simps)

lemma try_accept_counter_rejects_replay_per_sender:
  "alice \<noteq> bob \<Longrightarrow> try_accept_counter_rejects_replay_per_sender alice bob"
  by (simp add: try_accept_counter_rejects_replay_per_sender_def try_accept_counter_def test_state_def
      ui_state_new_def)

lemma tick_expire_drops_aged_ephemerals_only:
  assumes "from_millis (EPHEMERAL_TTL_MS + 100) \<le> t0" "t0 \<le> t1" "t1 \<le> t2"
    and "t2 < t1 + from_millis EPHEMERAL_TTL_MS"
  shows "tick_expire_drops_aged_ephemerals_only t0 t1 t2"
proof -
  have "\<not> t2 - (t0 - from_millis (EPHEMERAL_TTL_MS + 100)) < from_millis EPHEMERAL_TTL_MS"
    using assms by (simp add: from_millis_def EPHEMERAL_TTL_MS_def)
  moreover have "t2 - t1 < from_millis EPHEMERAL_TTL_MS" using assms by linarith
  ultimately show ?thesis
    by (simp add: tick_expire_drops_aged_ephemerals_only_def ui_simps test_state_def ui_state_new_def
        HISTORY_CAP_def ttl_live_def ephemeral_msg_def sys_def duration_since_def)
qed

lemma ephemeral_countdown_rounds_up: "ephemeral_countdown_rounds_up now"
  by (simp add: ephemeral_countdown_rounds_up_def ephemeral_secs_left_def duration_since_def
      from_millis_def from_secs_def as_millis_def EPHEMERAL_TTL_MS_def)

lemma reveal_then_remask_after_window:
  assumes "t2 \<le> t3" and "t3 < t0 + from_millis EPHEMERAL_TTL_MS"
  shows "reveal_then_remask_after_window t0 t1 t2 t3"
proof -
  let ?m = "\<lambda>until. \<lparr>dm_ts_ms = 0, dm_kind = DisplayMessage (lit ''alice'') (lit ''secret''),
    dm_ephemeral = Some \<lparr>es_received_at = t0, es_revealed_until = until\<rparr>\<rparr>"
  let ?s = "reveal_ephemerals t1 (ui_push (ephemeral_msg t0) test_state)"
  have 1: "ui_messages ?s = [?m (Some (t1 + from_millis EPHEMERAL_REVEAL_MS))]"
    by (simp add: reveal_ephemerals_def ui_simps test_state_def ui_state_new_def HISTORY_CAP_def
        ephemeral_msg_def)
  have "ttl_live t3 (?m x)" for x
    using assms by (simp add: ttl_live_def duration_since_def from_millis_def EPHEMERAL_TTL_MS_def)
  moreover have "t2 - from_millis 1 \<le> t3" using assms by simp
  ultimately have "ui_messages (tick_expire_ephemerals t3 (?s\<lparr>ui_messages := [?m (Some (t2 - from_millis 1))]\<rparr>))
      = [?m None]"
    by (simp add: ui_simps remask_def)
  with 1 show ?thesis
    by (simp add: reveal_then_remask_after_window_def Let_def is_revealed_def force_window_def)
qed

section \<open>Message encryption\<close>

text \<open>These tests call the ChaCha20-Poly1305 crate. \<open>ae\<close> stands for it, \<open>nonce\<close> is the random draw; an
  \<^verbatim>\<open>unwrap\<close> that panics fails the test.\<close>

definition test_ad :: message_ad where
  "test_ad = \<lparr>ad_from = 0, ad_username = lit ''alice'', ad_counter = 1, ad_timestamp_ms = 1000,
     ad_ephemeral = False\<rparr>"

definition seal_roundtrip :: "aead_ops \<Rightarrow> bytes \<Rightarrow> bool" where
  "seal_roundtrip ae nonce \<longleftrightarrow>
     (case seal ae (Some nonce) (replicate 32 9) (utf8 (lit ''hello'')) test_ad of
        Inl e \<Rightarrow> False
      | Inr ct \<Rightarrow> room_open ae (replicate 32 9) ct test_ad = Inr (utf8 (lit ''hello'')))"

definition wrong_key_fails :: "aead_ops \<Rightarrow> bytes \<Rightarrow> bool" where
  "wrong_key_fails ae nonce \<longleftrightarrow>
     (case seal ae (Some nonce) (replicate 32 1) (utf8 (lit ''hello'')) test_ad of
        Inl e \<Rightarrow> False
      | Inr ct \<Rightarrow> (case room_open ae (replicate 32 2) ct test_ad of Inl e \<Rightarrow> True | Inr pt \<Rightarrow> False))"

definition ad_tampering_fails :: "aead_ops \<Rightarrow> bytes \<Rightarrow> bool" where
  "ad_tampering_fails ae nonce \<longleftrightarrow>
     (case seal ae (Some nonce) (replicate 32 9) (utf8 (lit ''hello'')) test_ad of
        Inl e \<Rightarrow> False
      | Inr ct \<Rightarrow>
          let tampered = test_ad\<lparr>ad_timestamp_ms := ad_timestamp_ms test_ad + 1\<rparr> in
          (case room_open ae (replicate 32 9) ct tampered of Inl e \<Rightarrow> True | Inr pt \<Rightarrow> False))"

definition truncated_ciphertext_fails :: "aead_ops \<Rightarrow> bytes \<Rightarrow> bool" where
  "truncated_ciphertext_fails ae nonce \<longleftrightarrow>
     (case seal ae (Some nonce) (replicate 32 9) (utf8 (lit ''hello'')) test_ad of
        Inl e \<Rightarrow> False
      | Inr ct \<Rightarrow>
          (case room_open ae (replicate 32 9) (take NONCE_LEN ct) test_ad of
             Inl e \<Rightarrow> True | Inr pt \<Rightarrow> False))"

text \<open>What the tests need of the crate, and what of it they check: encryption works, decryption inverts it, and
  fails under another key, on other associated data and on an empty ciphertext.\<close>

definition test_ops_ok :: "aead_ops \<Rightarrow> bytes \<Rightarrow> bool" where
  "test_ops_ok ae nonce \<longleftrightarrow>
     aead_correct ae \<and> aead_binding ae \<and> ad_injective ae \<and> (\<forall>ad. ae_ad_to_vec ae ad \<noteq> None) \<and>
     (\<forall>k m a. ae_encrypt ae k nonce m a \<noteq> None) \<and>
     (\<forall>k k' m a c. ae_encrypt ae k nonce m a = Some c \<longrightarrow> k' \<noteq> k \<longrightarrow> ae_decrypt ae k' nonce c a = None) \<and>
     (\<forall>k a. ae_decrypt ae k nonce [] a = None)"

lemma test_ops_defined:
  "test_ops_ok ae nonce \<Longrightarrow> \<exists>aad. ae_ad_to_vec ae ad = Some aad"
  "test_ops_ok ae nonce \<Longrightarrow> \<exists>ct. ae_encrypt ae key nonce pt aad = Some ct"
  by (simp_all add: test_ops_ok_def)

lemma sealed:
  assumes "test_ops_ok ae nonce"
  obtains aad ct where "ae_ad_to_vec ae ad = Some aad" "ae_encrypt ae key nonce pt aad = Some ct"
    "seal ae (Some nonce) key pt ad = Inr (nonce @ ct)"
proof -
  obtain aad where "ae_ad_to_vec ae ad = Some aad"
    using test_ops_defined(1) [OF assms] by blast
  moreover obtain ct where "ae_encrypt ae key nonce pt aad = Some ct"
    using test_ops_defined(2) [OF assms] by blast
  ultimately show thesis by (intro that) (auto simp: seal_def)
qed

lemma seal_tests:
  assumes ok: "test_ops_ok ae nonce" and len: "length nonce = NONCE_LEN"
  shows "seal_roundtrip ae nonce" and "wrong_key_fails ae nonce" and "ad_tampering_fails ae nonce"
    and "truncated_ciphertext_fails ae nonce"
proof -
  obtain aad ct where s: "ae_ad_to_vec ae test_ad = Some aad"
    "ae_encrypt ae (replicate 32 9) nonce (utf8 (lit ''hello'')) aad = Some ct"
    "seal ae (Some nonce) (replicate 32 9) (utf8 (lit ''hello'')) test_ad = Inr (nonce @ ct)"
    by (rule sealed [OF ok])
  then show "seal_roundtrip ae nonce"
    using ok len by (simp add: seal_roundtrip_def room_open_nonce_ct test_ops_ok_def aead_correct_def)
  have "ae_decrypt ae (replicate 32 9) nonce [] aad = None" using ok by (simp add: test_ops_ok_def)
  then show "truncated_ciphertext_fails ae nonce"
    using s len by (simp add: truncated_ciphertext_fails_def room_open_def del: lit_simps)
  let ?t = "test_ad\<lparr>ad_timestamp_ms := ad_timestamp_ms test_ad + 1\<rparr>"
  obtain aad' where t: "ae_ad_to_vec ae ?t = Some aad'"
    using test_ops_defined(1) [OF ok] by blast
  have "?t \<noteq> test_ad" by (simp add: test_ad_def)
  then have "aad' \<noteq> aad" using ok s(1) t unfolding test_ops_ok_def ad_injective_def by metis
  then have "ae_decrypt ae (replicate 32 9) nonce ct aad' = None"
    using ok s(2) unfolding test_ops_ok_def aead_binding_def by metis
  then show "ad_tampering_fails ae nonce"
    using s(3) t len by (simp add: ad_tampering_fails_def room_open_nonce_ct Let_def del: lit_simps)
  obtain aad1 ct1 where s1: "ae_ad_to_vec ae test_ad = Some aad1"
    "ae_encrypt ae (replicate 32 1) nonce (utf8 (lit ''hello'')) aad1 = Some ct1"
    "seal ae (Some nonce) (replicate 32 1) (utf8 (lit ''hello'')) test_ad = Inr (nonce @ ct1)"
    by (rule sealed [OF ok])
  have "replicate 32 2 \<noteq> (replicate 32 1 :: bytes)" by (simp add: replicate_eq_replicate)
  then have "ae_decrypt ae (replicate 32 2) nonce ct1 aad1 = None"
    using ok s1(2) unfolding test_ops_ok_def by blast
  then show "wrong_key_fails ae nonce"
    using s1 len by (simp add: wrong_key_fails_def room_open_nonce_ct del: lit_simps)
qed

section \<open>Key derivation\<close>

text \<open>\<open>kdf\<close> stands for Argon2 and BLAKE2s.\<close>

definition both_keys ::
  "kdf_ops \<Rightarrow> bytes \<times> bytes \<Rightarrow> bytes \<times> bytes \<Rightarrow> (derived_keys \<Rightarrow> derived_keys \<Rightarrow> bool) \<Rightarrow> bool" where
  "both_keys kdf x y P =
     (case (derive_keys kdf (fst x) (snd x), derive_keys kdf (fst y) (snd y)) of
        (Inr a, Inr b) \<Rightarrow> P a b | _ \<Rightarrow> False)"

definition deterministic_for_same_inputs :: "kdf_ops \<Rightarrow> bool" where
  "deterministic_for_same_inputs kdf =
     (let x = (utf8 (lit ''hunter2''), replicate 32 7)
      in both_keys kdf x x (\<lambda>a b. dk_psk a = dk_psk b \<and> dk_room_key a = dk_room_key b))"

definition different_passwords_diverge :: "kdf_ops \<Rightarrow> bool" where
  "different_passwords_diverge kdf =
     both_keys kdf (utf8 (lit ''hunter2''), replicate 32 7) (utf8 (lit ''hunter3''), replicate 32 7)
       (\<lambda>a b. dk_psk a \<noteq> dk_psk b \<and> dk_room_key a \<noteq> dk_room_key b)"

definition different_salts_diverge :: "kdf_ops \<Rightarrow> bool" where
  "different_salts_diverge kdf =
     both_keys kdf (utf8 (lit ''hunter2''), replicate 32 1) (utf8 (lit ''hunter2''), replicate 32 2)
       (\<lambda>a b. dk_psk a \<noteq> dk_psk b)"

definition psk_and_room_key_differ :: "kdf_ops \<Rightarrow> bool" where
  "psk_and_room_key_differ kdf =
     (case derive_keys kdf (utf8 (lit ''hunter2'')) (replicate 32 7) of
        Inl e \<Rightarrow> False | Inr keys \<Rightarrow> dk_psk keys \<noteq> dk_room_key keys)"

text \<open>The primitives succeed and do not collide.\<close>

definition kdf_spreads :: "kdf_ops \<Rightarrow> bool" where
  "kdf_spreads kdf \<longleftrightarrow>
     (\<exists>argon mac. kdf_argon kdf = (\<lambda>m t p n pw salt. Some (argon pw salt)) \<and>
        kdf_mac kdf = (\<lambda>key msg. Some (mac key msg)) \<and>
        (\<forall>pw salt pw' salt'. argon pw salt = argon pw' salt' \<longrightarrow> pw = pw' \<and> salt = salt') \<and>
        (\<forall>key msg key' msg'. mac key msg = mac key' msg' \<longrightarrow> key = key' \<and> msg = msg'))"

lemma kdf_tests:
  assumes "kdf_spreads kdf"
  shows "deterministic_for_same_inputs kdf" and "different_passwords_diverge kdf"
    and "different_salts_diverge kdf" and "psk_and_room_key_differ kdf"
proof -
  obtain argon mac where ops: "kdf_argon kdf = (\<lambda>m t p n pw salt. Some (argon pw salt))"
    "kdf_mac kdf = (\<lambda>key msg. Some (mac key msg))"
    and inj: "\<And>pw salt pw' salt'. argon pw salt = argon pw' salt' \<Longrightarrow> pw = pw' \<and> salt = salt'"
      "\<And>key msg key' msg'. mac key msg = mac key' msg' \<Longrightarrow> key = key' \<and> msg = msg'"
    using assms unfolding kdf_spreads_def by blast
  have inj_iff: "argon pw salt = argon pw' salt' \<longleftrightarrow> pw = pw' \<and> salt = salt'"
    "mac key msg = mac key' msg' \<longleftrightarrow> key = key' \<and> msg = msg'" for pw salt pw' salt' key msg key' msg'
    using inj by blast+
  have derive: "derive_keys kdf pw salt =
      Inr \<lparr>dk_psk = mac (argon pw salt) PSK_LABEL, dk_room_key = mac (argon pw salt) ROOM_LABEL\<rparr>" for pw salt
    by (simp add: derive_keys_def blake2s_kdf_def ops)
  have pw: "utf8 (lit ''hunter2'') \<noteq> utf8 (lit ''hunter3'')" by (simp add: utf8_def utf8_char_def)
  have salt: "replicate 32 1 \<noteq> (replicate 32 2 :: bytes)" by (simp add: replicate_eq_replicate)
  have label: "PSK_LABEL \<noteq> ROOM_LABEL" by (simp add: PSK_LABEL_def ROOM_LABEL_def utf8_def utf8_char_def)
  show "deterministic_for_same_inputs kdf"
    by (simp add: deterministic_for_same_inputs_def both_keys_def derive)
  show "different_passwords_diverge kdf"
    using pw by (simp add: different_passwords_diverge_def both_keys_def derive inj_iff del: lit_simps)
  show "different_salts_diverge kdf"
    using salt by (simp add: different_salts_diverge_def both_keys_def derive inj_iff del: lit_simps replicate_eq_replicate)
  show "psk_and_room_key_differ kdf"
    using label by (simp add: psk_and_room_key_differ_def derive inj_iff del: lit_simps)
qed

end
