(* ===== verification/NetworkTests.thy ===== *)
theory NetworkTests
  imports Establish UnitTests
begin

text \<open>
  The unit tests of \<^verbatim>\<open>src/proto.rs\<close> and \<^verbatim>\<open>src/crypto/noise.rs\<close>, followed statement by statement like
  those of \<open>UnitTests\<close>. They exercise third-party code, so each holds under the documented behaviour
  of that code.
\<close>

section \<open>Frames\<close>

text \<open>\<^verbatim>\<open>unwrap\<close> on an error fails the test.\<close>

definition roundtrips :: "('a \<Rightarrow> bytes option) \<Rightarrow> (bytes \<Rightarrow> 'a option) \<Rightarrow> 'a \<Rightarrow> bool" where
  "roundtrips to_vec from_bytes v \<longleftrightarrow>
     (case to_vec v of
        None \<Rightarrow> False
      | Some bytes \<Rightarrow> (case from_bytes bytes of None \<Rightarrow> False | Some back \<Rightarrow> to_vec back = Some bytes))"

definition frame_ad :: message_ad where
  "frame_ad = \<lparr>ad_from = 0, ad_username = lit ''alice'', ad_counter = 1, ad_timestamp_ms = 1234,
     ad_ephemeral = False\<rparr>"

definition client_frame_roundtrip ::
  "(client_frame \<Rightarrow> bytes option) \<Rightarrow> (bytes \<Rightarrow> client_frame option) \<Rightarrow> bool" where
  "client_frame_roundtrip to_vec from_bytes \<longleftrightarrow>
     roundtrips to_vec from_bytes (RoomSelect (lit ''main'')) \<and>
     roundtrips to_vec from_bytes (ClientHello (lit ''alice'')) \<and>
     roundtrips to_vec from_bytes (ClientMessage frame_ad [1, 2, 3, 4]) \<and>
     roundtrips to_vec from_bytes Clear"

definition server_frame_roundtrip ::
  "(server_frame \<Rightarrow> bytes option) \<Rightarrow> (bytes \<Rightarrow> server_frame option) \<Rightarrow> bool" where
  "server_frame_roundtrip to_vec from_bytes \<longleftrightarrow>
     (let rm = \<lparr>rm_from = 0, rm_username = lit ''alice'', rm_ad = frame_ad, rm_ciphertext = [5, 6, 7]\<rparr> in
      roundtrips to_vec from_bytes (ServerHello (replicate 32 7) PROTOCOL_VERSION) \<and>
      roundtrips to_vec from_bytes (Welcome 0 [rm]) \<and>
      roundtrips to_vec from_bytes (ServerMessage rm) \<and>
      roundtrips to_vec from_bytes (Cleared 0 (lit ''alice'')) \<and>
      roundtrips to_vec from_bytes (ServerError AuthFailed))"

lemma roundtrips_postcard:
  assumes "postcard_roundtrip valid to_vec from_bytes" and "valid v"
  shows "roundtrips to_vec from_bytes v"
proof -
  obtain b where "to_vec v = Some b" "from_bytes b = Some v" by (rule roundtripD [OF assms])
  then show ?thesis by (simp add: roundtrips_def)
qed

lemma short_wf: "str_wf (lit ''alice'')" "str_wf (lit ''main'')"
  by (simp_all add: str_wf_def scalar_def str_len_def utf8_def utf8_char_def)

lemma client_frame_roundtrip:
  "postcard_roundtrip client_wf to_vec from_bytes \<Longrightarrow> client_frame_roundtrip to_vec from_bytes"
  using short_wf by (simp add: client_frame_roundtrip_def roundtrips_postcard frame_ad_def del: lit_simps)

lemma server_frame_roundtrip:
  "postcard_roundtrip server_wf to_vec from_bytes \<Longrightarrow> server_frame_roundtrip to_vec from_bytes"
  using short_wf
  by (simp add: server_frame_roundtrip_def roundtrips_postcard frame_ad_def message_wf_def Let_def
      del: lit_simps)

section \<open>Handshakes over a duplex pipe\<close>

text \<open>
  Both ends of \<^verbatim>\<open>duplex\<close>: the server reads what the client has sent before it waits, and the client
  then reads the server's answer. The results of the client and of the server.
\<close>

definition duplex ::
  "('h, 't) noise_ops \<Rightarrow> bytes \<times> bytes \<Rightarrow> bytes \<times> bytes \<Rightarrow> 't result \<times> 't result" where
  "duplex nz client server =
     (let c2s = snd (snd (handshake_initiator nz pipe_ops (fst client) (snd client) ([], [])));
          (server_result, (_, s2c)) = handshake_responder nz pipe_ops (fst server) (snd server) (c2s, [])
      in (fst (handshake_initiator nz pipe_ops (fst client) (snd client) (s2c, [])), server_result))"

definition PROLOGUE :: bytes where "PROLOGUE = utf8 (lit ''test'')"

definition handshake_round_trip :: "('h, 't) noise_ops \<Rightarrow> bool" where
  "handshake_round_trip nz \<longleftrightarrow>
     (case duplex nz (replicate 32 7, PROLOGUE) (replicate 32 7, PROLOGUE) of
        (Inr client_t, Inr server_t) \<Rightarrow>
          (case transport_seal nz client_t (utf8 (lit ''hi'')) of
             (Inl e, _) \<Rightarrow> False
           | (Inr ct, _) \<Rightarrow> fst (transport_open nz server_t ct) = Inr (utf8 (lit ''hi'')))
      | _ \<Rightarrow> False)"

definition either_fails :: "'t result \<times> 't result \<Rightarrow> bool" where
  "either_fails r \<longleftrightarrow> (case r of (Inr _, Inr _) \<Rightarrow> False | _ \<Rightarrow> True)"

definition wrong_psk_fails :: "('h, 't) noise_ops \<Rightarrow> bool" where
  "wrong_psk_fails nz = either_fails (duplex nz (replicate 32 2, PROLOGUE) (replicate 32 1, PROLOGUE))"

definition prologue_mismatch_fails :: "('h, 't) noise_ops \<Rightarrow> bool" where
  "prologue_mismatch_fails nz =
     either_fails (duplex nz (replicate 32 7, utf8 (lit ''client-prologue''))
       (replicate 32 7, utf8 (lit ''server-prologue'')))"

lemma duplex_completes:
  assumes "noise_completes nz in_step" and "length p \<le> PROLOGUE_MAX" "length psk = KEY_LEN"
  obtains ti tr where "duplex nz (psk, p) (psk, p) = (Inr ti, Inr tr)" "in_step ti tr"
proof -
  obtain m0 m1 ti tr where hs: "in_step ti tr"
    "\<And>inp out. handshake_initiator nz pipe_ops psk p (m1 # inp, out) = (Inr ti, (inp, out @ [m0]))"
    "\<And>inp out. handshake_responder nz pipe_ops psk p (m0 # inp, out) = (Inr tr, (inp, out @ [m1]))"
    using handshake_runs [OF assms] by metis
  obtain r inp out where first: "handshake_initiator nz pipe_ops psk p ([], []) = (r, (inp, out))"
    by (metis surj_pair)
  have "out = [m0]"
    using hs(2) [of "[]" "[]"] first
    by (auto simp: handshake_initiator_def split: sum.splits option.splits prod.splits if_splits)
  with hs first show thesis by (intro that [of ti tr]) (simp_all add: duplex_def)
qed

lemma duplex_agrees:
  assumes "noise_agrees nz" and "\<not> either_fails (duplex nz (psk, p) (psk', p'))"
  shows "psk' = psk \<and> p' = p"
proof -
  obtain rc inp out where c: "handshake_initiator nz pipe_ops psk p ([], []) = (rc, (inp, out))"
    by (metis surj_pair)
  obtain rs s' where s: "handshake_responder nz pipe_ops psk' p' (out, []) = (rs, s')"
    by (metis surj_pair)
  with assms(2) c obtain t where "rs = Inr t"
    by (cases s'; cases rs) (auto simp: duplex_def either_fails_def split: sum.splits)
  with s obtain hr m0 rest r where m0: "out = m0 # rest"
    "nz_build nz Responder PATTERN p' 0 psk' = Some hr" "nz_read nz hr m0 NOISE_BUF = Some r"
    by (cases out) 
      (auto simp: handshake_responder_def responder_def ok_or_Inr_iff split: sum.splits option.splits)
  with initiator_first_message [OF c] obtain hi hi' where
    "nz_build nz Initiator PATTERN p 0 psk = Some hi" "nz_write nz hi [] NOISE_BUF = Some (m0, hi')"
    by auto
  with m0 assms(1) show ?thesis unfolding noise_agrees_def by blast
qed

lemma handshake_tests:
  assumes "noise_completes nz in_step" "transport_laws nz in_step" "noise_agrees nz"
  shows "handshake_round_trip nz" and "wrong_psk_fails nz" and "prologue_mismatch_fails nz"
proof -
  have len: "length PROLOGUE \<le> PROLOGUE_MAX" "length (replicate 32 7 :: bytes) = KEY_LEN"
    by (simp_all add: PROLOGUE_def utf8_def utf8_char_def PROLOGUE_MAX_def KEY_LEN_def)
  obtain ti tr where d: "duplex nz (replicate 32 7, PROLOGUE) (replicate 32 7, PROLOGUE) = (Inr ti, Inr tr)"
    and step: "in_step ti tr"
    using duplex_completes [OF assms(1) len] by metis
  let ?pt = "utf8 (lit ''hi'')"
  have "length ?pt + AEAD_TAG_LEN \<le> NOISE_BUF"
    by (simp add: utf8_def utf8_char_def AEAD_TAG_LEN_def NOISE_BUF_def)
  with assms(2) step obtain ct a' b' where
    "nz_seal nz ti ?pt (length ?pt + AEAD_TAG_LEN) = (Some ct, a')"
    "nz_open nz tr ct (length ct) = (Some ?pt, b')"
    unfolding transport_laws_def by blast
  with d show "handshake_round_trip nz"
    by (simp add: handshake_round_trip_def transport_seal_def transport_open_def del: lit_simps)
  have "replicate 32 1 \<noteq> (replicate 32 2 :: bytes)" by (simp add: replicate_eq_replicate)
  with duplex_agrees [OF assms(3)] show "wrong_psk_fails nz" unfolding wrong_psk_fails_def by blast
  have "utf8 (lit ''server-prologue'') \<noteq> utf8 (lit ''client-prologue'')"
    by (simp add: utf8_def utf8_char_def)
  with duplex_agrees [OF assms(3)] show "prologue_mismatch_fails nz"
    unfolding prologue_mismatch_fails_def by blast
qed

end
