(* ===== verification/Logging.thy ===== *)
theory Logging
  imports Cli
begin

text \<open>
  The log: the places of \<^verbatim>\<open>src/server/mod.rs\<close> and \<^verbatim>\<open>src/main.rs\<close> that write to it, and the subscriber that
  \<^verbatim>\<open>init_tracing\<close> of \<^verbatim>\<open>src/main.rs\<close> installs, a filter set by the environment before the one that drops
  events with secret fields. The environment filter of tracing-subscriber is a parameter.
\<close>

section \<open>Events\<close>

datatype log_level = Trace | Debug | Info | Warn | ErrorLevel

primrec level_rank :: "log_level \<Rightarrow> nat" where
  "level_rank Trace = 0"
| "level_rank Debug = 1"
| "level_rank Info = 2"
| "level_rank Warn = 3"
| "level_rank ErrorLevel = 4"

text \<open>The metadata of an event: what a filter can see of it. Values of fields are not part of it; the text
  is the value of a field of its own, \<^verbatim>\<open>message\<close>.\<close>

record log_event =
  le_level :: log_level
  le_target :: string
  le_fields :: "str list"
  le_text :: string

definition server_event_log :: "log_level \<Rightarrow> string list \<Rightarrow> string \<Rightarrow> log_event" where
  "server_event_log level names text =
     \<lparr>le_level = level, le_target = ''chat_rs::server'', le_fields = lit ''message'' # map lit names, le_text = text\<rparr>"

text \<open>The log calls of \<^verbatim>\<open>run\<close>, of the sweeper, of a connection and of \<^verbatim>\<open>broadcast\<close>, from the top to the bottom
  of the file, and that of \<^verbatim>\<open>main\<close>.\<close>

definition RUN_LOG :: "log_event list" where
  "RUN_LOG =
     [server_event_log Info [''rooms'', ''addr''] ''listening'',
      server_event_log Info [] ''ctrl-c received; shutting down'',
      server_event_log Warn [''peer''] ''rate-limited; dropping connection'',
      server_event_log Warn [''peer'', ''error''] ''connection error'',
      server_event_log Warn [''error''] ''accept failed'',
      server_event_log Info [''active''] ''draining tasks'',
      server_event_log Info [] ''shutdown complete'']"

definition SWEEPER_LOG :: "log_event list" where
  "SWEEPER_LOG = [server_event_log Info [''room'', ''evicted''] ''sweeper evicted stale sessions'']"

definition CONNECTION_LOG :: "log_event list" where
  "CONNECTION_LOG =
     [server_event_log Warn [''peer''] ''active-connection cap reached; dropping'',
      server_event_log Warn [''peer''] ''client did not send RoomSelect in time'',
      server_event_log Warn [''peer'', ''room''] ''unknown room (sending fake hello)'',
      server_event_log Warn [''peer'', ''room'', ''error''] ''handshake failed'',
      server_event_log Warn [''peer'', ''room''] ''handshake timed out'',
      server_event_log Warn [''peer'', ''room''] ''client did not send Hello in time'',
      server_event_log Info [''peer'', ''room'', ''user_id'', ''username''] ''connected'',
      server_event_log Info [''peer'', ''room'', ''user_id'', ''username''] ''disconnected'']"

definition BROADCAST_LOG :: "log_event list" where
  "BROADCAST_LOG = [server_event_log Debug [''room'', ''evicted''] ''broadcast evicted slow or dead peers'']"

definition fatal :: log_event where
  "fatal = \<lparr>le_level = ErrorLevel, le_target = ''chat_rs'', le_fields = [lit ''message'', lit ''error''], le_text = ''fatal''\<rparr>"

definition LOG_SITES :: "log_event list" where
  "LOG_SITES = RUN_LOG @ SWEEPER_LOG @ CONNECTION_LOG @ BROADCAST_LOG @ [fatal]"

section \<open>The subscriber\<close>

text \<open>The environment filter: \<open>ef_parse\<close> is \<^verbatim>\<open>try_from_default_env\<close> on the value of the variable, \<open>ef_new\<close> reads
  directives and passes over those that are not valid.\<close>

record 'f env_filter_ops =
  ef_parse :: "str \<Rightarrow> 'f option"
  ef_new :: "str \<Rightarrow> 'f"
  ef_enabled :: "'f \<Rightarrow> log_level \<Rightarrow> string \<Rightarrow> bool"

definition RUST_LOG :: string where "RUST_LOG = ''RUST_LOG''"
definition DEFAULT_DIRECTIVES :: string where "DEFAULT_DIRECTIVES = ''chat_rs=info,warn''"

definition env_filter :: "'f env_filter_ops \<Rightarrow> (string \<Rightarrow> str option) \<Rightarrow> 'f" where
  "env_filter ops env =
     (case Option.bind (env RUST_LOG) (ef_parse ops) of
        Some f \<Rightarrow> f
      | None \<Rightarrow> ef_new ops (lit DEFAULT_DIRECTIVES))"

text \<open>The global subscriber is only set once; a second attempt is an error, which is ignored.\<close>

definition init_tracing ::
  "'f env_filter_ops \<Rightarrow> (string \<Rightarrow> str option) \<Rightarrow> 'f option \<Rightarrow> 'f option" where
  "init_tracing ops env global = (case global of None \<Rightarrow> Some (env_filter ops env) | Some f \<Rightarrow> Some f)"

text \<open>Which events come to standard error.\<close>

definition written :: "'f env_filter_ops \<Rightarrow> 'f option \<Rightarrow> log_event \<Rightarrow> bool" where
  "written ops global e \<longleftrightarrow>
     (case global of
        None \<Rightarrow> False
      | Some f \<Rightarrow> ef_enabled ops f (le_level e) (le_target e) \<and> field_scrub_enabled (le_fields e))"

text \<open>The documented meaning of the default directives: the program's own events from \<open>Info\<close> on.\<close>

definition default_means :: "'f env_filter_ops \<Rightarrow> bool" where
  "default_means ops \<longleftrightarrow>
     (\<forall>level target. ef_enabled ops (ef_new ops (lit DEFAULT_DIRECTIVES)) level target \<longleftrightarrow>
        level_rank (if take 7 target = ''chat_rs'' then Info else Warn) \<le> level_rank level)"

section \<open>What is written\<close>

lemmas log_site_defs = LOG_SITES_def RUN_LOG_def SWEEPER_LOG_def CONNECTION_LOG_def BROADCAST_LOG_def
  fatal_def server_event_log_def

text \<open>None of the program's events is lost to the scrubbing.\<close>

lemma log_sites_scrubbed: "\<forall>e \<in> set LOG_SITES. field_scrub_enabled (le_fields e)"
  by (simp add: log_site_defs field_scrub_enabled_def FORBIDDEN_FIELDS_def)

lemma no_secret_written:
  "written ops global e \<Longrightarrow> f \<in> set (le_fields e) \<Longrightarrow> f \<notin> set FORBIDDEN_FIELDS"
  by (auto simp: written_def field_scrub_enabled_def split: option.splits)

lemma default_written:
  assumes "default_means ops" and "env RUST_LOG = None"
  shows "\<forall>e \<in> set LOG_SITES. written ops (init_tracing ops env None) e \<longleftrightarrow> le_level e \<noteq> Debug"
proof -
  have own: "\<forall>e \<in> set LOG_SITES. take 7 (le_target e) = ''chat_rs'' \<and>
      (2 \<le> level_rank (le_level e) \<longleftrightarrow> le_level e \<noteq> Debug)"
    by (simp add: log_site_defs)
  then show ?thesis
    using log_sites_scrubbed assms
    by (auto simp: written_def init_tracing_def env_filter_def default_means_def)
qed

end
