(* ===== verification/ServerMain.thy ===== *)
theory ServerMain
  imports ServerLoop
begin

text \<open>
  The server's \<^verbatim>\<open>run\<close> of \<^verbatim>\<open>src/server/mod.rs\<close> from the start to the end of its tasks: the biased
  choice in \<^verbatim>\<open>pump\<close>, the loop of \<^verbatim>\<open>sweeper\<close>, the shutdown token that the accept loop cancels and the
  others see, and the drain. A schedule interleaves the turns of the three. What is proved is that an
  interrupt ends everything, once each task has had a turn after it.
\<close>

section \<open>The biased select of a connection\<close>

text \<open>
  At each turn of \<^verbatim>\<open>pump\<close> the three futures are polled in the order in which they are written:
  whether the shutdown was cancelled, which the token says, whether the outbox yields (a frame, or the
  end of the channel) and whether sending the frame would never end, and what the handler of an
  incoming frame reads, if the socket yields. \<open>Elsewhere\<close> is another task's doing.
\<close>

datatype ('tx, 'w) poll =
    Poll bool bool "handler_clock option"
  | Elsewhere "'tx room_state" 'w

primrec polled :: "bool \<Rightarrow> ('tx, 'w) poll \<Rightarrow> ('tx, 'w) pump_event option" where
  "polled cancelled (Poll outbox stuck socket) =
     (if cancelled then Some PumpShutdown
      else if outbox then Some (if stuck then PumpStuck else PumpOutgoing)
      else map_option PumpIncoming socket)"
| "polled cancelled (Elsewhere room w) = Some (PumpOthers room w)"

definition poll_events :: "(bool \<times> ('tx, 'w) poll) list \<Rightarrow> ('tx, 'w) pump_event list" where
  "poll_events polls = List.map_filter (\<lambda>(cancelled, p). polled cancelled p) polls"

text \<open>A connection notices the shutdown if it is not stuck in a send before.\<close>

fun sees_shutdown :: "(bool \<times> ('tx, 'w) poll) list \<Rightarrow> bool" where
  "sees_shutdown [] \<longleftrightarrow> False"
| "sees_shutdown ((cancelled, p) # ps) \<longleftrightarrow>
     polled cancelled p = Some PumpShutdown \<or> polled cancelled p \<noteq> Some PumpStuck \<and> sees_shutdown ps"

lemma poll_events_simps [simp]:
  "poll_events [] = []"
  "poll_events ((c, p) # ps) = (case polled c p of None \<Rightarrow> poll_events ps | Some e \<Rightarrow> e # poll_events ps)"
  by (simp_all add: poll_events_def map_filter_simps split: option.split)

lemma poll_events_append: "poll_events (ps @ qs) = poll_events ps @ poll_events qs"
proof (induction ps)
  case (Cons x ps)
  then show ?case by (cases x) (simp split: option.split)
qed simp

text \<open>A client frame is only read when there is nothing to deliver.\<close>

lemma incoming_waits: "polled c (Poll o' h sock) = Some (PumpIncoming clk) \<Longrightarrow> \<not> c \<and> \<not> o' \<and> sock = Some clk"
  by (auto split: if_splits)

section \<open>A cancelled connection ends\<close>

lemma pump_cancelled:
  "PumpStuck \<notin> set es \<Longrightarrow> fst (pump env u name rx (es @ PumpShutdown # es') room s t w) \<noteq> None"
proof (induction env u name rx es room s t w rule: pump.induct)
  case (4 env u name rx clk es room s t w)
  then show ?case
    by (auto split: recv_event.split prod.split sum.split option.split)
qed (auto split: prod.split sum.split option.split)

text \<open>What comes after the cancellation makes no difference.\<close>

lemma pump_cancelled_prefix:
  "pump env u name rx (es @ PumpShutdown # es') room s t w =
     pump env u name rx (es @ [PumpShutdown]) room s t w"
proof (induction env u name rx es room s t w rule: pump.induct)
  case (4 env u name rx clk es room s t w)
  then show ?case
    by (auto split: recv_event.split prod.split sum.split option.split)
qed (auto split: prod.split sum.split option.split)

text \<open>Nor does what comes after a send that never ends.\<close>

lemma pump_stuck_prefix:
  "pump env u name rx (es @ PumpStuck # es') room s t w =
     pump env u name rx (es @ [PumpStuck]) room s t w"
proof (induction env u name rx es room s t w rule: pump.induct)
  case (4 env u name rx clk es room s t w)
  then show ?case
    by (auto split: recv_event.split prod.split sum.split option.split)
qed (auto split: prod.split sum.split option.split)

lemma serve_cancelled:
  assumes "PumpStuck \<notin> set xs"
  shows "fst (serve env orc (xs @ PumpShutdown # ys) name room s t w) \<noteq> None"
proof -
  let ?es = "xs @ PumpShutdown # ys"
  obtain room2 w3 where j: "joined_room env orc name room w = (room2, w3)" by (metis surj_pair)
  let ?w = "Welcome (co_user_id orc) (ms_snapshot (rs_messages room2))"
  obtain r1 s1 t1 where se: "send_encrypted (se_noise env) (se_stream env) (se_to_vec env) ?w s t = (r1, s1, t1)"
    by (metis surj_pair)
  let ?p = "pump env (co_user_id orc) name (fst (se_channel env (snd (co_before_join orc (room, w))))) ?es
    room2 s1 t1 w3"
  have "fst ?p \<noteq> None" using assms by (rule pump_cancelled)
  then obtain r2 rest where "?p = (Some r2, rest)" by (cases ?p) auto
  with j se show ?thesis by (cases r1; cases rest) (auto simp: serve_alt)
qed

lemma connection_cancelled:
  assumes "PumpStuck \<notin> set xs"
  shows "fst (handle_connection env orc (xs @ PumpShutdown # ys) hub s w) \<noteq> None"
proof (cases "fst (try_acquire MAX_ACTIVE_CONNS (hub_active_conns hub))")
  case True
  let ?hub = "hub\<lparr>hub_active_conns := snd (try_acquire MAX_ACTIVE_CONNS (hub_active_conns hub))\<rparr>"
  obtain r1 s1 where a: "authenticate env orc ?hub s = (r1, s1)" by (metis surj_pair)
  show ?thesis
  proof (cases r1)
    case (Inl e)
    with True a show ?thesis by (simp add: handle_connection_def Let_def split_def)
  next
    case (Inr y)
    obtain room name t where y: "y = (room, name, t)" by (cases y)
    obtain r2 rest where "serve env orc (xs @ PumpShutdown # ys) name room s1 t w = (r2, rest)"
      by (metis surj_pair)
    moreover from this have "r2 \<noteq> None" using serve_cancelled [OF assms] by (metis fst_conv)
    ultimately show ?thesis
      using True a Inr y by (cases rest) (auto simp: handle_connection_def Let_def split_def)
  qed
qed (simp add: handle_connection_def split_def)

lemma connection_cancelled_prefix:
  "handle_connection env orc (es @ PumpShutdown # es') hub s w =
     handle_connection env orc (es @ [PumpShutdown]) hub s w"
proof -
  have "serve env orc (es @ PumpShutdown # es') name room s t w =
      serve env orc (es @ [PumpShutdown]) name room s t w" for name room s t w
    unfolding serve_alt by (subst pump_cancelled_prefix) (rule refl)
  then show ?thesis by (simp only: handle_connection_def)
qed

lemma connection_stuck_prefix:
  "handle_connection env orc (es @ PumpStuck # es') hub s w =
     handle_connection env orc (es @ [PumpStuck]) hub s w"
proof -
  have "serve env orc (es @ PumpStuck # es') name room s t w =
      serve env orc (es @ [PumpStuck]) name room s t w" for name room s t w
    unfolding serve_alt by (subst pump_stuck_prefix) (rule refl)
  then show ?thesis by (simp only: handle_connection_def)
qed

lemma sees_shutdown_event:
  "sees_shutdown ps \<Longrightarrow> \<exists>xs ys. poll_events ps = xs @ PumpShutdown # ys \<and> PumpStuck \<notin> set xs"
proof (induction ps rule: sees_shutdown.induct)
  case (2 c p ps)
  show ?case
  proof (cases "polled c p = Some PumpShutdown")
    case True
    then show ?thesis by (intro exI [of _ "[]"] exI [of _ "poll_events ps"]) simp
  next
    case False
    with "2.prems" have p: "polled c p \<noteq> Some PumpStuck" "sees_shutdown ps" by auto
    with "2.IH" obtain xs ys
      where ih: "poll_events ps = xs @ PumpShutdown # ys" "PumpStuck \<notin> set xs"
      by blast
    show ?thesis
    proof (cases "polled c p")
      case None
      with ih show ?thesis by auto
    next
      case (Some e)
      with ih p show ?thesis by (intro exI [of _ "e # xs"] exI [of _ ys]) auto
    qed
  qed
qed simp

lemma sees_shutdown_append:
  assumes "\<And>c p. (c, p) \<in> set ps \<Longrightarrow> polled c p \<noteq> Some PumpStuck" and "sees_shutdown qs"
  shows "sees_shutdown (ps @ qs)"
  using assms by (induction ps rule: sees_shutdown.induct) auto

lemma sees_shutdown_cancelled:
  "(\<And>c p. (c, p) \<in> set ps \<Longrightarrow> c) \<Longrightarrow> (True, Poll out stuck sock) \<in> set ps \<Longrightarrow> sees_shutdown ps"
proof (induction ps rule: sees_shutdown.induct)
  case (2 c p ps)
  from "2.prems"(1) [of c p] have "c" by simp
  with 2 show ?case by (cases p) auto
qed simp

section \<open>The sweeper\<close>

text \<open>One turn of its loop: cancelled, or a tick; or other tasks' doing while it waits. The immediate
  first tick is skipped. Its select is not biased: when the token is cancelled and a tick is due, either
  may come first.\<close>

datatype 'tx sweeper_turn =
    SweeperCancelled
  | SweeperTick instant "(str \<times> instant \<times> uuid list) list"
  | SweeperOthers "'tx server_hub"

fun sweeper :: "'tx sweeper_turn list \<Rightarrow> 'tx server_hub \<Rightarrow> unit option \<times> 'tx server_hub" where
  "sweeper [] hub = (None, hub)"
| "sweeper (SweeperCancelled # ts) hub = (Some (), hub)"
| "sweeper (SweeperTick t visits # ts) hub = sweeper ts (sweeper_tick t visits hub)"
| "sweeper (SweeperOthers hub' # ts) hub = sweeper ts hub'"

datatype 'tx sweeper_poll =
    SweeperPoll "(instant \<times> (str \<times> instant \<times> uuid list) list) option" bool
  | SweeperElsewhere "'tx server_hub"

primrec sweeper_polled :: "bool \<Rightarrow> 'tx sweeper_poll \<Rightarrow> 'tx sweeper_turn option" where
  "sweeper_polled cancelled (SweeperPoll tick cancel_first) =
     (if cancelled \<and> (tick = None \<or> cancel_first) then Some SweeperCancelled
      else map_option (\<lambda>(t, visits). SweeperTick t visits) tick)"
| "sweeper_polled cancelled (SweeperElsewhere hub) = Some (SweeperOthers hub)"

lemma sweeper_cancelled:
  "fst (sweeper ts hub) \<noteq> None \<longleftrightarrow> SweeperCancelled \<in> set ts"
  by (induction ts hub rule: sweeper.induct) simp_all

section \<open>The drain\<close>

text \<open>A set of spawned tasks, each with its result, or \<open>None\<close> if it never ends. \<^verbatim>\<open>join_next\<close> yields a
  finished one, nothing when the set is empty, and blocks otherwise.\<close>

datatype 'r join = NoTasks | Joined 'r "'r option list" | Blocked

fun join_next :: "'r option list \<Rightarrow> 'r join" where
  "join_next [] = NoTasks"
| "join_next (Some r # ts) = Joined r ts"
| "join_next (None # ts) =
     (case join_next ts of Joined r ts' \<Rightarrow> Joined r (None # ts') | _ \<Rightarrow> Blocked)"

lemma join_next_length: "join_next ts = Joined r ts' \<Longrightarrow> length ts' < length ts"
  by (induction ts arbitrary: ts' rule: join_next.induct) (auto split: join.splits)

lemma join_next_tasks: "join_next ts = Joined r ts' \<Longrightarrow> set ts = insert (Some r) (set ts')"
  by (induction ts arbitrary: ts' rule: join_next.induct) (fastforce split: join.splits)+

lemma join_next_NoTasks: "join_next ts = NoTasks \<longleftrightarrow> ts = []"
  by (cases ts rule: join_next.cases) (auto split: join.splits)

lemma join_next_Blocked: "join_next ts = Blocked \<Longrightarrow> ts \<noteq> [] \<and> (\<forall>t \<in> set ts. t = None)"
  by (induction ts rule: join_next.induct) (auto simp: join_next_NoTasks split: join.splits)

text \<open>\<^verbatim>\<open>while tasks.join_next().await.is_some()\<close>; \<open>None\<close> is the wait that never ends.\<close>

function drain :: "'r option list \<Rightarrow> unit option" where
  "drain ts =
     (case join_next ts of NoTasks \<Rightarrow> Some () | Joined r ts' \<Rightarrow> drain ts' | Blocked \<Rightarrow> None)"
  by pat_completeness auto
termination by (relation "measure length") (simp_all add: join_next_length)

declare drain.simps [simp del]

lemma drain_iff: "drain ts = Some () \<longleftrightarrow> None \<notin> set ts"
proof (induction ts rule: drain.induct)
  case (1 ts)
  show ?case
  proof (cases "join_next ts")
    case NoTasks
    then show ?thesis by (simp add: drain.simps join_next_NoTasks)
  next
    case (Joined r ts')
    with 1 [OF Joined] join_next_tasks [OF Joined] show ?thesis by (subst drain.simps) simp
  next
    case Blocked
    from join_next_Blocked [OF this] have "None \<in> set ts" by (cases ts) auto
    with Blocked show ?thesis by (subst drain.simps) simp
  qed
qed

section \<open>The schedule\<close>

text \<open>Whose turn it is, and what the turn meets: an iteration of the accept loop, of the sweeper, or of the
  select loop of the connection that was spawned as the \<open>k\<close>-th.\<close>

datatype ('tx, 'w) turn =
    MainTurn "'tx server_event"
  | SweeperTurn "'tx sweeper_poll"
  | ConnTurn nat "('tx, 'w) poll"

primrec main_event :: "('tx, 'w) turn \<Rightarrow> 'tx server_event option" where
  "main_event (MainTurn e) = Some e"
| "main_event (SweeperTurn p) = None"
| "main_event (ConnTurn k p) = None"

definition main_events :: "('tx, 'w) turn list \<Rightarrow> 'tx server_event list" where
  "main_events sch = List.map_filter main_event sch"

text \<open>Each turn with what the accept loop has done before it. The token of that moment is what the turn
  sees, and a connection has turns from when it is spawned.\<close>

fun observed ::
  "'tx server_hub \<Rightarrow> ('tx, 'w) turn list \<Rightarrow> ('tx, 'w) turn list
     \<Rightarrow> (((instant \<times> ip_addr) list \<times> 'tx server_hub \<times> bool \<times> bool) \<times> ('tx, 'w) turn) list" where
  "observed hub pre [] = []"
| "observed hub pre (x # sch) = (run_loop (main_events pre) hub, x) # observed hub (pre @ [x]) sch"

fun sweeper_sees :: "((instant \<times> ip_addr) list \<times> 'tx server_hub \<times> bool \<times> bool) \<times> ('tx, 'w) turn
    \<Rightarrow> 'tx sweeper_turn option" where
  "sweeper_sees (r, SweeperTurn p) = sweeper_polled (token r) p"
| "sweeper_sees (r, x) = None"

fun conn_sees :: "nat \<Rightarrow> ((instant \<times> ip_addr) list \<times> 'tx server_hub \<times> bool \<times> bool) \<times> ('tx, 'w) turn
    \<Rightarrow> (bool \<times> ('tx, 'w) poll) option" where
  "conn_sees k (r, ConnTurn j p) = (if j = k \<and> k < length (fst r) then Some (token r, p) else None)"
| "conn_sees k (r, x) = None"

definition sweeper_turns :: "'tx server_hub \<Rightarrow> ('tx, 'w) turn list \<Rightarrow> 'tx sweeper_turn list" where
  "sweeper_turns hub sch = List.map_filter sweeper_sees (observed hub [] sch)"

definition conn_polls :: "'tx server_hub \<Rightarrow> nat \<Rightarrow> ('tx, 'w) turn list \<Rightarrow> (bool \<times> ('tx, 'w) poll) list" where
  "conn_polls hub k sch = List.map_filter (conn_sees k) (observed hub [] sch)"

lemma map_filter_append: "List.map_filter f (xs @ ys) = List.map_filter f xs @ List.map_filter f ys"
  by (simp add: List.map_filter_def)

lemma set_map_filter: "y \<in> set (List.map_filter f xs) \<longleftrightarrow> (\<exists>x \<in> set xs. f x = Some y)"
  by (force simp: List.map_filter_def)

lemma main_events_append: "main_events (xs @ ys) = main_events xs @ main_events ys"
  by (simp add: main_events_def map_filter_append)

lemma main_events_Cons: "main_events (x # xs) = (case main_event x of None \<Rightarrow> [] | Some e \<Rightarrow> [e]) @ main_events xs"
  by (simp add: main_events_def map_filter_simps split: option.split)

lemma CtrlC_main_events: "CtrlC \<in> set (main_events sch) \<longleftrightarrow> MainTurn CtrlC \<in> set sch"
proof -
  have "main_event x = Some e \<longleftrightarrow> x = MainTurn e" for x :: "('a, 'b) turn" and e by (cases x) auto
  then show ?thesis by (auto simp: main_events_def set_map_filter)
qed

lemma observed_append: "observed hub pre (xs @ ys) = observed hub pre xs @ observed hub (pre @ xs) ys"
  by (induction hub pre xs rule: observed.induct) simp_all

lemma observed_in:
  "(r, x) \<in> set (observed hub pre sch) \<longleftrightarrow>
     (\<exists>xs ys. sch = xs @ x # ys \<and> r = run_loop (main_events (pre @ xs)) hub)"
proof (induction hub pre sch rule: observed.induct)
  case (2 hub pre y sch)
  show ?case
    unfolding observed.simps set_simps insert_iff 2 by (auto simp: Cons_eq_append_conv)
qed simp

text \<open>After an interrupt every turn sees the token cancelled, and the connections are those spawned before.\<close>

lemma observed_interrupted:
  assumes "(r, x) \<in> set (observed hub (pre @ [MainTurn CtrlC]) sch)"
  shows "token r \<and> fst r = fst (run_loop (main_events pre) hub)"
proof -
  from assms obtain xs where "r = run_loop (main_events (pre @ MainTurn CtrlC # xs)) hub"
    by (auto simp: observed_in)
  then have "r = run_loop (main_events pre @ CtrlC # main_events xs) hub"
    by (simp add: main_events_append main_events_Cons)
  then show ?thesis using run_loop_interrupted by metis
qed

section \<open>The whole server\<close>

text \<open>What a spawned connection meets: its socket, the hub and the channels when it starts. Its error is only
  logged.\<close>

record ('h, 't, 's, 'tx, 'w) conn_task =
  ct_env :: "('h, 't, 's, 'tx, 'w) server_env"
  ct_oracle :: "('t, 's, 'tx, 'w) conn_oracle"
  ct_hub :: "'tx server_hub"
  ct_socket :: 's
  ct_chan :: 'w

definition spawned_task ::
  "('h, 't, 's, 'tx, 'w) conn_task \<Rightarrow> (bool \<times> ('tx, 'w) poll) list \<Rightarrow> unit option" where
  "spawned_task c polls =
     map_option (\<lambda>_. ())
       (fst (handle_connection (ct_env c) (ct_oracle c) (poll_events polls) (ct_hub c) (ct_socket c) (ct_chan c)))"

text \<open>\<open>draws\<close> are the salts' random draws, \<open>bound\<close> whether binding the address succeeds, \<open>sch\<close> the schedule,
  and \<open>conn k\<close> the connection that is spawned as the \<open>k\<close>-th. The server waits for ever when no interrupt
  comes.\<close>

definition server_run ::
  "kdf_ops \<Rightarrow> room_config list \<Rightarrow> bytes option list \<Rightarrow> bool \<Rightarrow> ('tx, 'w) turn list
     \<Rightarrow> (nat \<Rightarrow> ('h, 't, 's, 'tx, 'w) conn_task) \<Rightarrow> unit result option" where
  "server_run kdf configs draws bound sch conn =
     (case server_hub_new kdf configs draws of
        Inl e \<Rightarrow> Some (Inl e)
      | Inr hub \<Rightarrow>
          if \<not> bound then Some (Inl Io)
          else
            let swept = fst (sweeper (sweeper_turns hub sch) hub);
                looped = run_loop (main_events sch) hub;
                tasks = swept # map (\<lambda>k. spawned_task (conn k) (conn_polls hub k sch)) [0..<length (fst looped)]
            in if \<not> left_loop looped then None
               else (case drain tasks of None \<Rightarrow> None | Some _ \<Rightarrow> Some (Inr ())))"

text \<open>An interrupt ends the sweeper at its next turn at which no tick is handled first, and a connection at
  its next turn, if it has not got stuck before.\<close>

lemma sweeper_interrupted:
  assumes "SweeperTurn (SweeperPoll tick first) \<in> set post" and "tick = None \<or> first"
  shows "fst (sweeper (sweeper_turns hub (pre @ MainTurn CtrlC # post)) hub) = Some ()"
proof -
  obtain r where r: "(r, SweeperTurn (SweeperPoll tick first)) \<in> set (observed hub (pre @ [MainTurn CtrlC]) post)"
    using assms(1) unfolding observed_in by (metis split_list)
  then have "token r" using observed_interrupted by blast
  then have "sweeper_sees (r, SweeperTurn (SweeperPoll tick first)) = Some SweeperCancelled"
    using assms(2) by simp
  moreover have "(r, SweeperTurn (SweeperPoll tick first)) \<in> set (observed hub [] (pre @ MainTurn CtrlC # post))"
    using r by (simp add: observed_append)
  ultimately have "SweeperCancelled \<in> set (sweeper_turns hub (pre @ MainTurn CtrlC # post))"
    unfolding sweeper_turns_def set_map_filter by blast
  then show ?thesis using sweeper_cancelled by (metis not_None_eq old.unit.exhaust)
qed

lemma conn_interrupted:
  assumes spawned: "k < length (fst (run_loop (main_events pre) hub))"
    and turn: "ConnTurn k (Poll out stuck sock) \<in> set post"
    and free: "\<And>sock. ConnTurn k (Poll True True sock) \<notin> set pre"
  shows "sees_shutdown (conn_polls hub k (pre @ MainTurn CtrlC # post))"
proof -
  let ?post = "List.map_filter (conn_sees k) (observed hub (pre @ [MainTurn CtrlC]) post)"
  have split: "conn_polls hub k (pre @ MainTurn CtrlC # post) =
      List.map_filter (conn_sees k) (observed hub [] pre) @ ?post"
    by (simp add: conn_polls_def observed_append map_filter_append map_filter_simps)
  have sees: "conn_sees k (r, x) = Some (c, p) \<longleftrightarrow> x = ConnTurn k p \<and> k < length (fst r) \<and> c = token r"
    for r c p and x :: "('a, 'b) turn"
    by (cases x) auto
  have "polled c p \<noteq> Some PumpStuck" if "(c, p) \<in> set (List.map_filter (conn_sees k) (observed hub [] pre))" for c p
  proof -
    have "ConnTurn k p \<in> set pre" using that by (auto simp: set_map_filter sees observed_in)
    with free show ?thesis by (cases p) auto
  qed
  moreover have "sees_shutdown ?post"
  proof (rule sees_shutdown_cancelled)
    fix c p assume "(c, p) \<in> set ?post"
    then obtain r where "(r, ConnTurn k p) \<in> set (observed hub (pre @ [MainTurn CtrlC]) post)" "c = token r"
      unfolding set_map_filter by (metis sees surj_pair)
    then show c using observed_interrupted by blast
  next
    obtain r where "(r, ConnTurn k (Poll out stuck sock)) \<in> set (observed hub (pre @ [MainTurn CtrlC]) post)"
      using turn unfolding observed_in by (metis split_list)
    moreover from observed_interrupted [OF this] spawned
    have "conn_sees k (r, ConnTurn k (Poll out stuck sock)) = Some (True, Poll out stuck sock)" by simp
    ultimately show "(True, Poll out stuck sock) \<in> set ?post" unfolding set_map_filter by blast
  qed
  ultimately show ?thesis unfolding split by (rule sees_shutdown_append)
qed

lemma spawned_ends: "sees_shutdown polls \<Longrightarrow> spawned_task c polls = Some ()"
proof -
  assume "sees_shutdown polls"
  then obtain xs ys where "poll_events polls = xs @ PumpShutdown # ys" "PumpStuck \<notin> set xs"
    using sees_shutdown_event by blast
  with connection_cancelled [of xs] show ?thesis by (auto simp: spawned_task_def)
qed

lemma server_run_ends:
  assumes hub: "server_hub_new kdf configs draws = Inr hub" and "bound"
    and sweeper: "SweeperTurn (SweeperPoll tick first) \<in> set post" "tick = None \<or> first"
    and conns: "\<And>k. k < length (fst (run_loop (main_events pre) hub)) \<Longrightarrow>
      (\<exists>out stuck sock. ConnTurn k (Poll out stuck sock) \<in> set post) \<and>
      (\<forall>sock. ConnTurn k (Poll True True sock) \<notin> set pre)"
  shows "server_run kdf configs draws bound (pre @ MainTurn CtrlC # post) conn = Some (Inr ())"
proof -
  let ?sch = "pre @ MainTurn CtrlC # post"
  have main: "main_events ?sch = main_events pre @ CtrlC # main_events post"
    by (simp add: main_events_append main_events_Cons)
  have loop: "fst (run_loop (main_events ?sch) hub) = fst (run_loop (main_events pre) hub)"
    "left_loop (run_loop (main_events ?sch) hub)"
    unfolding main using run_loop_interrupted by metis+
  have "spawned_task (conn k) (conn_polls hub k ?sch) = Some ()"
    if "k < length (fst (run_loop (main_events ?sch) hub))" for k
    using conns [of k] that loop(1) conn_interrupted [of k pre hub _ _ _ post] spawned_ends by metis
  then have "drain (fst (sweeper (sweeper_turns hub ?sch) hub) #
      map (\<lambda>k. spawned_task (conn k) (conn_polls hub k ?sch))
        [0..<length (fst (run_loop (main_events ?sch) hub))]) = Some ()"
    using sweeper_interrupted [OF sweeper] unfolding drain_iff by auto
  with hub \<open>bound\<close> loop(2) show ?thesis by (simp add: server_run_def Let_def)
qed

lemma server_run_goes_on:
  fixes hub :: "'tx server_hub" and sch :: "('tx, 'w) turn list"
  assumes "server_hub_new kdf configs draws = Inr hub" and "bound"
    and "MainTurn CtrlC \<notin> set sch"
  shows "server_run kdf configs draws bound sch conn = None"
  using assms run_loop_uninterrupted [of "main_events sch" hub]
  by (simp add: server_run_def Let_def CtrlC_main_events)

text \<open>A connection that is stuck in a send keeps the server from ending: the cancelled token is never
  polled again, and the drain waits for it.\<close>

lemma drain_blocked: "None \<in> set ts \<Longrightarrow> drain ts = None"
  using drain_iff [of ts] by (cases "drain ts") auto

lemma conn_polls_stuck:
  assumes "k < length (fst (run_loop (main_events pre) hub))" and "MainTurn CtrlC \<notin> set pre"
  shows "\<exists>rest. conn_polls hub k (pre @ ConnTurn k p # post) =
    conn_polls hub k pre @ (False, p) # rest \<and>
    conn_polls hub k (pre @ [ConnTurn k p]) = conn_polls hub k pre @ [(False, p)]"
proof -
  have "conn_sees k (run_loop (main_events pre) hub, ConnTurn k p) = Some (False, p)"
    using assms run_loop_uninterrupted [of "main_events pre" hub] by (simp add: CtrlC_main_events)
  then show ?thesis
    by (simp add: conn_polls_def observed_append map_filter_append map_filter_simps)
qed

lemma spawned_stuck:
  assumes "k < length (fst (run_loop (main_events pre) hub))" and "MainTurn CtrlC \<notin> set pre"
    and "fst (handle_connection (ct_env c) (ct_oracle c)
      (poll_events (conn_polls hub k (pre @ [ConnTurn k (Poll True True sock)]))) (ct_hub c)
      (ct_socket c) (ct_chan c)) = None"
  shows "spawned_task c (conn_polls hub k (pre @ ConnTurn k (Poll True True sock) # post)) = None"
proof -
  obtain rest where
    "conn_polls hub k (pre @ ConnTurn k (Poll True True sock) # post) =
      conn_polls hub k pre @ (False, Poll True True sock) # rest"
    "conn_polls hub k (pre @ [ConnTurn k (Poll True True sock)]) =
      conn_polls hub k pre @ [(False, Poll True True sock)]"
    using conn_polls_stuck [OF assms(1,2)] by blast
  then have "poll_events (conn_polls hub k (pre @ ConnTurn k (Poll True True sock) # post)) =
      poll_events (conn_polls hub k pre) @ PumpStuck # poll_events rest"
    "poll_events (conn_polls hub k (pre @ [ConnTurn k (Poll True True sock)])) =
      poll_events (conn_polls hub k pre) @ [PumpStuck]"
    by (simp_all add: poll_events_append)
  with assms(3) show ?thesis
    unfolding spawned_task_def by (metis connection_stuck_prefix option.map_disc_iff)
qed

lemma server_run_blocked:
  assumes "server_hub_new kdf configs draws = Inr hub" and "bound"
    and "k < length (fst (run_loop (main_events sch) hub))"
    and "spawned_task (conn k) (conn_polls hub k sch) = None"
  shows "server_run kdf configs draws bound sch conn = None"
proof -
  have "None \<in> set (map (\<lambda>k. spawned_task (conn k) (conn_polls hub k sch))
      [0..<length (fst (run_loop (main_events sch) hub))])"
    using assms(3,4) by force
  then show ?thesis using assms(1,2) by (simp add: server_run_def Let_def drain_blocked)
qed

end
