(* ===== verification/Process.thy ===== *)
theory Process
  imports Logging ServerMain
begin

text \<open>
  \<^verbatim>\<open>src/main.rs\<close> and the dispatch of \<^verbatim>\<open>src/cli.rs\<close>: a process from its start to its exit code. The
  \<^verbatim>\<open>.env\<close> loader (dotenvy), the command line parser (clap) and the environment filter of the log are
  parameters.
\<close>

section \<open>The process\<close>

text \<open>What is kept of it: the soft and hard limits of core dumps, the environment, the global subscriber,
  and what \<^verbatim>\<open>main\<close> has written to standard error. \<^verbatim>\<open>setrlimit\<close> may fail, which is ignored; \<open>setrlimit_ok\<close> says
  whether it works.\<close>

record 'f process =
  pr_core_limit :: "nat \<times> nat"
  pr_env :: "string \<Rightarrow> str option"
  pr_tracing :: "'f option"
  pr_stderr :: "(log_event \<times> error) list"

datatype exit_code = ExitSuccess | ExitFailure | ExitUsage

definition disable_core_dumps :: "bool \<Rightarrow> 'f process \<Rightarrow> 'f process" where
  "disable_core_dumps setrlimit_ok p = (if setrlimit_ok then p\<lparr>pr_core_limit := (0, 0)\<rparr> else p)"

text \<open>The documented effect of \<^verbatim>\<open>dotenvy::dotenv()\<close>: a variable of the file is set unless it is in the
  environment already.\<close>

definition dotenv_keeps :: "((string \<Rightarrow> str option) \<Rightarrow> string \<Rightarrow> str option) \<Rightarrow> bool" where
  "dotenv_keeps dotenv \<longleftrightarrow> (\<forall>env k v. env k = Some v \<longrightarrow> dotenv env k = Some v)"

text \<open>
  \<^verbatim>\<open>cli::run\<close> with what it starts: \<open>server\<close> and \<open>client\<close> are the two mains, as functions of their
  arguments. \<open>None\<close>: the process goes on for ever.
\<close>

definition run_command ::
  "(socket_addr \<Rightarrow> room_config list \<Rightarrow> unit result option)
     \<Rightarrow> (socket_addr \<Rightarrow> str \<Rightarrow> str \<Rightarrow> bytes \<Rightarrow> unit result option)
     \<Rightarrow> (string \<Rightarrow> str option) \<Rightarrow> (str \<Rightarrow> socket_addr option) \<Rightarrow> str option \<Rightarrow> command
     \<Rightarrow> unit result option" where
  "run_command server client env parse_addr prompt cmd =
     (case cli_run env parse_addr prompt cmd of
        Inl e \<Rightarrow> Some (Inl e)
      | Inr (LaunchServer addr configs) \<Rightarrow> server addr configs
      | Inr (LaunchClient addr username room pw) \<Rightarrow> client addr username room pw)"

text \<open>\<open>args\<close> is the parsed command line, \<open>None\<close> when clap rejects it and exits with its own message. The
  final error is logged, with its value.\<close>

definition log_fatal :: "'f env_filter_ops \<Rightarrow> error \<Rightarrow> 'f process \<Rightarrow> 'f process" where
  "log_fatal ops e p =
     (if written ops (pr_tracing p) fatal then p\<lparr>pr_stderr := pr_stderr p @ [(fatal, e)]\<rparr> else p)"

definition main_rs ::
  "bool \<Rightarrow> ((string \<Rightarrow> str option) \<Rightarrow> string \<Rightarrow> str option) \<Rightarrow> 'f env_filter_ops
     \<Rightarrow> (socket_addr \<Rightarrow> room_config list \<Rightarrow> unit result option)
     \<Rightarrow> (socket_addr \<Rightarrow> str \<Rightarrow> str \<Rightarrow> bytes \<Rightarrow> unit result option)
     \<Rightarrow> (str \<Rightarrow> socket_addr option) \<Rightarrow> str option \<Rightarrow> command option \<Rightarrow> 'f process
     \<Rightarrow> exit_code option \<times> 'f process" where
  "main_rs setrlimit_ok dotenv ops server client parse_addr prompt args p =
     (let p = disable_core_dumps setrlimit_ok p;
          p = p\<lparr>pr_env := dotenv (pr_env p)\<rparr>;
          p = p\<lparr>pr_tracing := init_tracing ops (pr_env p) (pr_tracing p)\<rparr>
      in case args of
           None \<Rightarrow> (Some ExitUsage, p)
         | Some cmd \<Rightarrow>
             (case run_command server client (pr_env p) parse_addr prompt cmd of
                None \<Rightarrow> (None, p)
              | Some (Inr _) \<Rightarrow> (Some ExitSuccess, p)
              | Some (Inl e) \<Rightarrow> (Some ExitFailure, log_fatal ops e p)))"

section \<open>Exits\<close>

text \<open>An inline variable wins over the file.\<close>

lemma env_wins:
  assumes "dotenv_keeps dotenv" and "pr_env p k = Some v"
  shows "pr_env (snd (main_rs setrlimit_ok dotenv ops server client parse_addr prompt args p)) k = Some v"
  using assms
  by (auto simp: main_rs_def dotenv_keeps_def disable_core_dumps_def log_fatal_def Let_def
      split: option.split sum.split)

lemma core_dumps_off:
  "pr_core_limit (snd (main_rs True dotenv ops server client parse_addr prompt args p)) = (0, 0)"
  by (auto simp: main_rs_def disable_core_dumps_def log_fatal_def Let_def split: option.split sum.split)

text \<open>A successful exit: a checked configuration was started, and its main returned without an error.\<close>

lemma exit_success:
  assumes "fst (main_rs ok dotenv ops server client parse_addr prompt args p) = Some ExitSuccess"
  shows "\<exists>cmd. args = Some cmd \<and>
    ((\<exists>addr configs. cmd = Serve \<and> server addr configs = Some (Inr ()) \<and> configs \<noteq> [] \<and>
        (\<forall>rc \<in> set configs. config_ok rc) \<and> distinct (map rc_name configs)) \<or>
     (\<exists>addr name room pw. cmd = Connect \<and> client addr name room pw = Some (Inr ()) \<and>
        name \<noteq> [] \<and> validate_name room = Inr () \<and> CLI_MIN_PW_LEN \<le> length pw))"
proof -
  let ?env = "dotenv (pr_env (disable_core_dumps ok p))"
  from assms obtain cmd where cmd: "args = Some cmd"
    and run: "run_command server client ?env parse_addr prompt cmd = Some (Inr ())"
    by (auto simp: main_rs_def Let_def split: option.splits sum.splits)
  then obtain l where l: "cli_run ?env parse_addr prompt cmd = Inr l"
    by (cases "cli_run ?env parse_addr prompt cmd") (auto simp: run_command_def)
  show ?thesis
  proof (cases l)
    case (LaunchServer addr configs)
    moreover from l this have "cmd = Serve"
      by (cases cmd) (auto simp: cli_run_def and_then_Inr_iff)
    ultimately show ?thesis
      using cmd run l cli_run_server [OF l [unfolded LaunchServer]] by (auto simp: run_command_def)
  next
    case (LaunchClient addr name room pw)
    moreover from l this have "cmd = Connect"
      by (cases cmd) (auto simp: cli_run_def and_then_Inr_iff)
    ultimately show ?thesis
      using cmd run l cli_run_client [OF l [unfolded LaunchClient]] by (auto simp: run_command_def)
  qed
qed

text \<open>A failing exit: its error is the last line, unless the user's own directives filter it out. These
  may come from the \<^verbatim>\<open>.env\<close> file, which is read before.\<close>

lemma main_tracing:
  "pr_tracing (snd (main_rs ok dotenv ops server client parse_addr prompt args p)) =
     init_tracing ops (dotenv (pr_env p)) (pr_tracing p)"
  by (auto simp: main_rs_def disable_core_dumps_def log_fatal_def Let_def split: option.split sum.split)

lemma exit_failure:
  assumes "fst (main_rs ok dotenv ops server client parse_addr prompt args p) = Some ExitFailure"
    and "pr_tracing p = None"
  shows "\<exists>cmd e. args = Some cmd \<and>
    run_command server client (dotenv (pr_env p)) parse_addr prompt cmd = Some (Inl e) \<and>
    pr_stderr (snd (main_rs ok dotenv ops server client parse_addr prompt args p)) = pr_stderr p @
      (if ef_enabled ops (env_filter ops (dotenv (pr_env p))) ErrorLevel ''chat_rs'' then [(fatal, e)] else [])"
proof -
  have scrub: "field_scrub_enabled (le_fields fatal)"
    using log_sites_scrubbed by (simp add: LOG_SITES_def)
  let ?p = "disable_core_dumps ok p"
  have same: "pr_env ?p = pr_env p" "pr_tracing ?p = pr_tracing p" "pr_stderr ?p = pr_stderr p"
    by (simp_all add: disable_core_dumps_def)
  obtain cmd e where cmd: "args = Some cmd"
    "run_command server client (dotenv (pr_env p)) parse_addr prompt cmd = Some (Inl e)"
    using assms(1) same(1) by (auto simp: main_rs_def Let_def split: option.splits sum.splits)
  then show ?thesis
    using assms(2) same scrub
    by (simp add: main_rs_def Let_def log_fatal_def written_def init_tracing_def) (simp add: fatal_def)
qed

end
