(* ===== verification/SampleWorlds.thy ===== *)
theory SampleWorlds
  imports Samples SampleCodec NetworkTests Process
begin

text \<open>
  Concrete surroundings for the properties that join a client and a server: a handshake and a
  transport that satisfy the Noise hypotheses, the two programs' environments over pipes, a room
  with its key, and a terminal. Nothing else depends on them.
\<close>

section \<open>A handshake\<close>

text \<open>The first message is the psk and the prologue. A transport is the pair of its counters, and a sealed frame
  ends in its number.\<close>

definition toy_noise :: "(role \<times> bytes \<times> bytes \<times> nat, nat \<times> nat) noise_ops" where
  "toy_noise =
     \<lparr>nz_build = (\<lambda>role pattern p i psk.
        if length p \<le> PROLOGUE_MAX \<and> length psk = KEY_LEN then Some (role, p, psk, 0) else None),
      nz_write = (\<lambda>(role, p, psk, k) payload buf.
        if role = Initiator \<and> k = 0 then Some (psk @ p, (role, p, psk, 1))
        else if role = Responder \<and> k = 1 then Some ([1], (role, p, psk, 2)) else None),
      nz_read = (\<lambda>(role, p, psk, k) msg buf.
        if role = Responder \<and> k = 0 \<and> msg = psk @ p then Some ([], (role, p, psk, 1))
        else if role = Initiator \<and> k = 1 \<and> msg = [1] then Some ([], (role, p, psk, 2)) else None),
      nz_into_transport = (\<lambda>(role, p, psk, k). if k = 2 then Some (0, 0) else None),
      nz_seal = (\<lambda>(i, j) pt buf. (Some (pt @ [of_nat i]), (i + 1, j))),
      nz_open = (\<lambda>(i, j) ct buf.
        if ct \<noteq> [] \<and> last ct = of_nat j then (Some (butlast ct), (i, j + 1)) else (None, (i, j)))\<rparr>"

definition toy_step :: "nat \<times> nat \<Rightarrow> nat \<times> nat \<Rightarrow> bool" where
  "toy_step a b \<longleftrightarrow> fst a = snd b \<and> snd a = fst b"

lemma toy_agrees: "noise_agrees toy_noise"
  by (auto simp: noise_agrees_def toy_noise_def split: if_splits)

lemma toy_completes: "noise_completes toy_noise toy_step"
  by (simp add: noise_completes_def toy_noise_def toy_step_def PROLOGUE_MAX_def KEY_LEN_def NOISE_BUF_def)

lemma toy_transport: "transport_laws toy_noise toy_step"
  by (auto simp: transport_laws_def toy_noise_def toy_step_def AEAD_TAG_LEN_def)

section \<open>Client and server\<close>

definition toy_kdf :: kdf_ops where
  "toy_kdf =
     \<lparr>kdf_argon = (\<lambda>_ _ _ _ pw salt. Some (pw @ salt)),
      kdf_mac = (\<lambda>key msg. Some (take KEY_LEN (msg @ key @ replicate KEY_LEN 0)))\<rparr>"

definition toy_client :: "(role \<times> bytes \<times> bytes \<times> nat, nat \<times> nat, pipe) client_env" where
  "toy_client =
     \<lparr>ce_noise = toy_noise, ce_stream = pipe_ops, ce_to_vec = sample_client_vec, ce_from_bytes = dec_server,
      ce_kdf = toy_kdf, ce_aead = sample_aead\<rparr>"

definition toy_server ::
  "(role \<times> bytes \<times> bytes \<times> nat, nat \<times> nat, pipe, nat, sample_world) server_env" where
  "toy_server =
     \<lparr>se_noise = toy_noise, se_stream = pipe_ops, se_to_vec = sample_server_vec, se_from_bytes = dec_client,
      se_channel = (\<lambda>w. (0, w(0 := []))), se_try_send = sample_send,
      se_recv = (\<lambda>tx w. case w tx of [] \<Rightarrow> (None, w) | f # fs \<Rightarrow> (Some f, w(tx := fs)))\<rparr>"

lemma toy_joined: "joined toy_client toy_server toy_step"
  using toy_completes toy_transport sample_client_roundtrip sample_server_roundtrip
    sample_client_sizes sample_server_sizes
  by (simp add: joined_def toy_client_def toy_server_def)

lemma toy_recv: "recv_laws (se_recv toy_server) (\<lambda>w. w)"
  by (simp add: recv_laws_def toy_server_def)

definition toy_oracle :: "(nat \<times> nat, pipe, nat, sample_world) conn_oracle" where
  "toy_oracle =
     \<lparr>co_select = sample_wait, co_refusal_send = Some 0, co_fake_salt = Some (replicate 32 5), co_fake_psk = Some (replicate 32 6),
      co_hello_send = Some 0, co_handshake = sample_wait, co_hello = \<lparr>wt_takes = Some 1, wt_dropped = (([], []), 0, 0)\<rparr>,
      co_user_id = 7, co_now = 10,
      co_before_join = (\<lambda>x. x), co_before_history = (\<lambda>x. x)\<rparr>"

definition toy_salt :: bytes where "toy_salt = replicate 32 3"

definition toy_keys :: derived_keys where
  "toy_keys =
     \<lparr>dk_psk = take KEY_LEN (PSK_LABEL @ ([1, 2, 3] @ toy_salt) @ replicate KEY_LEN 0),
      dk_room_key = take KEY_LEN (ROOM_LABEL @ ([1, 2, 3] @ toy_salt) @ replicate KEY_LEN 0)\<rparr>"

definition toy_room :: "nat room_state" where
  "toy_room = room_state_new (lit ''main'') toy_salt (dk_psk toy_keys)"

definition toy_hub :: "nat server_hub" where
  "toy_hub =
     \<lparr>hub_rooms = [lit ''main'' \<mapsto> toy_room],
      hub_ratelimit = rate_limiter_new RATELIMIT_MAX RATELIMIT_WINDOW, hub_active_conns = 0\<rparr>"

lemma toy_derive: "derive_keys toy_kdf [1, 2, 3] toy_salt = Inr toy_keys"
  by (simp add: derive_keys_def blake2s_kdf_def toy_kdf_def toy_keys_def del: take_append)

lemma main_valid: "validate_name (lit ''main'') = Inr ()"
  by (simp add: validate_name_def str_len_def utf8_def utf8_char_def MAX_ROOM_ID_LEN_def
      all_name_bytes_def is_ascii_alphanumeric_def)

lemma toy_room_for: "room_for toy_kdf [1, 2, 3] (lit ''main'') toy_keys toy_room"
  using toy_derive main_valid
  by (simp add: room_for_def toy_room_def room_state_new_def toy_salt_def)
    (simp add: toy_keys_def KEY_LEN_def)

lemma toy_no_timeouts: "no_timeouts toy_oracle"
  by (simp add: no_timeouts_def in_time_def toy_oracle_def sample_wait_def HANDSHAKE_TIMEOUT_def from_secs_def)

lemma toy_room_inv: "room_inv now toy_room"
  by (simp add: toy_room_def room_inv_new)

lemma toy_join_ok: "join_ok toy_server toy_oracle (lit ''bob'') toy_room w"
  by (simp add: join_ok_def toy_server_def toy_oracle_def Let_def)
    (simp add: toy_room_def room_state_new_def message_store_new_def ms_snapshot_def history_counters_def
      connection_manager_new_def)

lemma toy_spares: "spares toy_oracle"
  by (simp add: spares_def toy_oracle_def)

lemma toy_hub_rooms: "hub_rooms toy_hub (lit ''main'') = Some toy_room"
  by (simp add: toy_hub_def)

text \<open>A hello that decodes carries a salt of 32 bytes.\<close>

lemma dec_server_salt: "dec_server b = Some (ServerHello salt v) \<Longrightarrow> length salt = 32"
  by (cases b) (auto simp: dec_server_def dec_le_def bind_eq_Some_conv split: if_splits list.splits)

section \<open>A room of two\<close>

text \<open>Bob, who sends, and Alice, whose outbox is the channel 1.\<close>

definition toy_pair :: "nat room_state" where
  "toy_pair = register 10 8 (lit ''alice'') 1 (register 10 7 (lit ''bob'') 0 toy_room)"

definition toy_clock :: handler_clock where
  "toy_clock = \<lparr>hc_touch = 11, hc_check = 12, hc_order = [7, 8]\<rparr>"

lemma toy_pair_senders: "cm_senders (rs_connections toy_pair) = [7 \<mapsto> 0, 8 \<mapsto> 1]"
  by (simp add: toy_pair_def store_simps) (simp add: toy_room_def room_state_new_def connection_manager_new_def)

lemma toy_pair_order: "iteration_order (cm_senders (rs_connections toy_pair)) (hc_order toy_clock)"
  by (auto simp: toy_pair_senders iteration_order_def toy_clock_def)

lemma toy_pair_channels: "distinct_channels (rs_connections toy_pair)"
  by (simp add: distinct_channels_def toy_pair_senders)

lemma toy_accepted:
  "length ct \<le> MAX_CIPHERTEXT_LEN \<Longrightarrow> message_accepted toy_clock toy_pair 7 (lit ''bob'') sample_ad ct"
  by (simp add: message_accepted_def sample_ad_def has_session_def session_counter_def msg_stamps_def
      toy_pair_def store_simps fresh_session_def MSG_RATE_MAX_def)

section \<open>A terminal\<close>

text \<open>The two modes.\<close>

definition sample_term :: "(bool \<times> bool) term_ops" where
  "sample_term =
     \<lparr>to_enable_raw = (\<lambda>(r, a). (True, (True, a))), to_enter_alternate = (\<lambda>(r, a). (True, (r, True))),
      to_new_terminal = (\<lambda>x. (True, x)), to_disable_raw = (\<lambda>(r, a). (True, (False, a))),
      to_leave_alternate = (\<lambda>(r, a). (True, (r, False))), to_show_cursor = (\<lambda>x. (True, x))\<rparr>"

lemma sample_term_laws: "term_laws sample_term fst snd"
  by (auto simp: term_laws_def sample_term_def)

lemma sample_term_restorable: "restorable sample_term"
  by (simp add: restorable_def sample_term_def split_def)

section \<open>A client from start to end\<close>

text \<open>A client that joins an empty room, types a letter and loses its terminal.\<close>

definition sample_client_env :: "(unit, unit, bytes list \<times> bytes list) client_env" where
  "sample_client_env =
     \<lparr>ce_noise = sample_noise, ce_stream = sample_stream, ce_to_vec = (\<lambda>f. Some [1]),
      ce_from_bytes = (\<lambda>b. if b = [11] then Some (ServerHello (replicate 32 3) PROTOCOL_VERSION)
        else if b = [12] then Some (Welcome 7 []) else None),
      ce_kdf = \<lparr>kdf_argon = (\<lambda>_ _ _ _ pw salt. Some (pw @ salt)), kdf_mac = (\<lambda>key msg. Some (key @ msg))\<rparr>,
      ce_aead = sample_aead\<rparr>"

definition sample_draw :: draw where
  "sample_draw = Drawn (\<lambda>_. 1) 20 (0, 21)"

definition sample_events :: "(draw \<times> client_event) list" where
  "sample_events =
     [(sample_draw, KeyPressed \<lparr>ke_press = True, ke_control = False, ke_code = KChar 120\<rparr> sample_inputs),
      (sample_draw, TerminalEnd)]"

definition sample_client_run ::
  "unit result option \<times> ui_state option \<times> (bytes list \<times> bytes list) \<times> bool \<times> bool" where
  "sample_client_run =
     client_run sample_client_env sample_term (\<lambda>x. x) (SocketV4 1 80) (lit ''bob'') (lit ''main'') [1, 2, 3]
       (\<lambda>_. 0) sample_events
       ([[11], [9], [12]], []) (False, False)"

lemma sample_connect:
  "\<exists>key. connect sample_client_env (lit ''bob'') (lit ''main'') [1, 2, 3] ([[11], [9], [12]], []) =
    (Inr (key, 7, [], ()), ([], [[1], [9], [1]]))"
  by (simp add: connect_def sample_client_env_def send_postcard_def send_bytes_def recv_postcard_def
      recv_bytes_def derive_keys_def blake2s_kdf_def handshake_initiator_def initiator_def
      send_encrypted_def recv_encrypted_def transport_seal_def transport_open_def sample_noise_def
      sample_stream_def)

lemma sample_client_runs:
  "\<exists>r st s x. sample_client_run = (Some r, Some st, s, x) \<and> ui_input st = lit ''x''"
proof -
  obtain key where c: "connect sample_client_env (lit ''bob'') (lit ''main'') [1, 2, 3] ([[11], [9], [12]], []) =
      (Inr (key, 7, [], ()), ([], [[1], [9], [1]]))"
    using sample_connect by blast
  have g: "guard_enter sample_term (False, False) = (Inr (), (True, True))"
    by (simp add: guard_enter_def sample_term_def)
  let ?st = "ui_state_new (lit ''bob'') 7 (SocketV4 1 80) (lit ''main'')"
  obtain st' where "event_loop sample_client_env key sample_events ?st ([], [[1], [9], [1]]) () =
      (Some (Inr ()), st', ([], [[1], [9], [1]]), ())" and "ui_input st' = lit ''x''"
    by (simp add: sample_events_def sample_draw_def handle_key_def Let_def) (simp add: ui_state_new_def)
  with c g show ?thesis by (simp add: sample_client_run_def client_run_def Let_def del: lit_simps)
qed

text \<open>The whole conversation of a client and a server, and a key press after a drawing.\<close>

lemma toy_session:
  "\<exists>c2s s2c s1 ts x.
     connect toy_client (lit ''bob'') (lit ''main'') [1, 2, 3] (s2c, []) = (Inr x, ([], c2s)) \<and>
     authenticate toy_server toy_oracle toy_hub (c2s, []) = (Inr (toy_room, lit ''bob'', ts), ([], s1))"
proof -
  have "room_for (ce_kdf toy_client) [1, 2, 3] (lit ''main'') toy_keys toy_room"
    using toy_room_for by (simp add: toy_client_def)
  from session_reached [OF toy_joined toy_no_timeouts toy_hub_rooms this sample_bob toy_join_ok toy_room_inv]
  show ?thesis by blast
qed

lemma toy_submit:
  "\<exists>ct s'. handle_key (ce_aead toy_client) sample_inputs key sample_enter (snd (render c h p sample_ui)) =
     (SendFrame (ClientMessage sample_ad ct), s') \<and> length ct \<le> MAX_CIPHERTEXT_LEN"
proof -
  let ?s = "(snd (render c h p sample_ui))\<lparr>ui_input := []\<rparr>"
  have "\<not> is_command (lit ''hi'')" "lit ''hi'' \<noteq> []" by (simp_all add: is_command_def)
  moreover have "ui_user_id ?s = 7" "ui_username ?s = lit ''bob''" "ui_next_counter ?s = 1"
    "ui_input (snd (render c h p sample_ui)) = lit ''hi  ''"
    by (simp_all add: ui_simps sample_ui_def ui_state_new_def)
  ultimately show ?thesis
    using submit_line_send [of "lit ''hi  ''" sample_aead sample_inputs key ?s]
    by (simp add: handle_key_def sample_enter_def sample_line sample_inputs_def seal_def sample_aead_def
        sample_ad_to_vec_def sample_ad_def toy_client_def del: lit_simps split: sum.split)
      (simp add: sample_lengths enc_str_def NONCE_LEN_def MAX_CIPHERTEXT_LEN_def utf8_def utf8_char_def)
qed

section \<open>A server and its tasks\<close>

definition toy_task :: "(role \<times> bytes \<times> bytes \<times> nat, nat \<times> nat, pipe, nat, sample_world) conn_task" where
  "toy_task =
     \<lparr>ct_env = toy_server, ct_oracle = toy_oracle, ct_hub = toy_hub, ct_socket = ([], []), ct_chan = (\<lambda>_. [])\<rparr>"

definition toy_before :: "(nat, sample_world) turn list" where
  "toy_before = [MainTurn (Accepted 1 (V4 1)), ConnTurn 0 (Poll True False None)]"

definition toy_afterwards :: "(nat, sample_world) turn list" where
  "toy_afterwards =
     [SweeperTurn (SweeperPoll (Some (300, [])) False), ConnTurn 0 (Poll True True None),
      SweeperTurn (SweeperPoll None False)]"

lemma one_spawned:
  "hub_ratelimit hub = rate_limiter_new RATELIMIT_MAX RATELIMIT_WINDOW \<Longrightarrow>
     fst (run_loop [Accepted 1 (V4 1)] hub) = [(1, V4 1)]"
  by (simp add: check_def rate_limiter_new_def RATELIMIT_MAX_def Let_def)

lemma toy_hub_new:
  "\<exists>hub :: nat server_hub. server_hub_new toy_kdf
     [\<lparr>rc_name = lit ''main'', rc_password = lit ''123456789012''\<rparr>] [Some toy_salt] = Inr hub"
  by (simp add: server_hub_new_def derive_keys_def blake2s_kdf_def toy_kdf_def)

end
