(* ===== verification/SampleHub.thy ===== *)
theory SampleHub
  imports HubMachine SampleWorlds
begin

text \<open>
  A server with two rooms for the witnesses: a user joins the second room, then the run of
  \<open>Samples\<close>, in which Bob joins and sends a message, takes place in the first.
\<close>

definition hub_kdf :: kdf_ops where
  "hub_kdf = \<lparr>kdf_argon = (\<lambda>_ _ _ _ pw salt. Some (pw @ salt)), kdf_mac = (\<lambda>key msg. Some [4])\<rparr>"

definition hub_configs :: "room_config list" where
  "hub_configs =
     [\<lparr>rc_name = lit ''main'', rc_password = lit ''correct horse''\<rparr>,
      \<lparr>rc_name = lit ''den'', rc_password = lit ''battery staple''\<rparr>]"

definition two_rooms :: "nat server_hub" where
  "two_rooms =
     \<lparr>hub_rooms =
        [lit ''main'' \<mapsto> room_state_new (lit ''main'') (replicate 32 3) [4],
         lit ''den'' \<mapsto> room_state_new (lit ''den'') (replicate 32 5) [4]],
      hub_ratelimit = rate_limiter_new RATELIMIT_MAX RATELIMIT_WINDOW, hub_active_conns = 0\<rparr>"

lemma two_rooms_new:
  "server_hub_new hub_kdf hub_configs [Some (replicate 32 3), Some (replicate 32 5)] = Inr two_rooms"
  by (simp add: server_hub_new_def derive_keys_def blake2s_kdf_def hub_kdf_def hub_configs_def
      two_rooms_def del: lit_simps)

abbreviation main_room :: room_slot where "main_room \<equiv> Configured (lit ''main'')"
abbreviation den :: room_slot where "den \<equiv> Configured (lit ''den'')"

lemma two_names: "lit ''main'' \<noteq> lit ''den''"
  by (simp add: lit_def)

lemma hub_join_step:
  assumes "hub_room h s = Some m" and "hm_users h u = None"
    and "hm_owner h tx = None" and "mc_names m u = None" and "tx \<notin> outboxes m" and "username_ok name"
  shows "hub_step ts h (put_room s m (do_join u tx name m) h)"
proof -
  have "machine_step ts m (do_join u tx name m)"
    unfolding do_join_def using assms(4,5,6) by (intro machine_step.join) (auto simp: outboxes_def)
  moreover have "outboxes (do_join u tx name m) \<subseteq> insert tx (outboxes m)"
    using ran_upd_subset(1) [of "cm_senders (rs_connections (mc_room m))" u tx]
    by (simp add: outboxes_def do_join_def store_simps)
  moreover have "dom (mc_names (do_join u tx name m)) \<subseteq> insert u (dom (mc_names m))"
    by (simp add: do_join_def)
  ultimately show ?thesis
    by (intro hub_step.in_room [OF assms(1)]) (use assms(2,3) in blast)+
qed

lemma hub_join:
  "hub_reachable ts h0 h \<Longrightarrow> hub_room h s = Some m \<Longrightarrow> hm_users h u = None \<Longrightarrow> hm_owner h tx = None \<Longrightarrow>
     mc_names m u = None \<Longrightarrow> tx \<notin> outboxes m \<Longrightarrow> username_ok name \<Longrightarrow>
     hub_reachable ts h0 (put_room s m (do_join u tx name m) h)"
  by (rule hub_reachable.step) (auto intro: hub_join_step)

definition den_joined :: "(nat, sample_world) machine" where
  "den_joined = do_join 9 1 (lit ''bob'') (machine_init (lit ''den'') (replicate 32 5) [4] (\<lambda>_. []))"

definition hub_joined :: "(nat, sample_world) hub_machine" where
  "hub_joined = put_room den (machine_init (lit ''den'') (replicate 32 5) [4] (\<lambda>_. [])) den_joined
     (hub_start two_rooms (\<lambda>_. []))"

lemma hub_start_two_rooms:
  "hub_room (hub_start two_rooms w) main_room = Some (machine_init (lit ''main'') (replicate 32 3) [4] w)"
  "hub_room (hub_start two_rooms w) den = Some (machine_init (lit ''den'') (replicate 32 5) [4] w)"
  using two_names
  by (simp_all add: hub_room_def hub_start_def two_rooms_def machine_of_new machine_init_def
      del: lit_simps)

lemma den_joined_simps:
  "mc_chan den_joined = (\<lambda>_. [])" "mc_now den_joined = 0" "dom (mc_names den_joined) = {9}"
  "cm_senders (rs_connections (mc_room den_joined)) = [9 \<mapsto> 1]" "outboxes den_joined = {1}"
  by (simp_all add: den_joined_def do_join_def machine_init_def outboxes_def store_simps
      room_state_new_def connection_manager_new_def)

lemma hub_joined_step: "hub_step sample_send (hub_start two_rooms (\<lambda>_. [])) hub_joined"
  unfolding hub_joined_def den_joined_def
  by (rule hub_join_step [OF hub_start_two_rooms(2)])
    (simp_all add: hub_start_def machine_init_def outboxes_def room_state_new_def
      connection_manager_new_def sample_bob del: lit_simps)

lemma hub_joined_reachable: "hub_reachable sample_send (hub_start two_rooms (\<lambda>_. [])) hub_joined"
  by (rule hub_reachable.step [OF hub_reachable.start hub_joined_step])

lemma hub_joined_rooms:
  "hub_room hub_joined main_room = Some sample_init" "hm_rooms hub_joined den = Some den_joined"
  "hm_users hub_joined 7 = None" "hm_owner hub_joined 0 = None"
proof -
  show "hub_room hub_joined main_room = Some sample_init"
    using two_names
    by (simp add: hub_joined_def hub_room_put hub_start_two_rooms den_joined_simps sample_init_def
        machine_init_def del: lit_simps)
  show "hm_rooms hub_joined den = Some den_joined" "hm_users hub_joined 7 = None"
    "hm_owner hub_joined 0 = None"
    by (simp_all add: hub_joined_def put_room_def claim_def den_joined_simps hub_start_def
        del: lit_simps)
qed

lemma two_rooms_run:
  "\<exists>h m. hub_reachable sample_send (hub_start two_rooms (\<lambda>_. [])) h \<and>
     hub_room h main_room = Some (sample_run 4) \<and> hub_room h den = Some m \<and>
     cm_senders (rs_connections (mc_room m)) = [9 \<mapsto> 1]"
proof -
  let ?m = "do_join 7 0 (lit ''bob'') sample_init"
  let ?h = "put_room main_room sample_init ?m hub_joined"
  have reach: "hub_reachable sample_send (hub_start two_rooms (\<lambda>_. [])) ?h"
    by (rule hub_join [OF hub_joined_reachable hub_joined_rooms(1)])
      (simp_all add: hub_joined_rooms sample_bob sample_init_def machine_init_def outboxes_def
        room_state_new_def connection_manager_new_def del: lit_simps)
  have run: "reachable sample_send ?m (sample_run 4)"
    by (rule sample_run_onward) (simp add: sample_joined_def reachable_welcomed reachable.start)
  have names: "mc_names (sample_run 4) = mc_names ?m"
    by (simp add: sample_run_4 sample_state_def do_join_def sample_init_def machine_init_def
        del: lit_simps)
  have room: "hub_room ?h main_room = Some ?m" by (simp add: hub_room_put)
  obtain h where h: "hub_reachable sample_send (hub_start two_rooms (\<lambda>_. [])) h"
    "hub_room h main_room = Some (sample_run 4)"
    "\<forall>s'. s' \<noteq> main_room \<longrightarrow> hm_rooms h s' = hm_rooms ?h s'"
    using hub_reachable_quiet [OF run reach room names] by blast
  have "hm_rooms h den = Some den_joined"
    using h(3) two_names hub_joined_rooms(2) by (simp add: put_room_def del: lit_simps)
  then have "hub_room h den = Some (den_joined\<lparr>mc_chan := hm_chan h, mc_now := hm_now h\<rparr>)"
    by (simp add: hub_room_def del: lit_simps)
  with h den_joined_simps(4) show ?thesis by fastforce
qed

end
