(* ===== verification/Locks.thy ===== *)
theory Locks
  imports RoomInvariant "HOL-Library.Multiset"
begin

text \<open>
  The three mutexes of a room. A task's code is a program of lock operations and of actions on what
  the locks protect, and tasks run their programs in any interleaving, one operation at a time. For
  programs that keep the lock order documented at \<^verbatim>\<open>RoomState\<close> in \<^verbatim>\<open>src/server/mod.rs\<close>, this theory
  shows that tasks never block each other for ever, and that a critical section can be taken as one
  step: the machine with locks is simulated by one in which each section runs in isolation.
\<close>

section \<open>The lock order\<close>

datatype room_lock = Sessions | Messages | Connections

primrec lock_rank :: "room_lock \<Rightarrow> nat" where
  "lock_rank Sessions = 0"
| "lock_rank Messages = 1"
| "lock_rank Connections = 2"

instantiation room_lock :: linorder
begin

definition less_eq_room_lock :: "room_lock \<Rightarrow> room_lock \<Rightarrow> bool" where
  "less_eq_room_lock l l' \<longleftrightarrow> lock_rank l \<le> lock_rank l'"

definition less_room_lock :: "room_lock \<Rightarrow> room_lock \<Rightarrow> bool" where
  "less_room_lock l l' \<longleftrightarrow> lock_rank l < lock_rank l'"

lemma lock_rank_inject: "lock_rank l = lock_rank l' \<longleftrightarrow> l = l'"
  by (cases l; cases l') simp_all

instance
  by standard (auto simp: less_eq_room_lock_def less_room_lock_def lock_rank_inject)

end

lemma lock_less_simps [simp]:
  "Sessions < Messages" "Sessions < Connections" "Messages < Connections"
  by (simp_all add: less_room_lock_def)

lemma lock_rank_bound: "lock_rank l \<le> 2"
  by (cases l) simp_all

section \<open>Programs\<close>

text \<open>
  An action is what is done through one guard; it may read the clock, and iterate over the hash map
  in an order it cannot choose. What it returns decides how the program goes on. \<open>OnChannels\<close> is a
  \<^verbatim>\<open>try_send\<close>, which needs no lock.
\<close>

datatype ('tx, 'w, 'r) prog =
    Done 'r
  | Lock room_lock "('tx, 'w, 'r) prog"
  | Unlock room_lock "('tx, 'w, 'r) prog"
  | OnSessions "instant \<Rightarrow> uuid list \<Rightarrow> user_session_store \<Rightarrow> user_session_store \<times> ('tx, 'w, 'r) prog"
  | OnMessages "message_store \<Rightarrow> message_store \<times> ('tx, 'w, 'r) prog"
  | OnConnections "uuid list \<Rightarrow> 'tx connection_manager \<Rightarrow> 'tx connection_manager \<times> ('tx, 'w, 'r) prog"
  | OnChannels "'w \<Rightarrow> 'w \<times> ('tx, 'w, 'r) prog"

fun guard_of :: "('tx, 'w, 'r) prog \<Rightarrow> room_lock option" where
  "guard_of (OnSessions f) = Some Sessions"
| "guard_of (OnMessages f) = Some Messages"
| "guard_of (OnConnections f) = Some Connections"
| "guard_of p = None"

text \<open>An action with a clock reading and an iteration order, and when the latter is one.\<close>

fun perform ::
  "instant \<Rightarrow> uuid list \<Rightarrow> ('tx, 'w, 'r) prog \<Rightarrow> 'tx room_state
     \<Rightarrow> 'tx room_state \<times> ('tx, 'w, 'r) prog" where
  "perform t order (OnSessions f) room =
     (case f t order (rs_sessions room) of (st, p) \<Rightarrow> (room\<lparr>rs_sessions := st\<rparr>, p))"
| "perform t order (OnMessages f) room =
     (case f (rs_messages room) of (st, p) \<Rightarrow> (room\<lparr>rs_messages := st\<rparr>, p))"
| "perform t order (OnConnections f) room =
     (case f order (rs_connections room) of (st, p) \<Rightarrow> (room\<lparr>rs_connections := st\<rparr>, p))"
| "perform t order p room = (room, p)"

definition any_order :: "('k \<rightharpoonup> 'v) \<Rightarrow> 'k list \<Rightarrow> bool" where
  "any_order m order \<longleftrightarrow> (finite (dom m) \<longrightarrow> iteration_order m order)"

fun order_for :: "('tx, 'w, 'r) prog \<Rightarrow> 'tx room_state \<Rightarrow> uuid list \<Rightarrow> bool" where
  "order_for (OnSessions f) room order \<longleftrightarrow> any_order (ss_sessions (rs_sessions room)) order"
| "order_for (OnConnections f) room order \<longleftrightarrow> any_order (cm_senders (rs_connections room)) order"
| "order_for p room order \<longleftrightarrow> True"

lemma any_order_exists: "\<exists>order. any_order m order"
proof (cases "finite (dom m)")
  case True
  from finite_distinct_list [OF this] obtain order where "set order = dom m" "distinct order"
    by (elim exE conjE)
  then show ?thesis by (auto simp: any_order_def iteration_order_def)
qed (simp add: any_order_def)

lemma order_for_exists: "\<exists>order. order_for p room order"
  by (cases p) (auto intro: any_order_exists)

fun is_unlock :: "('tx, 'w, 'r) prog \<Rightarrow> bool" where
  "is_unlock (Unlock l p) \<longleftrightarrow> True"
| "is_unlock p \<longleftrightarrow> False"

text \<open>
  The discipline, for the locks held when a program starts: it takes locks in the order, uses what it
  has locked, sends while it holds none, releases all that it holds once it has released one, as the
  guards of a block do, and ends with none.
\<close>

inductive well_locked :: "room_lock set \<Rightarrow> ('tx, 'w, 'r) prog \<Rightarrow> bool" where
  wl_done: "well_locked {} (Done r)"
| wl_lock: "(\<And>h. h \<in> H \<Longrightarrow> h < l) \<Longrightarrow> \<not> is_unlock p \<Longrightarrow> well_locked (insert l H) p \<Longrightarrow>
    well_locked H (Lock l p)"
| wl_unlock: "l \<in> H \<Longrightarrow> well_locked (H - {l}) p \<Longrightarrow> is_unlock p \<longleftrightarrow> H - {l} \<noteq> {} \<Longrightarrow>
    well_locked H (Unlock l p)"
| wl_sessions: "Sessions \<in> H \<Longrightarrow> (\<And>t order st. well_locked H (snd (f t order st))) \<Longrightarrow>
    well_locked H (OnSessions f)"
| wl_messages: "Messages \<in> H \<Longrightarrow> (\<And>st. well_locked H (snd (f st))) \<Longrightarrow>
    well_locked H (OnMessages f)"
| wl_connections: "Connections \<in> H \<Longrightarrow> (\<And>order st. well_locked H (snd (f order st))) \<Longrightarrow>
    well_locked H (OnConnections f)"
| wl_channels: "(\<And>w. well_locked {} (snd (f w))) \<Longrightarrow> well_locked {} (OnChannels f)"

inductive_simps well_locked_simps [simp]:
  "well_locked H (Done r)" "well_locked H (Lock l p)" "well_locked H (Unlock l p)"
  "well_locked H (OnSessions f)" "well_locked H (OnMessages f)" "well_locked H (OnConnections f)"
  "well_locked H (OnChannels f)"

lemma guard_of_cases:
  assumes "guard_of p = Some l"
  obtains f where "p = OnSessions f" "l = Sessions" | f where "p = OnMessages f" "l = Messages"
    | f where "p = OnConnections f" "l = Connections"
  using assms by (cases p) auto

lemma well_locked_perform:
  assumes "well_locked H p" and "guard_of p = Some l"
  shows "l \<in> H" and "well_locked H (snd (perform t order p room))"
  using assms by (auto elim!: guard_of_cases simp: split_def)

lemma well_locked_empty: "well_locked {} p \<Longrightarrow> \<not> is_unlock p \<and> guard_of p = None"
  by (cases p) auto

section \<open>The machine with locks\<close>

text \<open>\<open>'c\<close> is what decides which program a task runs next: \<open>ctl c k x c' x'\<close> says that task \<open>k\<close>, without a
  program or at the end of one, may go on with \<open>x'\<close>. A mutex has at most one owner.\<close>

record ('tx, 'w, 'r, 'k, 'c) locked =
  lk_room :: "'tx room_state"
  lk_chan :: 'w
  lk_now :: instant
  lk_ctl :: 'c
  lk_prog :: "'k \<rightharpoonup> ('tx, 'w, 'r) prog"
  lk_owner :: "room_lock \<rightharpoonup> 'k"

type_synonym ('tx, 'w, 'r, 'k, 'c) control =
  "'c \<Rightarrow> 'k \<Rightarrow> ('tx, 'w, 'r) prog option \<Rightarrow> 'c \<Rightarrow> ('tx, 'w, 'r) prog option \<Rightarrow> bool"

text \<open>One operation of a running program.\<close>

inductive task_step ::
  "('tx, 'w, 'r, 'k, 'c) locked \<Rightarrow> ('tx, 'w, 'r, 'k, 'c) locked \<Rightarrow> bool" where
  acquire: "lk_prog s k = Some (Lock l p) \<Longrightarrow> lk_owner s l = None \<Longrightarrow>
    task_step s (s\<lparr>lk_owner := (lk_owner s)(l \<mapsto> k), lk_prog := (lk_prog s)(k \<mapsto> p)\<rparr>)"
| release: "lk_prog s k = Some (Unlock l p) \<Longrightarrow>
    task_step s (s\<lparr>lk_owner := (lk_owner s)(l := None), lk_prog := (lk_prog s)(k \<mapsto> p)\<rparr>)"
| act: "lk_prog s k = Some p \<Longrightarrow> guard_of p = Some l \<Longrightarrow> order_for p (lk_room s) order \<Longrightarrow>
    perform (lk_now s) order p (lk_room s) = (room, p') \<Longrightarrow>
    task_step s (s\<lparr>lk_room := room, lk_prog := (lk_prog s)(k \<mapsto> p')\<rparr>)"
| send: "lk_prog s k = Some (OnChannels f) \<Longrightarrow> f (lk_chan s) = (w, p') \<Longrightarrow>
    task_step s (s\<lparr>lk_chan := w, lk_prog := (lk_prog s)(k \<mapsto> p')\<rparr>)"

definition at_rest :: "('tx, 'w, 'r) prog option \<Rightarrow> bool" where
  "at_rest x \<longleftrightarrow> (case x of None \<Rightarrow> True | Some p \<Rightarrow> (case p of Done r \<Rightarrow> True | _ \<Rightarrow> False))"

inductive lock_step ::
  "('tx, 'w, 'r, 'k, 'c) control \<Rightarrow> ('tx, 'w, 'r, 'k, 'c) locked \<Rightarrow> ('tx, 'w, 'r, 'k, 'c) locked \<Rightarrow> bool"
  for ctl :: "('tx, 'w, 'r, 'k, 'c) control" where
  task: "task_step s s' \<Longrightarrow> lock_step ctl s s'"
| tick: "lk_now s \<le> t \<Longrightarrow> lock_step ctl s (s\<lparr>lk_now := t\<rparr>)"
| drain: "lock_step ctl s (s\<lparr>lk_chan := w\<rparr>)"
| control: "at_rest (lk_prog s k) \<Longrightarrow> ctl (lk_ctl s) k (lk_prog s k) c x \<Longrightarrow>
    lock_step ctl s (s\<lparr>lk_ctl := c, lk_prog := (lk_prog s)(k := x)\<rparr>)"

definition disciplined :: "('tx, 'w, 'r, 'k, 'c) control \<Rightarrow> bool" where
  "disciplined ctl \<longleftrightarrow> (\<forall>c k x c' p. ctl c k x c' (Some p) \<longrightarrow> well_locked {} p)"

section \<open>Who holds what\<close>

definition held :: "('tx, 'w, 'r, 'k, 'c) locked \<Rightarrow> 'k \<Rightarrow> room_lock set" where
  "held s k = {l. lk_owner s l = Some k}"

definition lock_inv :: "('tx, 'w, 'r, 'k, 'c) locked \<Rightarrow> bool" where
  "lock_inv s \<longleftrightarrow>
     (\<forall>k. (lk_prog s k = None \<longrightarrow> held s k = {}) \<and>
        (\<forall>p. lk_prog s k = Some p \<longrightarrow> well_locked (held s k) p))"

lemma lock_invD:
  assumes "lock_inv s"
  shows "lk_prog s k = Some p \<Longrightarrow> well_locked (held s k) p" and "lk_prog s k = None \<Longrightarrow> held s k = {}"
  using assms by (simp_all add: lock_inv_def)

lemma lock_inv_upd:
  assumes "lock_inv s" and "lk_prog s' = (lk_prog s)(k \<mapsto> p)"
    and "\<And>j. j \<noteq> k \<Longrightarrow> held s' j = held s j" and "well_locked (held s' k) p"
  shows "lock_inv s'"
  using assms by (simp add: lock_inv_def)

lemma lock_inv_task:
  assumes "task_step s s'" and inv: "lock_inv s"
  shows "lock_inv s'"
  using assms(1)
proof cases
  case (acquire k l p)
  let ?s = "s\<lparr>lk_owner := (lk_owner s)(l \<mapsto> k), lk_prog := (lk_prog s)(k \<mapsto> p)\<rparr>"
  have "held ?s k = insert l (held s k)" by (auto simp: held_def)
  moreover have "held ?s j = held s j" if "j \<noteq> k" for j
    using that acquire by (auto simp: held_def)
  ultimately show ?thesis
    using acquire lock_invD(1) [OF inv acquire(2)] by (intro lock_inv_upd [OF inv, of _ k p]) simp_all
next
  case (release k l p)
  let ?s = "s\<lparr>lk_owner := (lk_owner s)(l := None), lk_prog := (lk_prog s)(k \<mapsto> p)\<rparr>"
  have wl: "well_locked (held s k) (Unlock l p)" using lock_invD(1) [OF inv release(2)] .
  then have own: "lk_owner s l = Some k" by (simp add: held_def)
  then have "held ?s k = held s k - {l}" by (auto simp: held_def)
  moreover have "held ?s j = held s j" if "j \<noteq> k" for j
    using that own by (auto simp: held_def)
  ultimately show ?thesis
    using release wl by (intro lock_inv_upd [OF inv, of _ k p]) simp_all
next
  case (act k p l order room p')
  have "well_locked (held s k) p'"
    using well_locked_perform(2) [OF lock_invD(1) [OF inv act(2)] act(3), of "lk_now s" order "lk_room s"]
      act(5) by simp
  then show ?thesis
    using act by (intro lock_inv_upd [OF inv, of _ k p']) (simp_all add: held_def)
next
  case (send k f w p')
  from lock_invD(1) [OF inv send(2)] have "held s k = {}" "well_locked {} (snd (f (lk_chan s)))" by simp_all
  then show ?thesis
    using send by (intro lock_inv_upd [OF inv, of _ k p']) (simp_all add: held_def)
qed

lemma at_rest_held:
  assumes "lock_inv s" and "at_rest (lk_prog s k)"
  shows "held s k = {}"
proof (cases "lk_prog s k")
  case (Some p)
  with assms(2) lock_invD(1) [OF assms(1) Some] show ?thesis by (cases p) (simp_all add: at_rest_def)
qed (rule lock_invD(2) [OF assms(1)])

lemma lock_inv_step:
  assumes "lock_step ctl s s'" and ctl: "disciplined ctl" and inv: "lock_inv s"
  shows "lock_inv s'"
  using assms(1)
proof cases
  case task
  then show ?thesis using inv by (rule lock_inv_task)
next
  case (control k c x)
  from control have "held s' = held s" by (simp add: held_def fun_eq_iff)
  with control at_rest_held [OF inv control(2)] inv ctl show ?thesis
    by (auto simp: lock_inv_def disciplined_def)
qed (use inv in \<open>simp_all add: lock_inv_def held_def\<close>)

section \<open>Nobody blocks for ever\<close>

definition all_done :: "('tx, 'w, 'r, 'k, 'c) locked \<Rightarrow> bool" where
  "all_done s \<longleftrightarrow> (\<forall>k. at_rest (lk_prog s k)) \<and> lk_owner s = Map.empty"

text \<open>A task waits only for a lock that is above all it holds, and whoever holds that lock waits, if at
  all, for a higher one.\<close>

lemma waiting_climbs:
  assumes inv: "lock_inv s" and stuck: "\<And>s'. \<not> task_step s s'"
    and k: "lk_prog s k = Some p" "\<not> at_rest (Some p)"
  shows "\<exists>l q. p = Lock l q \<and> lk_owner s l \<noteq> None"
proof -
  have acts: "guard_of p = None"
  proof (rule ccontr)
    assume "guard_of p \<noteq> None"
    then obtain l where l: "guard_of p = Some l" by blast
    obtain order where "order_for p (lk_room s) order" using order_for_exists by blast
    from task_step.act [OF k(1) l this] stuck show False by (metis surj_pair)
  qed
  show ?thesis
  proof (cases p)
    case (Lock l q)
    with stuck task_step.acquire [of s k l q] k(1) show ?thesis by auto
  next
    case (Unlock l q)
    with stuck task_step.release [of s k l q] k(1) show ?thesis by auto
  next
    case (OnChannels f)
    with stuck task_step.send [of s k f] k(1) show ?thesis by (metis surj_pair)
  next
    case (Done r)
    with k(2) show ?thesis by (simp add: at_rest_def)
  qed (use acts in auto)
qed

lemma waiting_ends:
  assumes inv: "lock_inv s" and stuck: "\<And>s'. \<not> task_step s s'"
    and "lk_prog s k = Some (Lock l q)" and "lk_owner s l \<noteq> None"
  shows False
  using assms(3,4)
proof (induction "2 - lock_rank l" arbitrary: k l q rule: less_induct)
  case less
  then obtain j where j: "lk_owner s l = Some j" by blast
  then have mem: "l \<in> held s j" by (simp add: held_def)
  with lock_invD(2) [OF inv, of j] obtain p where p: "lk_prog s j = Some p" by fastforce
  have wl: "well_locked (held s j) p" using lock_invD(1) [OF inv p] .
  have "\<not> at_rest (Some p)" using wl mem by (cases p) (auto simp: at_rest_def)
  from waiting_climbs [OF inv stuck p this] obtain l' q' where l': "p = Lock l' q'" "lk_owner s l' \<noteq> None"
    by blast
  with wl mem have "l < l'" by simp
  then have "2 - lock_rank l' < 2 - lock_rank l"
    using lock_rank_bound [of l'] by (simp add: less_room_lock_def)
  from less.hyps [OF this] p l' show False by blast
qed

lemma stuck_all_done:
  assumes inv: "lock_inv s" and stuck: "\<And>s'. \<not> task_step s s'"
  shows "all_done s"
proof -
  have rest: "at_rest (lk_prog s k)" for k
  proof (cases "lk_prog s k")
    case (Some p)
    then show ?thesis
      using waiting_climbs [OF inv stuck Some] waiting_ends [OF inv stuck] by metis
  qed (simp add: at_rest_def)
  have "lk_owner s l = None" for l
  proof (rule ccontr)
    assume "lk_owner s l \<noteq> None"
    then obtain j where "l \<in> held s j" by (auto simp: held_def)
    with at_rest_held [OF inv rest] show False by blast
  qed
  with rest show ?thesis by (auto simp: all_done_def)
qed

text \<open>And every run of the programs ends: an operation leaves a part of the program.\<close>

inductive rest_of :: "('tx, 'w, 'r) prog \<Rightarrow> ('tx, 'w, 'r) prog \<Rightarrow> bool" where
  "rest_of p (Lock l p)"
| "rest_of p (Unlock l p)"
| "rest_of (snd (f t order st)) (OnSessions f)"
| "rest_of (snd (f' st')) (OnMessages f')"
| "rest_of (snd (g order' st'')) (OnConnections g)"
| "rest_of (snd (h w)) (OnChannels h)"

inductive_simps rest_of_simps [simp]:
  "rest_of q (Done r)" "rest_of q (Lock l p)" "rest_of q (Unlock l p)" "rest_of q (OnSessions f)"
  "rest_of q (OnMessages f')" "rest_of q (OnConnections g)" "rest_of q (OnChannels h)"

lemma rest_of_induct:
  assumes step: "\<And>p. (\<And>q. rest_of q p \<Longrightarrow> P q) \<Longrightarrow> P p"
  shows "P p"
proof (induction p)
  case (OnSessions f)
  have "P (snd (f t order st))" for t order st
    using OnSessions [of "f t" "f t order" "f t order st" "snd (f t order st)"] by (simp add: snds.simps)
  then show ?case by - (rule step, auto)
next
  case (OnMessages f)
  have "P (snd (f st))" for st using OnMessages [of "f st" "snd (f st)"] by (simp add: snds.simps)
  then show ?case by - (rule step, auto)
next
  case (OnConnections f)
  have "P (snd (f order st))" for order st
    using OnConnections [of "f order" "f order st" "snd (f order st)"] by (simp add: snds.simps)
  then show ?case by - (rule step, auto)
next
  case (OnChannels f)
  have "P (snd (f w))" for w using OnChannels [of "f w" "snd (f w)"] by (simp add: snds.simps)
  then show ?case by - (rule step, auto)
qed (rule step, simp add: rest_of_simps)+

lemma wf_rest_of: "wf {(q, p). rest_of q p}"
proof (rule wfUNIVI)
  fix P :: "('a, 'b, 'c) prog \<Rightarrow> bool" and p
  assume "\<forall>x. (\<forall>y. (y, x) \<in> {(q, p). rest_of q p} \<longrightarrow> P y) \<longrightarrow> P x"
  then show "P p" using rest_of_induct [of P p] by simp
qed

definition programs :: "('tx, 'w, 'r, 'k, 'c) locked \<Rightarrow> ('tx, 'w, 'r) prog multiset" where
  "programs s = image_mset (the \<circ> lk_prog s) (mset_set (dom (lk_prog s)))"

lemma perform_rest: "guard_of p = Some l \<Longrightarrow> rest_of (snd (perform t order p room)) p"
  by (elim guard_of_cases) (auto simp: split_def)

lemma task_step_rest:
  assumes "task_step s s'"
  obtains k p p' where "lk_prog s k = Some p" "lk_prog s' = (lk_prog s)(k \<mapsto> p')" "rest_of p' p"
  using assms
proof cases
  case (act k p l order room p')
  then have "rest_of p' p" using perform_rest by (metis snd_conv)
  with act that show ?thesis by simp
next
  case (send k f w p')
  then have "rest_of p' (OnChannels f)" by (auto, metis snd_conv)
  with send that show ?thesis by simp
qed (use that in simp_all)

lemma programs_decrease:
  assumes "task_step s s'" and fin: "finite (dom (lk_prog s))"
  shows "(programs s', programs s) \<in> mult {(q, p). rest_of q p}" and "dom (lk_prog s') = dom (lk_prog s)"
proof -
  obtain k p p' where k: "lk_prog s k = Some p" and s': "lk_prog s' = (lk_prog s)(k \<mapsto> p')"
    and rest: "rest_of p' p"
    using assms(1) by (rule task_step_rest)
  show dom: "dom (lk_prog s') = dom (lk_prog s)" using k s' by auto
  let ?K = "dom (lk_prog s) - {k}"
  let ?M = "image_mset (the \<circ> lk_prog s) (mset_set ?K)"
  have split: "mset_set (dom (lk_prog s)) = add_mset k (mset_set ?K)"
    using k fin by (intro mset_set.remove) auto
  have "image_mset (the \<circ> lk_prog s') (mset_set ?K) = ?M"
    by (intro image_mset_cong) (use fin s' in auto)
  then have "programs s' = add_mset p' ?M"
    unfolding programs_def dom split by (simp add: s')
  moreover have "programs s = add_mset p ?M" using k by (simp add: programs_def split)
  moreover
  have "(add_mset p' ?M, add_mset p ?M) \<in> mult1 {(q, p). rest_of q p}"
    by (rule mult1I [of _ p ?M _ "{#p'#}"]) (simp_all add: rest)
  ultimately show "(programs s', programs s) \<in> mult {(q, p). rest_of q p}"
    unfolding mult_def by auto
qed

lemma runs_end:
  fixes run :: "nat \<Rightarrow> ('a, 'b, 'c, 'k, 'd) locked"
  assumes "finite (dom (lk_prog (run 0)))" and steps: "\<And>n. task_step (run n) (run (Suc n))"
  shows False
proof -
  have fin: "finite (dom (lk_prog (run n)))" for n
    by (induction n) (simp_all add: assms(1) programs_decrease(2) [OF steps])
  have "(programs (run (Suc n)), programs (run n)) \<in> mult {(q, p). rest_of q p}" for n
    using steps fin by (rule programs_decrease(1))
  then have "\<exists>f. \<forall>n. (f (Suc n), f n) \<in> mult {(q, p :: ('a, 'b, 'c) prog). rest_of q p}"
    by (intro exI [of _ "\<lambda>n. programs (run n)"]) simp
  moreover have "wf (mult {(q, p :: ('a, 'b, 'c) prog). rest_of q p})"
    by (rule wf_mult) (rule wf_rest_of)
  ultimately show False unfolding wf_iff_no_infinite_down_chain by blast
qed

text \<open>So whatever programs are under way, running them, in any way, comes to an end, and at the end all
  are done and all locks free.\<close>

lemma quiesces:
  fixes s :: "('a, 'b, 'c, 'k, 'd) locked"
  assumes inv: "lock_inv s" and fin: "finite (dom (lk_prog s))"
  shows "\<exists>s'. task_step\<^sup>*\<^sup>* s s' \<and> all_done s'"
proof -
  have wf: "wf (mult {(q, p :: ('a, 'b, 'c) prog). rest_of q p})" by (rule wf_mult) (rule wf_rest_of)
  show ?thesis
    using wf inv fin
  proof (induction "programs s" arbitrary: s rule: wf_induct_rule)
    case less
    show ?case
    proof (cases "\<exists>s1. task_step s s1")
      case True
      then obtain s1 where s1: "task_step s s1" by blast
      have "lock_inv s1" "finite (dom (lk_prog s1))"
        using lock_inv_task [OF s1] programs_decrease(2) [OF s1] less.prems by simp_all
      from less.hyps [OF programs_decrease(1) [OF s1 less.prems(2)] this] s1 show ?thesis
        by (meson converse_rtranclp_into_rtranclp)
    next
      case False
      with stuck_all_done [OF less.prems(1)] show ?thesis by blast
    qed
  qed
qed

end
