(* ===== verification/Sections.thy ===== *)
theory Sections
  imports Locks
begin

text \<open>
  Critical sections as single steps. In the atomic machine a task runs from a lock operation to the
  point where all its locks are released again without interruption; the clock may be read on the
  way, and the section takes effect with its last action. The machine with locks is simulated by the
  atomic one: what other tasks can see of a section under way is nothing.
\<close>

section \<open>Parts of a room\<close>

primrec same_part :: "room_lock \<Rightarrow> 'tx room_state \<Rightarrow> 'tx room_state \<Rightarrow> bool" where
  "same_part Sessions r r' \<longleftrightarrow> rs_sessions r = rs_sessions r'"
| "same_part Messages r r' \<longleftrightarrow> rs_messages r = rs_messages r'"
| "same_part Connections r r' \<longleftrightarrow> rs_connections r = rs_connections r'"

definition same_ids :: "'tx room_state \<Rightarrow> 'tx room_state \<Rightarrow> bool" where
  "same_ids r r' \<longleftrightarrow>
     rs_room_id r = rs_room_id r' \<and> rs_room_salt r = rs_room_salt r' \<and> rs_psk r = rs_psk r'"

lemma same_part_refl [simp]: "same_part l r r" and same_ids_refl [simp]: "same_ids r r"
  by (cases l) (simp_all add: same_ids_def)

lemma same_part_sym: "same_part l r r' \<Longrightarrow> same_part l r' r"
  by (cases l) simp_all

lemma same_part_trans: "same_part l r r' \<Longrightarrow> same_part l r' r'' \<Longrightarrow> same_part l r r''"
  by (cases l) simp_all

lemma same_ids_trans: "same_ids r r' \<Longrightarrow> same_ids r' r'' \<Longrightarrow> same_ids r r''"
  and same_ids_sym: "same_ids r r' \<Longrightarrow> same_ids r' r"
  by (simp_all add: same_ids_def)

lemma room_eqI:
  assumes "\<And>l. same_part l r r'" and "same_ids r r'"
  shows "r = (r' :: 'tx room_state)"
  using assms(1) [of Sessions] assms(1) [of Messages] assms(1) [of Connections] assms(2)
  by (cases r; cases r') (simp add: same_ids_def)

text \<open>The room \<open>c\<close> with the parts in \<open>H\<close> taken from \<open>r\<close>.\<close>

definition overlay :: "room_lock set \<Rightarrow> 'tx room_state \<Rightarrow> 'tx room_state \<Rightarrow> 'tx room_state" where
  "overlay H r c =
     c\<lparr>rs_sessions := if Sessions \<in> H then rs_sessions r else rs_sessions c,
       rs_messages := if Messages \<in> H then rs_messages r else rs_messages c,
       rs_connections := if Connections \<in> H then rs_connections r else rs_connections c\<rparr>"

lemma overlay_part: "same_part l (overlay H r c) (if l \<in> H then r else c)"
  by (cases l) (simp_all add: overlay_def)

lemma overlay_in: "l \<in> H \<Longrightarrow> same_part l (overlay H r c) r"
  and overlay_out: "l \<notin> H \<Longrightarrow> same_part l (overlay H r c) c"
  using overlay_part [of l H r c] by simp_all

lemma overlay_ids [simp]: "same_ids (overlay H r c) c"
  by (simp add: overlay_def same_ids_def)

text \<open>An action changes the part that its lock protects, by means of that part alone.\<close>

lemma perform_part:
  assumes "guard_of p = Some l" and "perform t order p r = (r', p')"
  shows "l' \<noteq> l \<Longrightarrow> same_part l' r' r" and "same_ids r' r"
    and "same_part l r s \<Longrightarrow> perform t order p s = (overlay {l} r' s, p')"
    and "same_part l r s \<Longrightarrow> order_for p r order \<Longrightarrow> order_for p s order"
  using assms
  by (auto elim!: guard_of_cases simp: same_ids_def overlay_def split_def Let_def;
      cases l'; auto simp: prod_eq_iff)+

section \<open>The atomic machine\<close>

fun strip :: "('tx, 'w, 'r) prog \<Rightarrow> ('tx, 'w, 'r) prog" where
  "strip (Unlock l p) = strip p"
| "strip p = p"

text \<open>\<open>growing t c p0 H p r\<close>: run alone in the room \<open>c\<close>, with clock readings up to \<open>t\<close>, the section \<open>p0\<close> has
  come to \<open>p\<close> and \<open>r\<close>, and has taken the locks \<open>H\<close>, and released none.\<close>

inductive growing ::
  "instant \<Rightarrow> 'tx room_state \<Rightarrow> ('tx, 'w, 'r) prog \<Rightarrow> room_lock set \<Rightarrow> ('tx, 'w, 'r) prog
     \<Rightarrow> 'tx room_state \<Rightarrow> bool"
  for T :: instant and c :: "'tx room_state" and p0 :: "('tx, 'w, 'r) prog" where
  enter: "p0 = Lock l p \<Longrightarrow> growing T c p0 {l} p c"
| lock: "growing T c p0 H (Lock l p) r \<Longrightarrow> l \<notin> H \<Longrightarrow> growing T c p0 (insert l H) p r"
| act: "growing T c p0 H p r \<Longrightarrow> guard_of p = Some l \<Longrightarrow> l \<in> H \<Longrightarrow> t \<le> T \<Longrightarrow> order_for p r order \<Longrightarrow>
    perform t order p r = (r', p') \<Longrightarrow> \<not> is_unlock p' \<Longrightarrow> growing T c p0 H p' r'"

inductive atomic_step ::
  "('tx, 'w, 'r, 'k, 'c) control \<Rightarrow> ('tx, 'w, 'r, 'k, 'c) locked \<Rightarrow> ('tx, 'w, 'r, 'k, 'c) locked \<Rightarrow> bool"
  for ctl :: "('tx, 'w, 'r, 'k, 'c) control" where
  critical: "lk_prog s k = Some p0 \<Longrightarrow> growing (lk_now s) (lk_room s) p0 H p r \<Longrightarrow>
    guard_of p = Some l \<Longrightarrow> l \<in> H \<Longrightarrow> order_for p r order \<Longrightarrow>
    perform (lk_now s) order p r = (r', p') \<Longrightarrow> is_unlock p' \<Longrightarrow>
    atomic_step ctl s (s\<lparr>lk_room := r', lk_prog := (lk_prog s)(k \<mapsto> strip p')\<rparr>)"
| send: "lk_prog s k = Some (OnChannels f) \<Longrightarrow> f (lk_chan s) = (w, p') \<Longrightarrow>
    atomic_step ctl s (s\<lparr>lk_chan := w, lk_prog := (lk_prog s)(k \<mapsto> p')\<rparr>)"
| tick: "lk_now s \<le> t \<Longrightarrow> atomic_step ctl s (s\<lparr>lk_now := t\<rparr>)"
| drain: "atomic_step ctl s (s\<lparr>lk_chan := w\<rparr>)"
| control: "at_rest (lk_prog s k) \<Longrightarrow> ctl (lk_ctl s) k (lk_prog s k) c x \<Longrightarrow>
    atomic_step ctl s (s\<lparr>lk_ctl := c, lk_prog := (lk_prog s)(k := x)\<rparr>)"

lemma growing_mono: "growing T c p0 H p r \<Longrightarrow> T \<le> T' \<Longrightarrow> growing T' c p0 H p r"
  by (induction rule: growing.induct) (auto intro: growing.intros order_trans)

text \<open>Only the locked parts matter.\<close>

lemma growing_elsewhere:
  assumes "growing T c p0 H p r"
  shows "l \<notin> H \<Longrightarrow> same_part l r c" and "same_ids r c"
  using assms
proof (induction arbitrary: l rule: growing.induct)
  case (act H p r l' t order r' p')
  {
    case 1
    with act(3) have "l \<noteq> l'" by blast
    with perform_part(1) [OF act(2,6)] act.IH(1) 1 show ?case by (blast intro: same_part_trans)
  next
    case 2
    from perform_part(2) [OF act(2,6)] act.IH(2) show ?case by (blast intro: same_ids_trans)
  }
qed auto

lemma growing_frame:
  assumes "growing T c p0 H p r" and "\<And>l. l \<in> H \<Longrightarrow> same_part l c c'"
  shows "growing T c' p0 H p (overlay H r c')"
  using assms
proof (induction rule: growing.induct)
  case (enter l p)
  then have "overlay {l} c c' = c'"
    by (intro room_eqI overlay_ids) (metis overlay_in overlay_out same_part_trans singletonD)
  with growing.enter [OF enter(1)] show ?case by simp
next
  case (lock H l p r)
  have "overlay (insert l H) r c' = overlay H r c'"
  proof (rule room_eqI)
    fix l'
    have "same_part l r c'"
      using growing_elsewhere(1) [OF lock(1,2)] lock.prems by (blast intro: same_part_trans)
    then show "same_part l' (overlay (insert l H) r c') (overlay H r c')"
      using lock(2) by (cases l; cases l') (auto simp: overlay_def)
  qed (simp add: overlay_def same_ids_def)
  with growing.lock [OF lock.IH lock(2)] lock.prems show ?case by simp
next
  case (act H p r l t order r' p')
  note part = perform_part [OF act(2,6)]
  let ?s = "overlay H r c'"
  have same: "same_part l r ?s" using overlay_in [OF act(3)] by (rule same_part_sym)
  have "overlay {l} r' ?s = overlay H r' c'"
  proof (rule room_eqI)
    fix l'
    show "same_part l' (overlay {l} r' ?s) (overlay H r' c')"
      using part(1) [of l'] act(3)
      by (cases "l' = l"; cases "l' \<in> H")
        (metis overlay_in overlay_out same_part_sym same_part_trans singletonI singletonD)+
  qed (simp add: overlay_def same_ids_def)
  with growing.act [OF act.IH act(2-4) part(4) [OF same act(5)] part(3) [OF same] act(7)] act.prems
  show ?case by simp
qed

section \<open>The simulation\<close>

definition under_way ::
  "('tx, 'w, 'r, 'k, 'c) locked \<Rightarrow> ('tx, 'w, 'r, 'k, 'c) locked \<Rightarrow> 'k \<Rightarrow> ('tx, 'w, 'r) prog \<Rightarrow> bool" where
  "under_way s a k p \<longleftrightarrow>
     (\<exists>p0 r. lk_prog a k = Some p0 \<and> growing (lk_now s) (lk_room a) p0 (held s k) p r \<and>
        (\<forall>l \<in> held s k. same_part l r (lk_room s)))"

definition task_matches ::
  "('tx, 'w, 'r, 'k, 'c) locked \<Rightarrow> ('tx, 'w, 'r, 'k, 'c) locked \<Rightarrow> 'k \<Rightarrow> bool" where
  "task_matches s a k \<longleftrightarrow>
     (case lk_prog s k of
        None \<Rightarrow> lk_prog a k = None
      | Some p \<Rightarrow>
          if held s k = {} then lk_prog a k = Some p
          else if is_unlock p then lk_prog a k = Some (strip p)
          else under_way s a k p)"

text \<open>A lock whose part both machines agree on: it is free, or its owner is only releasing.\<close>

definition settled :: "('tx, 'w, 'r, 'k, 'c) locked \<Rightarrow> room_lock \<Rightarrow> bool" where
  "settled s l \<longleftrightarrow>
     (\<forall>k. lk_owner s l = Some k \<longrightarrow> (\<exists>p. lk_prog s k = Some p \<and> is_unlock p))"

definition simulates ::
  "('tx, 'w, 'r, 'k, 'c) locked \<Rightarrow> ('tx, 'w, 'r, 'k, 'c) locked \<Rightarrow> bool" where
  "simulates s a \<longleftrightarrow>
     lock_inv s \<and> lk_now a = lk_now s \<and> lk_chan a = lk_chan s \<and> lk_ctl a = lk_ctl s \<and>
     same_ids (lk_room s) (lk_room a) \<and>
     (\<forall>l. settled s l \<longrightarrow> same_part l (lk_room s) (lk_room a)) \<and>
     (\<forall>k. task_matches s a k)"

lemma simulatesD:
  assumes "simulates s a"
  shows "lock_inv s" "lk_now a = lk_now s" "lk_chan a = lk_chan s" "lk_ctl a = lk_ctl s"
    "same_ids (lk_room s) (lk_room a)" "settled s l \<Longrightarrow> same_part l (lk_room s) (lk_room a)"
    "task_matches s a k"
  using assms by (simp_all add: simulates_def)

lemma well_locked_held: "well_locked H p \<Longrightarrow> guard_of p = Some l \<Longrightarrow> l \<in> H \<and> \<not> is_unlock p"
  by (auto elim!: guard_of_cases)

lemma held_disjoint: "l \<in> held s k \<Longrightarrow> l \<in> held s j \<Longrightarrow> j = k"
  by (simp add: held_def)

lemma task_matches_still:
  assumes "task_matches s a j" and "lk_prog s' j = lk_prog s j" and "held s' j = held s j"
    and "lk_now s' = lk_now s" and "\<And>l. l \<in> held s j \<Longrightarrow> same_part l (lk_room s) (lk_room s')"
  shows "task_matches s' a j"
proof (cases "lk_prog s j")
  case (Some p)
  have "under_way s' a j p" if "under_way s a j p"
    using that assms(3-5) unfolding under_way_def by (metis same_part_trans)
  with assms Some show ?thesis by (auto simp: task_matches_def)
qed (use assms in \<open>simp add: task_matches_def\<close>)

text \<open>Acquiring and releasing are invisible.\<close>

lemma simulates_acquire:
  assumes sim: "simulates s a" and k: "lk_prog s k = Some (Lock l p)" and free: "lk_owner s l = None"
  shows "simulates (s\<lparr>lk_owner := (lk_owner s)(l \<mapsto> k), lk_prog := (lk_prog s)(k \<mapsto> p)\<rparr>) a"
    (is "simulates ?s a")
proof -
  note inv = simulatesD(1) [OF sim]
  have wl: "\<not> is_unlock p" using lock_invD(1) [OF inv k] by simp
  have heldk: "held ?s k = insert l (held s k)" by (auto simp: held_def)
  have heldj: "held ?s j = held s j" if "j \<noteq> k" for j using that free by (auto simp: held_def)
  have fresh: "l \<notin> held s k" using free by (simp add: held_def)
  have same: "same_part l (lk_room s) (lk_room a)"
    by (rule simulatesD(6) [OF sim]) (simp add: settled_def free)
  have "under_way ?s a k p"
  proof (cases "held s k = {}")
    case True
    with simulatesD(7) [OF sim, of k] k have "lk_prog a k = Some (Lock l p)"
      by (simp add: task_matches_def)
    with True same show ?thesis
      by (auto simp: under_way_def heldk intro!: exI [of _ "lk_room a"] growing.enter same_part_sym)
  next
    case False
    with simulatesD(7) [OF sim, of k] k have "under_way s a k (Lock l p)"
      by (simp add: task_matches_def)
    then obtain p0 r where r: "lk_prog a k = Some p0"
      "growing (lk_now s) (lk_room a) p0 (held s k) (Lock l p) r"
      "\<forall>l' \<in> held s k. same_part l' r (lk_room s)"
      by (auto simp: under_way_def)
    have "same_part l r (lk_room s)"
      using growing_elsewhere(1) [OF r(2) fresh] same by (metis same_part_sym same_part_trans)
    with r growing.lock [OF r(2) fresh] show ?thesis by (auto simp: under_way_def heldk)
  qed
  then have "task_matches ?s a k" using wl by (simp add: task_matches_def heldk)
  moreover have "task_matches ?s a j" if "j \<noteq> k" for j
    by (rule task_matches_still [OF simulatesD(7) [OF sim]]) (use that heldj in simp_all)
  moreover have "settled s l'" if "settled ?s l'" for l'
    using that wl free k by (fastforce simp: settled_def split: if_splits)
  moreover have "lock_inv ?s" by (rule lock_inv_task [OF _ inv]) (rule task_step.acquire [OF k free])
  ultimately show ?thesis using sim by (simp add: simulates_def) metis
qed

lemma simulates_release:
  assumes sim: "simulates s a" and k: "lk_prog s k = Some (Unlock l p)"
  shows "simulates (s\<lparr>lk_owner := (lk_owner s)(l := None), lk_prog := (lk_prog s)(k \<mapsto> p)\<rparr>) a"
    (is "simulates ?s a")
proof -
  note inv = simulatesD(1) [OF sim]
  have wl: "l \<in> held s k" "well_locked (held s k - {l}) p" "is_unlock p \<longleftrightarrow> held s k - {l} \<noteq> {}"
    using lock_invD(1) [OF inv k] by simp_all
  have heldk: "held ?s k = held s k - {l}" using wl(1) by (auto simp: held_def)
  have heldj: "held ?s j = held s j" if "j \<noteq> k" for j using that wl(1) by (auto simp: held_def)
  have ne: "held s k \<noteq> {}" using wl(1) by blast
  have prog: "lk_prog a k = Some (strip p)"
    using simulatesD(7) [OF sim, of k] k ne by (simp add: task_matches_def)
  have "task_matches ?s a k"
  proof (cases "held s k - {l} = {}")
    case True
    with wl(3) have "strip p = p" by (cases p) simp_all
    with prog True show ?thesis by (simp add: task_matches_def heldk)
  next
    case False
    with wl(3) prog show ?thesis by (simp add: task_matches_def heldk)
  qed
  moreover have "task_matches ?s a j" if "j \<noteq> k" for j
    by (rule task_matches_still [OF simulatesD(7) [OF sim]]) (use that heldj in simp_all)
  moreover have "settled s l'" if "settled ?s l'" for l'
    using that wl(1) k by (fastforce simp: settled_def held_def split: if_splits)
  moreover have "lock_inv ?s" by (rule lock_inv_task [OF _ inv]) (rule task_step.release [OF k])
  ultimately show ?thesis using sim by (simp add: simulates_def) metis
qed

text \<open>An action is invisible, too, or it is the last one of its section, which then takes effect.\<close>

lemma held_by: "lock_inv s \<Longrightarrow> lk_prog s k = Some p \<Longrightarrow> guard_of p = Some l \<Longrightarrow>
    l \<in> held s k \<and> \<not> is_unlock p"
  by (rule well_locked_held [OF lock_invD(1)])

lemma acting:
  assumes sim: "simulates s a" and k: "lk_prog s k = Some p" "guard_of p = Some l"
    and order: "order_for p (lk_room s) order"
    and perform: "perform (lk_now s) order p (lk_room s) = (room, p')"
  obtains p0 r where "lk_prog a k = Some p0" "growing (lk_now s) (lk_room a) p0 (held s k) p r"
    "order_for p r order" "perform (lk_now s) order p r = (overlay {l} room r, p')"
    "\<And>l'. l' \<in> held s k \<Longrightarrow> same_part l' (overlay {l} room r) room"
proof -
  note inv = simulatesD(1) [OF sim]
  have own: "l \<in> held s k" "\<not> is_unlock p" using held_by [OF inv k] by simp_all
  then have "held s k \<noteq> {}" by blast
  with simulatesD(7) [OF sim, of k] k(1) own(2) have "under_way s a k p"
    by (simp add: task_matches_def)
  then obtain p0 r where p0: "lk_prog a k = Some p0"
    "growing (lk_now s) (lk_room a) p0 (held s k) p r"
    and r: "\<And>l. l \<in> held s k \<Longrightarrow> same_part l r (lk_room s)"
    by (auto simp: under_way_def)
  note part = perform_part [OF k(2) perform]
  note there = part(4,3) [OF same_part_sym [OF r [OF own(1)]]]
  have "same_part l' (overlay {l} room r) room" if "l' \<in> held s k" for l'
    using r [OF that] part(1) [of l'] by (cases "l' = l")
      (metis overlay_in overlay_out same_part_sym same_part_trans singletonI singletonD)+
  with that [OF p0 there(1) [OF order] there(2)] show thesis by blast
qed

lemma acting_others:
  assumes sim: "simulates s a" and k: "lk_prog s k = Some p" "guard_of p = Some l" and j: "j \<noteq> k"
    and perform: "perform (lk_now s) order p (lk_room s) = (room, p')"
  shows "task_matches (s\<lparr>lk_room := room, lk_prog := (lk_prog s)(k \<mapsto> p')\<rparr>) a j"
proof (rule task_matches_still [OF simulatesD(7) [OF sim]])
  fix l' assume "l' \<in> held s j"
  moreover have "l \<in> held s k" using held_by [OF simulatesD(1) [OF sim] k] by blast
  ultimately have "l' \<noteq> l" using j by (auto simp: held_def)
  with perform_part(1) [OF k(2) perform]
  show "same_part l' (lk_room s) (lk_room (s\<lparr>lk_room := room, lk_prog := (lk_prog s)(k \<mapsto> p')\<rparr>))"
    by (simp add: same_part_sym)
qed (use j in \<open>simp_all add: held_def\<close>)

lemma settled_act:
  assumes "settled (s\<lparr>lk_room := room, lk_prog := (lk_prog s)(k \<mapsto> p')\<rparr>) l'"
    and "l' \<notin> held s k \<or> \<not> is_unlock p'"
  shows "settled s l' \<and> l' \<notin> held s k"
proof -
  have "l' \<notin> held s k" using assms by (auto simp: settled_def held_def)
  with assms(1) show ?thesis by (auto simp: settled_def held_def split: if_splits)
qed

lemma simulates_act_inner:
  assumes sim: "simulates s a" and k: "lk_prog s k = Some p" "guard_of p = Some l"
    and order: "order_for p (lk_room s) order"
    and perform: "perform (lk_now s) order p (lk_room s) = (room, p')" and inner: "\<not> is_unlock p'"
  shows "simulates (s\<lparr>lk_room := room, lk_prog := (lk_prog s)(k \<mapsto> p')\<rparr>) a" (is "simulates ?s a")
proof -
  note inv = simulatesD(1) [OF sim]
  have own: "l \<in> held s k" using held_by [OF inv k] by simp
  have held: "held ?s j = held s j" for j by (simp add: held_def)
  note part = perform_part [OF k(2) perform]
  obtain p0 r where p0: "lk_prog a k = Some p0"
    and grow: "growing (lk_now s) (lk_room a) p0 (held s k) p r" "order_for p r order"
      "perform (lk_now s) order p r = (overlay {l} room r, p')"
    and r: "\<And>l'. l' \<in> held s k \<Longrightarrow> same_part l' (overlay {l} room r) room"
    using acting [OF sim k order perform] by metis
  have "growing (lk_now s) (lk_room a) p0 (held s k) p' (overlay {l} room r)"
    using growing.act [OF grow(1) k(2) own order_refl grow(2,3) inner] .
  then have matches: "task_matches ?s a k"
    using p0 r own inner by (auto simp: task_matches_def under_way_def held)
  show ?thesis
    unfolding simulates_def
  proof (intro conjI allI impI)
    show "lock_inv ?s" by (rule lock_inv_task [OF _ inv]) (rule task_step.act [OF k order perform])
    show "same_ids (lk_room ?s) (lk_room a)"
      using part(2) simulatesD(5) [OF sim] by (auto intro: same_ids_trans)
  next
    fix l' assume l': "settled ?s l'"
    have "settled s l'" "l' \<notin> held s k" using settled_act [OF l'] inner by simp_all
    then have "same_part l' (lk_room s) (lk_room a)" "l' \<noteq> l"
      using simulatesD(6) [OF sim] own by auto
    with part(1) show "same_part l' (lk_room ?s) (lk_room a)" by (auto intro: same_part_trans)
  next
    fix j show "task_matches ?s a j"
      using matches acting_others [OF sim k _ perform] by (cases "j = k") simp_all
  qed (use simulatesD [OF sim] in simp_all)
qed

text \<open>The effect of one section does not disturb the others that are under way.\<close>

lemma under_way_frame:
  assumes "under_way s a j q" and "\<And>l. l \<in> held s j \<Longrightarrow> same_part l (lk_room a) r"
    and "lk_prog a' j = lk_prog a j" and "lk_room a' = r"
  shows "under_way s a' j q"
proof -
  from assms(1) obtain q0 r0 where q0: "lk_prog a j = Some q0"
    and grow: "growing (lk_now s) (lk_room a) q0 (held s j) q r0"
    and r0: "\<forall>l \<in> held s j. same_part l r0 (lk_room s)"
    by (auto simp: under_way_def)
  have "growing (lk_now s) r q0 (held s j) q (overlay (held s j) r0 r)"
    by (rule growing_frame [OF grow assms(2)])
  moreover have "\<forall>l \<in> held s j. same_part l (overlay (held s j) r0 r) (lk_room s)"
    using r0 overlay_in same_part_trans by blast
  ultimately show ?thesis using q0 assms(3,4) unfolding under_way_def by auto
qed

lemma task_matches_frame:
  assumes "task_matches s a j" and "\<And>l. l \<in> held s j \<Longrightarrow> same_part l (lk_room a) (lk_room a')"
    and "lk_prog a' j = lk_prog a j"
  shows "task_matches s a' j"
  using assms under_way_frame [OF _ assms(2,3) refl]
  by (auto simp: task_matches_def split: option.splits if_splits)

lemma simulates_act_last:
  assumes sim: "simulates s a" and k: "lk_prog s k = Some p" "guard_of p = Some l"
    and order: "order_for p (lk_room s) order"
    and perform: "perform (lk_now s) order p (lk_room s) = (room, p')" and last: "is_unlock p'"
  shows "\<exists>a'. atomic_step ctl a a' \<and>
    simulates (s\<lparr>lk_room := room, lk_prog := (lk_prog s)(k \<mapsto> p')\<rparr>) a'"
    (is "\<exists>a'. _ \<and> simulates ?s a'")
proof -
  note inv = simulatesD(1) [OF sim]
  have own: "l \<in> held s k" using held_by [OF inv k] by simp
  have held: "held ?s j = held s j" for j by (simp add: held_def)
  note part = perform_part [OF k(2) perform]
  obtain p0 r where p0: "lk_prog a k = Some p0"
    and grow: "growing (lk_now s) (lk_room a) p0 (held s k) p r" "order_for p r order"
      "perform (lk_now s) order p r = (overlay {l} room r, p')"
    and r: "\<And>l'. l' \<in> held s k \<Longrightarrow> same_part l' (overlay {l} room r) room"
    using acting [OF sim k order perform] by metis
  let ?r = "overlay {l} room r"
  let ?a = "a\<lparr>lk_room := ?r, lk_prog := (lk_prog a)(k \<mapsto> strip p')\<rparr>"
  have step: "atomic_step ctl a ?a"
    using atomic_step.critical [OF p0, of "held s k" p r l order ?r p'] grow k(2) own last
    by (simp add: simulatesD(2) [OF sim])
  have out: "same_part l' (lk_room a) ?r" if "l' \<notin> held s k" for l'
  proof -
    have "same_part l' ?r r" using that own by (intro overlay_out) auto
    with growing_elsewhere(1) [OF grow(1) that] show ?thesis
      by (metis same_part_sym same_part_trans)
  qed
  have "simulates ?s ?a"
    unfolding simulates_def
  proof (intro conjI allI impI)
    show "lock_inv ?s" by (rule lock_inv_task [OF _ inv]) (rule task_step.act [OF k order perform])
    show "same_ids (lk_room ?s) (lk_room ?a)"
      using same_ids_trans [OF part(2) same_ids_trans [OF simulatesD(5) [OF sim]
            same_ids_trans [OF same_ids_sym [OF growing_elsewhere(2) [OF grow(1)]]
              same_ids_sym [OF overlay_ids]]]] by simp
  next
    fix l' assume l': "settled ?s l'"
    show "same_part l' (lk_room ?s) (lk_room ?a)"
    proof (cases "l' \<in> held s k")
      case True
      with r show ?thesis by (simp add: same_part_sym)
    next
      case False
      with settled_act [OF l'] have "same_part l' (lk_room s) (lk_room a)" "l' \<noteq> l"
        using simulatesD(6) [OF sim] own by auto
      with part(1) out [OF False] show ?thesis by (auto intro: same_part_trans)
    qed
  next
    fix j show "task_matches ?s ?a j"
    proof (cases "j = k")
      case True
      then show ?thesis using last own by (auto simp: task_matches_def held)
    next
      case False
      then have "l' \<notin> held s k" if "l' \<in> held ?s j" for l' using that by (auto simp: held_def)
      then show ?thesis
        by (intro task_matches_frame [OF acting_others [OF sim k False perform]])
          (use out False in simp_all)
    qed
  qed (use simulatesD [OF sim] in simp_all)
  with step show ?thesis by blast
qed

lemma simulates_send:
  assumes sim: "simulates s a" and k: "lk_prog s k = Some (OnChannels f)" and f: "f (lk_chan s) = (w, p')"
  shows "\<exists>a'. atomic_step ctl a a' \<and>
    simulates (s\<lparr>lk_chan := w, lk_prog := (lk_prog s)(k \<mapsto> p')\<rparr>) a'"
    (is "\<exists>a'. _ \<and> simulates ?s a'")
proof -
  note inv = simulatesD(1) [OF sim]
  have none: "held s k = {}" using lock_invD(1) [OF inv k] by simp
  then have prog: "lk_prog a k = Some (OnChannels f)"
    using simulatesD(7) [OF sim, of k] k by (simp add: task_matches_def)
  let ?a = "a\<lparr>lk_chan := w, lk_prog := (lk_prog a)(k \<mapsto> p')\<rparr>"
  have step: "atomic_step ctl a ?a"
    using atomic_step.send [OF prog] f simulatesD(3) [OF sim] by simp
  have free: "lk_owner s l \<noteq> Some k" for l using none by (auto simp: held_def)
  have "task_matches ?s ?a j" for j
  proof (cases "j = k")
    case True
    then show ?thesis using none by (simp add: task_matches_def held_def)
  next
    case False
    have "task_matches ?s a j"
      by (rule task_matches_still [OF simulatesD(7) [OF sim]]) (use False in \<open>simp_all add: held_def\<close>)
    then show ?thesis by (rule task_matches_frame) (use False in simp_all)
  qed
  moreover have "settled s l" if "settled ?s l" for l
    using that free by (auto simp: settled_def split: if_splits)
  moreover have "lock_inv ?s" by (rule lock_inv_task [OF _ inv]) (rule task_step.send [OF k f])
  ultimately have "simulates ?s ?a"
    using simulatesD [OF sim] unfolding simulates_def by auto
  with step show ?thesis by blast
qed

lemma simulates_control:
  assumes sim: "simulates s a" and ctl: "disciplined ctl" and rest: "at_rest (lk_prog s k)"
    and x: "ctl (lk_ctl s) k (lk_prog s k) c x"
  shows "\<exists>a'. atomic_step ctl a a' \<and> simulates (s\<lparr>lk_ctl := c, lk_prog := (lk_prog s)(k := x)\<rparr>) a'"
    (is "\<exists>a'. _ \<and> simulates ?s a'")
proof -
  note inv = simulatesD(1) [OF sim]
  have none: "held s k = {}" using at_rest_held [OF inv rest] .
  then have prog: "lk_prog a k = lk_prog s k"
    using simulatesD(7) [OF sim, of k] by (simp add: task_matches_def split: option.splits)
  let ?a = "a\<lparr>lk_ctl := c, lk_prog := (lk_prog a)(k := x)\<rparr>"
  have step: "atomic_step ctl a ?a"
    using atomic_step.control [of a k ctl c x] rest x simulatesD(4) [OF sim] prog by simp
  have free: "lk_owner s l \<noteq> Some k" for l using none by (auto simp: held_def)
  have "task_matches ?s ?a j" for j
  proof (cases "j = k")
    case True
    then show ?thesis using none by (simp add: task_matches_def held_def split: option.split)
  next
    case False
    have "task_matches ?s a j"
      by (rule task_matches_still [OF simulatesD(7) [OF sim]]) (use False in \<open>simp_all add: held_def\<close>)
    then show ?thesis by (rule task_matches_frame) (use False in simp_all)
  qed
  moreover have "settled s l" if "settled ?s l" for l
    using that free by (auto simp: settled_def split: if_splits)
  moreover have "lock_inv ?s"
    by (rule lock_inv_step [OF _ ctl inv]) (rule lock_step.control [of s k ctl c x, OF rest x])
  ultimately have "simulates ?s ?a"
    using simulatesD [OF sim] unfolding simulates_def by auto
  with step show ?thesis by blast
qed

lemma simulates_tick:
  assumes sim: "simulates s a" and t: "lk_now s \<le> t"
  shows "simulates (s\<lparr>lk_now := t\<rparr>) (a\<lparr>lk_now := t\<rparr>)"
proof -
  have "task_matches (s\<lparr>lk_now := t\<rparr>) (a\<lparr>lk_now := t\<rparr>) k" for k
    using simulatesD(7) [OF sim, of k] t
    by (auto simp: task_matches_def under_way_def held_def intro: growing_mono
        split: option.splits if_splits)
  then show ?thesis
    using simulatesD [OF sim] by (simp add: simulates_def lock_inv_def held_def settled_def)
qed

lemma simulates_drain:
  assumes sim: "simulates s a"
  shows "simulates (s\<lparr>lk_chan := w\<rparr>) (a\<lparr>lk_chan := w\<rparr>)"
proof -
  have "task_matches (s\<lparr>lk_chan := w\<rparr>) (a\<lparr>lk_chan := w\<rparr>) k" for k
    using simulatesD(7) [OF sim, of k]
    by (auto simp: task_matches_def under_way_def held_def split: option.splits if_splits)
  then show ?thesis
    using simulatesD [OF sim] by (simp add: simulates_def lock_inv_def held_def settled_def)
qed

lemma simulates_step:
  assumes "lock_step ctl s s'" and ctl: "disciplined ctl" and sim: "simulates s a"
  shows "\<exists>a'. (atomic_step ctl)\<^sup>*\<^sup>* a a' \<and> simulates s' a'"
  using assms(1)
proof cases
  case task
  then show ?thesis
  proof cases
    case (acquire k l p)
    with simulates_acquire [OF sim] show ?thesis by blast
  next
    case (release k l p)
    with simulates_release [OF sim] show ?thesis by blast
  next
    case (act k p l order room p')
    show ?thesis
    proof (cases "is_unlock p'")
      case True
      with simulates_act_last [OF sim act(2-5)] act(1) show ?thesis by blast
    next
      case False
      with simulates_act_inner [OF sim act(2-5)] act(1) show ?thesis by blast
    qed
  next
    case (send k f w p')
    with simulates_send [OF sim] show ?thesis by blast
  qed
next
  case (tick t)
  have "atomic_step ctl a (a\<lparr>lk_now := t\<rparr>)"
    by (rule atomic_step.tick) (use tick simulatesD(2) [OF sim] in simp)
  with simulates_tick [OF sim tick(2)] tick(1) show ?thesis by blast
next
  case (drain w)
  have "atomic_step ctl a (a\<lparr>lk_chan := w\<rparr>)" by (rule atomic_step.drain)
  with simulates_drain [OF sim] drain show ?thesis by blast
next
  case (control k c x)
  with simulates_control [OF sim ctl control(2,3)] show ?thesis by blast
qed

lemma simulates_run:
  assumes "(lock_step ctl)\<^sup>*\<^sup>* s s'" and ctl: "disciplined ctl" and "simulates s a"
  shows "\<exists>a'. (atomic_step ctl)\<^sup>*\<^sup>* a a' \<and> simulates s' a'"
  using assms(1,3)
proof (induction rule: rtranclp_induct)
  case (step s1 s2)
  then obtain a1 where a1: "(atomic_step ctl)\<^sup>*\<^sup>* a a1" "simulates s1 a1" by blast
  from simulates_step [OF step(2) ctl a1(2)] a1(1) show ?case by (meson rtranclp_trans)
qed blast

text \<open>While no lock is held, the two machines are in the same state.\<close>

lemma simulates_unlocked:
  assumes sim: "simulates s a" and "lk_owner s = Map.empty"
  shows "lk_room a = lk_room s" and "lk_prog a = lk_prog s"
proof -
  have "settled s l" for l using assms(2) by (simp add: settled_def)
  then show "lk_room a = lk_room s"
    using simulatesD(5,6) [OF sim] by (intro sym [OF room_eqI]) blast+
  have "held s k = {}" for k using assms(2) by (simp add: held_def)
  then have "lk_prog a k = lk_prog s k" for k
    using simulatesD(7) [OF sim, of k] by (simp add: task_matches_def split: option.splits)
  then show "lk_prog a = lk_prog s" by blast
qed

end
