(* ===== verification/LockSites.thy ===== *)
theory LockSites
  imports Sections MachineInvariant
begin

text \<open>
  The lock operations of \<^verbatim>\<open>src/server/mod.rs\<close>: each place that takes a lock of a room, as a program of
  \<open>Locks\<close>, in the order in which the code takes and drops its guards, and what a connection's task and
  the sweeper run when. The programs keep the lock order, and the machine they make up is simulated by
  the room machine of \<open>Interleaving\<close>: taking its blocks as atomic steps loses no behaviour.
\<close>

section \<open>The sites\<close>

text \<open>What a program hands to its task: the next stage, the history for the welcome, the stale ids.\<close>

datatype 'tx phase =
    At "'tx stage"
  | Welcomed "room_message list"
  | Left
  | Stale "uuid list"
  | Swept

type_synonym ('tx, 'w) site = "('tx, 'w, 'tx phase) prog"

text \<open>\<^verbatim>\<open>handle_connection\<close>: the join, the history snapshot, and the cleanup. In the join and the cleanup
  the first guard lives on while the second lock is awaited.\<close>

definition join_site :: "uuid \<Rightarrow> str \<Rightarrow> 'tx \<Rightarrow> ('tx, 'w) site" where
  "join_site user_id username tx =
     Lock Sessions (OnSessions (\<lambda>now _ sessions. (ss_insert now user_id username sessions,
     Lock Connections (OnConnections (\<lambda>_ conns. (cm_insert user_id tx conns,
     Unlock Connections (Unlock Sessions (Done (At Joined)))))))))"

definition welcome_site :: "('tx, 'w) site" where
  "welcome_site =
     Lock Messages (OnMessages (\<lambda>m. (m, Unlock Messages (Done (Welcomed (ms_snapshot m))))))"

definition leave_site :: "uuid \<Rightarrow> ('tx, 'w) site" where
  "leave_site user_id =
     Lock Sessions (OnSessions (\<lambda>_ _ sessions. (snd (ss_remove user_id sessions),
     Lock Connections (OnConnections (\<lambda>_ conns. (cm_remove user_id conns,
     Unlock Connections (Unlock Sessions (Done Left))))))))"

text \<open>\<^verbatim>\<open>handle_client_frame\<close> and \<^verbatim>\<open>broadcast\<close>: no guard outlives its block.\<close>

definition touch_site :: "uuid \<Rightarrow> client_frame \<Rightarrow> ('tx, 'w) site" where
  "touch_site user_id msg =
     Lock Sessions (OnSessions (\<lambda>now _ sessions. (ss_touch now user_id sessions,
     Unlock Sessions (Done (At (Handling msg))))))"

definition quota_site :: "uuid \<Rightarrow> room_message \<Rightarrow> ('tx, 'w) site" where
  "quota_site user_id m =
     OnSessions (\<lambda>now _ sessions.
       case try_consume_message_quota now user_id sessions of
         (False, sessions) \<Rightarrow> (sessions, Unlock Sessions (Done (At Leaving)))
       | (True, sessions) \<Rightarrow> (sessions, Unlock Sessions (Done (At (Admitted m)))))"

fun stage_site :: "('tx, 'w) sender \<Rightarrow> uuid \<Rightarrow> str \<Rightarrow> 'tx stage \<Rightarrow> ('tx, 'w) site" where
  "stage_site ts user_id username (Handling msg) =
     (case msg of
        RoomSelect _ \<Rightarrow> Done (At Leaving)
      | ClientHello _ \<Rightarrow> Done (At Leaving)
      | ClientMessage ad ct \<Rightarrow>
          if ad_from ad \<noteq> user_id then Done (At Leaving)
          else if ad_username ad \<noteq> username then Done (At Leaving)
          else if length ct > MAX_CIPHERTEXT_LEN then Done (At Leaving)
          else Lock Sessions (OnSessions (\<lambda>_ _ sessions.
            case try_advance_counter user_id (ad_counter ad) sessions of
              (False, sessions) \<Rightarrow> (sessions, Unlock Sessions (Done (At Leaving)))
            | (True, sessions) \<Rightarrow> (sessions, quota_site user_id
                \<lparr>rm_from = user_id, rm_username = username, rm_ad = ad, rm_ciphertext = ct\<rparr>)))
      | Clear \<Rightarrow> Lock Sessions (OnSessions (\<lambda>now _ sessions.
            case try_consume_clear now user_id sessions of
              (False, sessions) \<Rightarrow> (sessions, Unlock Sessions (Done (At Leaving)))
            | (True, sessions) \<Rightarrow> (sessions, Unlock Sessions (Done (At ClearAdmitted))))))"
| "stage_site ts user_id username (Admitted m) =
     (if \<not> ad_ephemeral (rm_ad m)
      then Lock Messages (OnMessages (\<lambda>msgs. (ms_push m msgs,
        Unlock Messages (Done (At (Announcing (ServerMessage m)))))))
      else Done (At (Announcing (ServerMessage m))))"
| "stage_site ts user_id username ClearAdmitted =
     Lock Messages (OnMessages (\<lambda>msgs. (ms_clear msgs,
       Unlock Messages (Done (At (Announcing (Cleared user_id username)))))))"
| "stage_site ts user_id username (Announcing f) =
     Lock Connections (OnConnections (\<lambda>order conns. (conns,
       Unlock Connections (Done (At (Sending f (cm_snapshot order conns) []))))))"
| "stage_site ts user_id username (Sending f [] dead) =
     Done (At (if dead \<noteq> [] then Evicting dead else Ready))"
| "stage_site ts user_id username (Sending f ((v, tx) # snapshot) dead) =
     OnChannels (\<lambda>w. case ts tx f w of
        (Sent, w) \<Rightarrow> (w, Done (At (Sending f snapshot dead)))
      | (OutboxFull, w) \<Rightarrow> (w, Done (At (Sending f snapshot (dead @ [v]))))
      | (OutboxClosed, w) \<Rightarrow> (w, Done (At (Sending f snapshot (dead @ [v])))))"
| "stage_site ts user_id username (Evicting dead) =
     Lock Connections (OnConnections (\<lambda>_ conns. (fold cm_remove dead conns,
       Unlock Connections (Done (At Ready)))))"
| "stage_site ts user_id username stage = Done (At stage)"

text \<open>\<^verbatim>\<open>sweeper\<close>, in one room: reading the stale ids, and, when there are any, the loop that removes them
  under both locks.\<close>

definition stale_site :: "('tx, 'w) site" where
  "stale_site =
     Lock Sessions (OnSessions (\<lambda>now order s. (s, Unlock Sessions (Done (Stale (ss_stale now order s))))))"

fun evict_loop :: "uuid list \<Rightarrow> ('tx, 'w) site" where
  "evict_loop [] = Unlock Connections (Unlock Sessions (Done Swept))"
| "evict_loop (u # stale) =
     OnSessions (\<lambda>_ _ sessions. (snd (ss_remove u sessions),
     OnConnections (\<lambda>_ conns. (cm_remove u conns, evict_loop stale))))"

definition evict_site :: "uuid list \<Rightarrow> ('tx, 'w) site" where
  "evict_site stale = Lock Sessions (Lock Connections (evict_loop stale))"

lemmas site_defs = join_site_def welcome_site_def leave_site_def touch_site_def stale_site_def evict_site_def

section \<open>The lock order is kept\<close>

lemma well_locked_evict_loop: "well_locked {Sessions, Connections} (evict_loop stale)"
  by (induction stale) auto

lemma well_locked_stage: "well_locked {} (stage_site ts u name stage)"
proof (cases "(ts, u, name, stage)" rule: stage_site.cases)
  case (1 ts u name msg)
  then show ?thesis
    by (cases msg) (auto simp: quota_site_def split: prod.splits bool.splits)
qed (auto split: prod.splits send_outcome.splits)

lemma well_locked_sites:
  "well_locked {} (join_site u name tx)" "well_locked {} welcome_site" "well_locked {} (leave_site u)"
  "well_locked {} (touch_site u msg)" "well_locked {} stale_site"
  "stale \<noteq> [] \<Longrightarrow> well_locked {} (evict_site stale)"
proof -
  show "well_locked {} (evict_site stale)" if "stale \<noteq> []"
    using that well_locked_evict_loop [of stale] by (cases stale) (simp_all add: evict_site_def insert_commute)
qed (simp_all add: site_defs)

section \<open>Which site a task comes to next\<close>

text \<open>The tasks of a room: its connections, by the id they will join with, and the sweeper. Ghosts are
  the name and the outbox of everyone who has set out to join.\<close>

datatype task_id = Conn uuid | Sweeper

record 'tx room_tasks =
  rt_users :: "uuid \<rightharpoonup> str"
  rt_outbox :: "uuid \<rightharpoonup> 'tx"

definition handling :: "'tx stage \<Rightarrow> bool" where
  "handling stage \<longleftrightarrow> stage \<noteq> Joined \<and> stage \<noteq> Ready \<and> stage \<noteq> Leaving"

inductive room_control :: "('tx, 'w) sender \<Rightarrow> ('tx, 'w, 'tx phase, task_id, 'tx room_tasks) control"
  for ts :: "('tx, 'w) sender" where
  rc_join: "rt_users c u = None \<Longrightarrow> tx \<notin> ran (rt_outbox c) \<Longrightarrow> username_ok name \<Longrightarrow>
    room_control ts c (Conn u) None
      (c\<lparr>rt_users := (rt_users c)(u \<mapsto> name), rt_outbox := (rt_outbox c)(u \<mapsto> tx)\<rparr>)
      (Some (join_site u name tx))"
| rc_welcome: "room_control ts c (Conn u) (Some (Done (At Joined))) c (Some welcome_site)"
| rc_welcome_sent: "room_control ts c (Conn u) (Some (Done (Welcomed h))) c (Some (Done (At Ready)))"
| rc_welcome_lost: "room_control ts c (Conn u) (Some (Done (Welcomed h))) c None"
| rc_receive: "room_control ts c (Conn u) (Some (Done (At Ready))) c (Some (touch_site u msg))"
| rc_stop: "room_control ts c (Conn u) (Some (Done (At Ready))) c (Some (Done (At Leaving)))"
| rc_handle: "rt_users c u = Some name \<Longrightarrow> handling stage \<Longrightarrow>
    room_control ts c (Conn u) (Some (Done (At stage))) c (Some (stage_site ts u name stage))"
| rc_leave: "room_control ts c (Conn u) (Some (Done (At Leaving))) c (Some (leave_site u))"
| rc_left: "room_control ts c (Conn u) (Some (Done Left)) c None"
| rc_sweep: "room_control ts c Sweeper None c (Some stale_site)"
| rc_nothing: "room_control ts c Sweeper (Some (Done (Stale []))) c None"
| rc_evict: "stale \<noteq> [] \<Longrightarrow>
    room_control ts c Sweeper (Some (Done (Stale stale))) c (Some (evict_site stale))"
| rc_swept: "room_control ts c Sweeper (Some (Done Swept)) c None"

lemma room_control_disciplined: "disciplined (room_control ts)"
  unfolding disciplined_def
  by (auto elim!: room_control.cases simp: well_locked_sites well_locked_stage)

definition locked_init ::
  "str \<Rightarrow> bytes \<Rightarrow> bytes \<Rightarrow> 'w \<Rightarrow> ('tx, 'w, 'tx phase, task_id, 'tx room_tasks) locked" where
  "locked_init room_id salt psk w =
     \<lparr>lk_room = room_state_new room_id salt psk, lk_chan = w, lk_now = 0,
      lk_ctl = \<lparr>rt_users = Map.empty, rt_outbox = Map.empty\<rparr>, lk_prog = Map.empty, lk_owner = Map.empty\<rparr>"

lemma lock_inv_init: "lock_inv (locked_init room_id salt psk w)"
  by (simp add: lock_inv_def locked_init_def held_def)

lemma lock_inv_reachable:
  "(lock_step (room_control ts))\<^sup>*\<^sup>* (locked_init room_id salt psk w) s \<Longrightarrow> lock_inv s"
  by (induction rule: rtranclp_induct)
    (auto intro: lock_inv_init lock_inv_step [OF _ room_control_disciplined])

lemma finite_progs_step:
  assumes "lock_step ctl s s'" and "finite (dom (lk_prog s))"
  shows "finite (dom (lk_prog s'))"
  using assms(1)
proof cases
  case task
  with programs_decrease(2) assms(2) show ?thesis by metis
next
  case (control k c x)
  have "dom ((lk_prog s)(k := x)) \<subseteq> insert k (dom (lk_prog s))" by auto
  with control assms(2) show ?thesis by (auto intro: finite_subset)
qed (use assms(2) in simp_all)

lemma finite_progs_reachable:
  "(lock_step (room_control ts))\<^sup>*\<^sup>* (locked_init room_id salt psk w) s \<Longrightarrow> finite (dom (lk_prog s))"
  by (induction rule: rtranclp_induct) (auto simp: locked_init_def intro: finite_progs_step)

end
