(* ===== verification/LockRefinement.thy ===== *)
theory LockRefinement
  imports LockSites
begin

text \<open>
  The atomic machine of the lock sites is simulated by the room machine of \<open>Interleaving\<close>. First what
  each site does when it runs as one section, then the simulation.
\<close>

section \<open>What the sections do\<close>

text \<open>Sections with one action.\<close>

lemma growing_single:
  assumes "growing T c (Lock l q) H p r" and "guard_of q = Some l'"
    and "\<And>t order r. is_unlock (snd (perform t order q r))"
  shows "p = q \<and> r = c \<and> H = {l}"
  using assms(1)
proof (induction rule: growing.induct)
  case (lock H l'' p r)
  with assms(2) show ?case by auto
next
  case (act H p r l'' t order r' p')
  with assms(3) [of t order r] show ?case by simp
qed auto

lemma growing_not_lock: "growing T c p0 H p r \<Longrightarrow> \<exists>l q. p0 = Lock l q"
  by (induction rule: growing.induct) auto

text \<open>Sections that change the sessions, then the connections.\<close>

lemma growing_double:
  assumes "growing T c (Lock Sessions (OnSessions (\<lambda>t _ st. (f t st, Lock Connections
      (OnConnections (\<lambda>_ cs. (g cs, Unlock Connections rest))))))) H p r"
  shows "p = OnConnections (\<lambda>_ cs. (g cs, Unlock Connections rest)) \<Longrightarrow>
    \<exists>t \<le> T. r = c\<lparr>rs_sessions := f t (rs_sessions c)\<rparr>"
    and "guard_of p = Some l \<Longrightarrow> is_unlock (snd (perform t' order p r)) \<Longrightarrow>
      p = OnConnections (\<lambda>_ cs. (g cs, Unlock Connections rest))"
proof -
  let ?p1 = "OnConnections (\<lambda>_ cs. (g cs, Unlock Connections rest))"
  let ?p0 = "OnSessions (\<lambda>t _ st. (f t st, Lock Connections ?p1))"
  have "p = ?p0 \<and> r = c \<or> p = Lock Connections ?p1 \<and> (\<exists>t \<le> T. r = c\<lparr>rs_sessions := f t (rs_sessions c)\<rparr>) \<or>
      p = ?p1 \<and> (\<exists>t \<le> T. r = c\<lparr>rs_sessions := f t (rs_sessions c)\<rparr>)"
    using assms
  proof (induction rule: growing.induct)
    case (act H p r l t order r' p')
    then show ?case by auto
  qed auto
  then show "p = ?p1 \<Longrightarrow> \<exists>t \<le> T. r = c\<lparr>rs_sessions := f t (rs_sessions c)\<rparr>"
    and "guard_of p = Some l \<Longrightarrow> is_unlock (snd (perform t' order p r)) \<Longrightarrow> p = ?p1"
    by auto
qed

text \<open>A section as a whole: the room it leaves and the program it goes on with.\<close>

definition section_result ::
  "instant \<Rightarrow> 'tx room_state \<Rightarrow> ('tx, 'w, 'r) prog \<Rightarrow> 'tx room_state \<Rightarrow> ('tx, 'w, 'r) prog \<Rightarrow> bool" where
  "section_result T c p0 r' q \<longleftrightarrow>
     (\<exists>H p r l order p'. growing T c p0 H p r \<and> guard_of p = Some l \<and> l \<in> H \<and> order_for p r order \<and>
        perform T order p r = (r', p') \<and> is_unlock p' \<and> q = strip p')"

lemma section_single:
  assumes "section_result T c (Lock l q) r' p" and "guard_of q = Some l"
    and "\<And>t order r. is_unlock (snd (perform t order q r))"
  shows "\<exists>order. order_for q c order \<and> r' = fst (perform T order q c) \<and> p = strip (snd (perform T order q c))"
  using assms(1) growing_single [OF _ assms(2,3)] unfolding section_result_def
  by (metis fst_conv snd_conv)

lemma section_join:
  assumes "section_result T c (join_site u name tx) r' q"
  shows "\<exists>t \<le> T. r' = register t u name tx c \<and> q = Done (At Joined)"
proof -
  from assms obtain H p r l order p' where g: "growing T c (join_site u name tx) H p r"
    and p: "guard_of p = Some l" "perform T order p r = (r', p')" "is_unlock p'" "q = strip p'"
    unfolding section_result_def by blast
  note double = growing_double [OF g [unfolded join_site_def]]
  from double(2) [OF p(1), of T order] p(2,3)
  have pc: "p = OnConnections (\<lambda>_ conns. (cm_insert u tx conns,
      Unlock Connections (Unlock Sessions (Done (At Joined)))))" by simp
  from double(1) [OF this] p pc show ?thesis by (auto simp: register_def)
qed

lemma section_leave:
  assumes "section_result T c (leave_site u) r' q"
  shows "r' = unregister u c \<and> q = Done Left"
proof -
  from assms obtain H p r l order p' where g: "growing T c (leave_site u) H p r"
    and p: "guard_of p = Some l" "perform T order p r = (r', p')" "is_unlock p'" "q = strip p'"
    unfolding section_result_def by blast
  note double = growing_double [OF g [unfolded leave_site_def]]
  from double(2) [OF p(1), of T order] p(2,3)
  have pc: "p = OnConnections (\<lambda>_ conns. (cm_remove u conns,
      Unlock Connections (Unlock Sessions (Done Left))))" by simp
  from double(1) [OF this] p pc show ?thesis by (auto simp: unregister_def)
qed

lemma section_welcome: "section_result T c welcome_site r' q \<Longrightarrow> r' = c \<and> (\<exists>h. q = Done (Welcomed h))"
  unfolding welcome_site_def by (drule section_single) auto

lemma section_touch:
  "section_result T c (touch_site u msg) r' q \<Longrightarrow>
     r' = c\<lparr>rs_sessions := ss_touch T u (rs_sessions c)\<rparr> \<and> q = Done (At (Handling msg))"
  unfolding touch_site_def by (drule section_single) auto

lemma section_stale:
  "section_result T c stale_site r' q \<Longrightarrow>
     r' = c \<and> (\<exists>order. any_order (ss_sessions (rs_sessions c)) order \<and>
       q = Done (Stale (ss_stale T order (rs_sessions c))))"
  unfolding stale_site_def by (drule section_single) auto

text \<open>The loop of the sweeper, a session and a connection at a time.\<close>

lemma evict_sessions_snoc: "evict_sessions (us @ [u]) room = unregister u (evict_sessions us room)"
  by (induction us arbitrary: room) simp_all

definition evicting :: "'tx room_state \<Rightarrow> uuid list \<Rightarrow> ('tx, 'w) site \<Rightarrow> 'tx room_state \<Rightarrow> bool" where
  "evicting c stale p r \<longleftrightarrow>
     p = Lock Connections (evict_loop stale) \<and> r = c \<or>
     (\<exists>gone rest. stale = gone @ rest \<and> p = evict_loop rest \<and> r = evict_sessions gone c) \<or>
     (\<exists>gone u rest. stale = gone @ u # rest \<and>
        p = OnConnections (\<lambda>_ cs. (cm_remove u cs, evict_loop rest)) \<and>
        r = (evict_sessions gone c)\<lparr>rs_sessions := snd (ss_remove u (rs_sessions (evict_sessions gone c)))\<rparr>)"

lemma evicting_act:
  assumes "evicting c stale p r" and "guard_of p = Some l" and perform: "perform t order p r = (r', p')"
  shows "evicting c stale p' r'"
proof -
  consider (session) gone rest where "stale = gone @ rest" "p = evict_loop rest" "r = evict_sessions gone c"
    | (connection) gone u rest where "stale = gone @ u # rest"
      "p = OnConnections (\<lambda>_ cs. (cm_remove u cs, evict_loop rest))"
      "r = (evict_sessions gone c)\<lparr>rs_sessions := snd (ss_remove u (rs_sessions (evict_sessions gone c)))\<rparr>"
    using assms(1,2) by (auto simp: evicting_def)
  then show ?thesis
  proof cases
    case session
    with assms(2) obtain u us where "rest = u # us" by (cases rest) auto
    with session perform show ?thesis unfolding evicting_def by auto
  next
    case connection
    then have "p' = evict_loop rest" "r' = evict_sessions (gone @ [u]) c" "stale = (gone @ [u]) @ rest"
      using perform by (auto simp: evict_sessions_snoc unregister_def)
    then show ?thesis unfolding evicting_def by blast
  qed
qed

lemma evict_loop_no_lock [simp]: "Lock l p \<noteq> evict_loop stale"
  by (cases stale) simp_all

lemma growing_evict: "growing T c (evict_site stale) H p r \<Longrightarrow> evicting c stale p r"
proof (induction rule: growing.induct)
  case (enter l p)
  then show ?case by (simp add: evict_site_def evicting_def)
next
  case (lock H l p r)
  then have "Lock l p = Lock Connections (evict_loop stale) \<and> r = c"
    by (auto simp: evicting_def evict_loop_no_lock)
  then show ?case unfolding evicting_def by (intro disjI2 disjI1 exI [of _ "[]"] exI [of _ stale]) simp
qed (rule evicting_act)

lemma section_evict:
  assumes "section_result T c (evict_site stale) r' q"
  shows "r' = evict_sessions stale c \<and> q = Done Swept"
proof -
  from assms obtain H p r l order p' where g: "growing T c (evict_site stale) H p r"
    and p: "guard_of p = Some l" "perform T order p r = (r', p')" "is_unlock p'" "q = strip p'"
    unfolding section_result_def by blast
  from evicting_act [OF growing_evict [OF g] p(1,2)] p(3)
  obtain gone rest where rest: "stale = gone @ rest" "p' = evict_loop rest" "r' = evict_sessions gone c"
    by (auto simp: evicting_def)
  moreover from rest p(3) have "rest = []" by (cases rest) auto
  ultimately show ?thesis using p(4) by simp
qed

text \<open>The blocks of the handler. That of a message has two actions, unless the counter is refused.\<close>

definition message_site :: "uuid \<Rightarrow> room_message \<Rightarrow> ('tx, 'w) site" where
  "message_site u m =
     OnSessions (\<lambda>_ _ sessions.
       case try_advance_counter u (ad_counter (rm_ad m)) sessions of
         (False, sessions) \<Rightarrow> (sessions, Unlock Sessions (Done (At Leaving)))
       | (True, sessions) \<Rightarrow> (sessions, quota_site u m))"

lemma growing_message:
  assumes "growing T c (Lock Sessions (message_site u m)) H p r"
  shows "p = message_site u m \<and> r = c \<or>
    p = quota_site u m \<and> (\<exists>st. try_advance_counter u (ad_counter (rm_ad m)) (rs_sessions c) = (True, st) \<and>
      r = c\<lparr>rs_sessions := st\<rparr>)"
  using assms
proof (induction rule: growing.induct)
  case (lock H l p r)
  then show ?case by (auto simp: message_site_def quota_site_def)
next
  case (act H p r l t order r' p')
  show ?case
  proof (cases "p = message_site u m \<and> r = c")
    case True
    with act.hyps(6,7) show ?thesis
      by (auto simp: message_site_def split: prod.splits bool.splits)
  next
    case False
    with act.IH act.hyps(6,7) show ?thesis
      by (auto simp: quota_site_def split: prod.splits bool.splits)
  qed
qed auto

lemma section_message:
  assumes "section_result T c (Lock Sessions (message_site u m)) r' q"
  shows "(case try_advance_counter u (ad_counter (rm_ad m)) (rs_sessions c) of
       (False, st) \<Rightarrow> r' = c\<lparr>rs_sessions := st\<rparr> \<and> q = Done (At Leaving)
     | (True, st) \<Rightarrow>
    (case try_consume_message_quota T u st of
       (False, st) \<Rightarrow> r' = c\<lparr>rs_sessions := st\<rparr> \<and> q = Done (At Leaving)
     | (True, st) \<Rightarrow> r' = c\<lparr>rs_sessions := st\<rparr> \<and> q = Done (At (Admitted m))))"
proof -
  from assms obtain H p r l order p' where g: "growing T c (Lock Sessions (message_site u m)) H p r"
    and p: "guard_of p = Some l" "perform T order p r = (r', p')" "is_unlock p'" "q = strip p'"
    unfolding section_result_def by blast
  from growing_message [OF g] p(2-4) show ?thesis
    by (auto simp: message_site_def quota_site_def split: prod.splits bool.splits)
qed

lemma stage_site_message:
  "stage_site ts u name (Handling (ClientMessage ad ct)) =
     (if ad_from ad \<noteq> u \<or> ad_username ad \<noteq> name \<or> length ct > MAX_CIPHERTEXT_LEN then Done (At Leaving)
      else Lock Sessions (message_site u
        \<lparr>rm_from = u, rm_username = name, rm_ad = ad, rm_ciphertext = ct\<rparr>))"
  by (simp add: message_site_def)

lemma section_not_lock: "section_result T c p r' q \<Longrightarrow> \<exists>l q'. p = Lock l q'"
  unfolding section_result_def using growing_not_lock by blast

lemma section_stage:
  assumes sec: "section_result T c (stage_site ts u name stage) r' q"
  shows "\<exists>order stage'. any_order (cm_senders (rs_connections c)) order \<and> q = Done (At stage') \<and>
    task_block ts T order u name (stage, c, w) = (stage', r', w)"
proof -
  obtain order0 where order0: "any_order (cm_senders (rs_connections c)) order0"
    using any_order_exists by blast
  show ?thesis
  proof (cases stage)
    case (Handling msg)
    show ?thesis
    proof (cases msg)
      case (ClientMessage ad ct)
      let ?m = "\<lparr>rm_from = u, rm_username = name, rm_ad = ad, rm_ciphertext = ct\<rparr>"
      have ok: "\<not> (ad_from ad \<noteq> u \<or> ad_username ad \<noteq> name \<or> length ct > MAX_CIPHERTEXT_LEN)"
        using section_not_lock [OF sec] unfolding Handling ClientMessage stage_site_message
        by (auto split: if_splits)
      have "section_result T c (Lock Sessions (message_site u ?m)) r' q"
        using sec ok unfolding Handling ClientMessage stage_site_message by simp
      from section_message [OF this] ok Handling ClientMessage order0 show ?thesis
        by (auto split: prod.splits bool.splits)
    next
      case Clear
      have "section_result T c (Lock Sessions (OnSessions (\<lambda>now _ sessions.
            case try_consume_clear now u sessions of
              (False, sessions) \<Rightarrow> (sessions, Unlock Sessions (Done (At Leaving)))
            | (True, sessions) \<Rightarrow> (sessions, Unlock Sessions (Done (At ClearAdmitted)))))) r' q"
        using sec Handling Clear by simp
      from section_single [OF this] Handling Clear order0 show ?thesis
        by (auto split: prod.splits bool.splits)
    qed (use section_not_lock [OF sec] Handling in simp_all)
  next
    case (Admitted m)
    then show ?thesis
      using section_not_lock [OF sec] sec order0
      by (auto dest!: section_single split: if_splits)
  next
    case ClearAdmitted
    then show ?thesis using sec order0 by (auto dest!: section_single)
  next
    case (Announcing f)
    then show ?thesis using sec by (auto dest!: section_single)
  next
    case (Sending f snapshot dead)
    then show ?thesis using section_not_lock [OF sec] by (cases snapshot) auto
  next
    case (Evicting dead)
    then show ?thesis using sec order0 by (auto dest!: section_single)
  qed (use section_not_lock [OF sec] in simp_all)
qed

section \<open>The simulation\<close>

text \<open>What the program of a connection says about its task in the room machine.\<close>

inductive conn_site ::
  "('tx, 'w) sender \<Rightarrow> uuid \<Rightarrow> str option \<Rightarrow> 'tx option \<Rightarrow> ('tx, 'w) site option \<Rightarrow> 'tx task option
     \<Rightarrow> str option \<Rightarrow> bool"
  for ts :: "('tx, 'w) sender" and u :: uuid where
  cs_none: "n = None \<or> n = x \<Longrightarrow> conn_site ts u x y None None n"
| cs_joining: "username_ok name \<Longrightarrow> conn_site ts u (Some name) (Some tx) (Some (join_site u name tx)) None None"
| cs_rest: "tk_stage tk = stage \<Longrightarrow> x = Some (tk_username tk) \<Longrightarrow>
    conn_site ts u x y (Some (Done (At stage))) (Some tk) x"
| cs_welcome: "tk_stage tk = Joined \<Longrightarrow> x = Some (tk_username tk) \<Longrightarrow>
    conn_site ts u x y (Some welcome_site) (Some tk) x"
| cs_welcomed: "tk_stage tk = Joined \<Longrightarrow> x = Some (tk_username tk) \<Longrightarrow>
    conn_site ts u x y (Some (Done (Welcomed h))) (Some tk) x"
| cs_touch: "tk_stage tk = Ready \<Longrightarrow> x = Some (tk_username tk) \<Longrightarrow>
    conn_site ts u x y (Some (touch_site u msg)) (Some tk) x"
| cs_block: "\<not> at_rest (Some (stage_site ts u (tk_username tk) (tk_stage tk))) \<Longrightarrow>
    x = Some (tk_username tk) \<Longrightarrow>
    conn_site ts u x y (Some (stage_site ts u (tk_username tk) (tk_stage tk))) (Some tk) x"
| cs_leave: "tk_stage tk = Leaving \<Longrightarrow> x = Some (tk_username tk) \<Longrightarrow>
    conn_site ts u x y (Some (leave_site u)) (Some tk) x"
| cs_left: "conn_site ts u x y (Some (Done Left)) None x"

inductive sweep_site :: "('tx, 'w) site option \<Rightarrow> uuid list \<Rightarrow> bool" where
  "sweep_site None []"
| "sweep_site (Some stale_site) []"
| "sweep_site (Some (Done (Stale stale))) stale"
| "sweep_site (Some (evict_site stale)) stale"
| "sweep_site (Some (Done Swept)) []"

definition conns_match ::
  "('tx, 'w) sender \<Rightarrow> 'tx room_tasks \<Rightarrow> (task_id \<rightharpoonup> ('tx, 'w) site) \<Rightarrow> (uuid \<rightharpoonup> 'tx task) \<Rightarrow> (uuid \<rightharpoonup> str) \<Rightarrow> bool" where
  "conns_match ts c progs tasks names \<longleftrightarrow>
     (\<forall>u. conn_site ts u (rt_users c u) (rt_outbox c u) (progs (Conn u)) (tasks u) (names u))"

definition outboxes_ok :: "'tx room_tasks \<Rightarrow> (uuid \<rightharpoonup> 'tx) \<Rightarrow> bool" where
  "outboxes_ok c senders \<longleftrightarrow> senders \<subseteq>\<^sub>m rt_outbox c \<and> inj_on (rt_outbox c) (dom (rt_outbox c))"

definition matches ::
  "('tx, 'w) sender \<Rightarrow> ('tx, 'w, 'tx phase, task_id, 'tx room_tasks) locked \<Rightarrow> ('tx, 'w) machine \<Rightarrow> bool" where
  "matches ts a m \<longleftrightarrow>
     mc_room m = lk_room a \<and> mc_chan m = lk_chan a \<and> mc_now m = lk_now a \<and> finite (dom (mc_names m)) \<and>
     conns_match ts (lk_ctl a) (lk_prog a) (mc_tasks m) (mc_names m) \<and>
     sweep_site (lk_prog a Sweeper) (mc_sweep m) \<and>
     outboxes_ok (lk_ctl a) (cm_senders (rs_connections (lk_room a)))"

lemma conns_matchD: "conns_match ts c progs tasks names \<Longrightarrow>
    conn_site ts u (rt_users c u) (rt_outbox c u) (progs (Conn u)) (tasks u) (names u)"
  by (simp add: conns_match_def)

lemma matches_conn: "matches ts a m \<Longrightarrow>
    conn_site ts u (rt_users (lk_ctl a) u) (rt_outbox (lk_ctl a) u) (lk_prog a (Conn u)) (mc_tasks m u) (mc_names m u)"
  by (simp add: matches_def conns_match_def)

lemma at_rest_simps [simp]: "at_rest None" "at_rest (Some (Done r))"
  by (simp_all add: at_rest_def)

lemma conn_site_rest:
  "conn_site ts u x y (Some (Done (At stage))) t n \<Longrightarrow>
     \<exists>tk. t = Some tk \<and> tk_stage tk = stage \<and> x = Some (tk_username tk) \<and> n = Some (tk_username tk)"
  "conn_site ts u x y (Some (Done (Welcomed h))) t n \<Longrightarrow>
     \<exists>tk. t = Some tk \<and> tk_stage tk = Joined \<and> x = Some (tk_username tk) \<and> n = Some (tk_username tk)"
  "conn_site ts u x y (Some (Done Left)) t n \<Longrightarrow> t = None \<and> n = x"
  by (erule conn_site.cases; auto simp: site_defs dest: arg_cong [where f = "\<lambda>p. at_rest (Some p)"])+

lemma sweep_site_rest:
  "sweep_site None s \<Longrightarrow> s = []" "sweep_site (Some (Done (Stale l))) s \<Longrightarrow> s = l"
  "sweep_site (Some (Done Swept)) s \<Longrightarrow> s = []"
  by (erule sweep_site.cases; simp add: site_defs)+

lemma conns_match_upd:
  assumes "conns_match ts c progs tasks names"
    and "conn_site ts u (rt_users c u) (rt_outbox c u) p t n"
  shows "conns_match ts c (progs(Conn u := p)) (tasks(u := t)) (names(u := n))"
  using assms by (simp add: conns_match_def)

text \<open>For a step that leaves the names alone, and does not add an outbox.\<close>

lemma matches_upd:
  assumes "matches ts a m" and "lk_ctl a' = lk_ctl a"
    and "lk_prog a' = (lk_prog a)(Conn u := p)" and "mc_tasks m' = (mc_tasks m)(u := t)"
    and "conn_site ts u (rt_users (lk_ctl a) u) (rt_outbox (lk_ctl a) u) p t (mc_names m u)"
    and "mc_names m' = mc_names m" and "mc_sweep m' = mc_sweep m" and "mc_room m' = lk_room a'"
    and "mc_chan m' = lk_chan a'" and "mc_now m' = lk_now a'"
    and "cm_senders (rs_connections (mc_room m')) \<subseteq>\<^sub>m cm_senders (rs_connections (mc_room m))"
  shows "matches ts a' m'"
proof -
  have "outboxes_ok (lk_ctl a) (cm_senders (rs_connections (mc_room m')))"
    using assms(1,11) by (auto simp: matches_def outboxes_ok_def intro: map_le_trans)
  moreover have "conns_match ts (lk_ctl a) (lk_prog a') (mc_tasks m') (mc_names m)"
    using conns_match_upd [of ts "lk_ctl a" "lk_prog a" "mc_tasks m" "mc_names m" u p t "mc_names m u"] assms
    by (simp add: matches_def)
  ultimately show ?thesis using assms by (simp add: matches_def)
qed

lemma at_stage_upd: "at_stage u tk stage tasks = tasks(u := Some (tk\<lparr>tk_stage := stage\<rparr>))"
  by (simp add: at_stage_def)

lemma map_le_None: "m(k := None) \<subseteq>\<^sub>m m"
  by (simp add: map_le_def)

lemma removes_le: "cm_senders (fold cm_remove us c) \<subseteq>\<^sub>m cm_senders c"
proof (induction us arbitrary: c)
  case (Cons u us)
  have "cm_senders (cm_remove u c) \<subseteq>\<^sub>m cm_senders c" by (simp add: store_simps map_le_None)
  with Cons [of "cm_remove u c"] show ?case by (auto intro: map_le_trans)
qed simp

lemma task_block_senders:
  assumes "task_block ts now order u name (stage, room, w) = (stage', room', w')"
  shows "cm_senders (rs_connections room') \<subseteq>\<^sub>m cm_senders (rs_connections room)"
proof (cases stage)
  case (Sending f snapshot dead)
  with assms show ?thesis
    by (cases snapshot) (auto split: prod.splits send_outcome.splits if_splits)
next
  case (Evicting dead)
  with assms removes_le [of dead "rs_connections room"] show ?thesis by auto
qed (use assms in \<open>auto split: client_frame.splits prod.splits bool.splits if_splits\<close>)

text \<open>A machine state on the way from \<open>m0\<close>: its names bound the domains of its tables.\<close>

lemma machine_inv_finite:
  assumes "machine_inv m" and "finite (dom (mc_names m))"
  shows "dom (cm_senders (rs_connections (mc_room m))) \<subseteq> dom (mc_names m)"
    and "finite (dom (cm_senders (rs_connections (mc_room m))))"
    and "finite (dom (ss_sessions (rs_sessions (mc_room m))))"
proof -
  have names: "dom (ss_sessions (rs_sessions (mc_room m))) \<subseteq> dom (mc_names m)"
    using assms(1) by (fastforce simp: machine_inv_def covered_def)
  moreover have "dom (cm_senders (rs_connections (mc_room m))) \<subseteq> dom (ss_sessions (rs_sessions (mc_room m)))"
    using assms(1) by (simp add: machine_inv_def room_inv_def)
  ultimately show "dom (cm_senders (rs_connections (mc_room m))) \<subseteq> dom (mc_names m)" by blast
  with names assms(2) show "finite (dom (cm_senders (rs_connections (mc_room m))))"
    "finite (dom (ss_sessions (rs_sessions (mc_room m))))" by (auto intro: finite_subset)
qed

lemma matches_finite:
  assumes "matches ts a m" and "machine_inv m"
  shows "dom (cm_senders (rs_connections (lk_room a))) \<subseteq> dom (mc_names m)"
    and "any_order (cm_senders (rs_connections (lk_room a))) order \<Longrightarrow>
      iteration_order (cm_senders (rs_connections (lk_room a))) order"
    and "any_order (ss_sessions (rs_sessions (lk_room a))) order \<Longrightarrow>
      iteration_order (ss_sessions (rs_sessions (lk_room a))) order"
  using assms machine_inv_finite [OF assms(2)] by (auto simp: matches_def any_order_def)

subsection \<open>Sections\<close>

lemma matches_join:
  assumes match: "matches ts a m" and inv: "machine_inv m"
    and site: "mc_tasks m u = None" "mc_names m u = None" "rt_users (lk_ctl a) u = Some name"
      "rt_outbox (lk_ctl a) u = Some tx" "username_ok name" and t: "t \<le> lk_now a"
  shows "\<exists>m'. machine_step ts m m' \<and>
    matches ts (a\<lparr>lk_room := register t u name tx (lk_room a), lk_prog := (lk_prog a)(Conn u \<mapsto> Done (At Joined))\<rparr>) m'"
    (is "\<exists>m'. _ \<and> matches ts ?a m'")
proof -
  let ?m = "m\<lparr>mc_room := register t u name tx (mc_room m),
      mc_tasks := (mc_tasks m)(u \<mapsto> \<lparr>tk_username = name, tk_stage = Joined\<rparr>),
      mc_names := (mc_names m)(u \<mapsto> name)\<rparr>"
  have room: "mc_room m = lk_room a" "mc_now m = lk_now a" using match by (simp_all add: matches_def)
  have ok: "outboxes_ok (lk_ctl a) (cm_senders (rs_connections (lk_room a)))"
    using match by (simp add: matches_def)
  have "tx \<notin> ran (cm_senders (rs_connections (lk_room a)))"
  proof
    assume "tx \<in> ran (cm_senders (rs_connections (lk_room a)))"
    then obtain v where v: "cm_senders (rs_connections (lk_room a)) v = Some tx" by (auto simp: ran_def)
    with ok have "rt_outbox (lk_ctl a) v = Some tx"
      unfolding outboxes_ok_def map_le_def by (metis domI)
    with ok site(4) have "v = u" unfolding outboxes_ok_def inj_on_def by (metis domI)
    with v site(2) matches_finite(1) [OF match inv] show False by blast
  qed
  then have "machine_step ts m ?m" using site t room by (intro machine_step.join) auto
  moreover have "outboxes_ok (lk_ctl a) ((cm_senders (rs_connections (lk_room a)))(u \<mapsto> tx))"
    using ok site(4) by (auto simp: outboxes_ok_def map_le_def)
  moreover have "conn_site ts u (Some name) (Some tx) (Some (Done (At Joined)))
      (Some \<lparr>tk_username = name, tk_stage = Joined\<rparr>) (Some name)"
    by (rule cs_rest) simp_all
  ultimately show ?thesis
    using match site conns_match_upd [of ts "lk_ctl a" "lk_prog a" "mc_tasks m" "mc_names m" u]
    by (intro exI [of _ ?m]) (simp add: matches_def room store_simps)
qed

lemma matches_conn_section:
  assumes match: "matches ts a m" and inv: "machine_inv m" and p0: "lk_prog a (Conn u) = Some p0"
    and sec: "section_result (lk_now a) (lk_room a) p0 r' q"
  shows "\<exists>m'. machine_step ts m m' \<and> matches ts (a\<lparr>lk_room := r', lk_prog := (lk_prog a)(Conn u \<mapsto> q)\<rparr>) m'"
proof -
  have room: "mc_room m = lk_room a" "mc_now m = lk_now a" "mc_chan m = lk_chan a"
    and conns: "conns_match ts (lk_ctl a) (lk_prog a) (mc_tasks m) (mc_names m)"
    using match by (simp_all add: matches_def)
  note lock = section_not_lock [OF sec]
  from conns_matchD [OF conns, of u] show ?thesis
    unfolding p0
  proof cases
    case (cs_joining name tx)
    then have "section_result (lk_now a) (lk_room a) (join_site u name tx) r' q" using sec by simp
    from section_join [OF this] obtain t where "t \<le> lk_now a" "r' = register t u name tx (lk_room a)"
      "q = Done (At Joined)" by blast
    with matches_join [OF match inv _ _ _ _ cs_joining(6)] cs_joining show ?thesis by simp
  next
    case (cs_welcome tk)
    from section_welcome [OF sec [unfolded cs_welcome(1)]]
    obtain h where q: "q = Done (Welcomed h)" "r' = lk_room a" by blast
    have site: "conn_site ts u (rt_users (lk_ctl a) u) (rt_outbox (lk_ctl a) u) (Some q) (mc_tasks m u) (mc_names m u)"
      unfolding q using cs_welcome by (simp add: conn_site.cs_welcomed)
    have "matches ts (a\<lparr>lk_room := r', lk_prog := (lk_prog a)(Conn u \<mapsto> q)\<rparr>) m"
      by (rule matches_upd [OF match, of _ u "Some q" _ "mc_tasks m u"])
        (use site q in \<open>simp_all add: room\<close>)
    moreover have "machine_step ts m m" using machine_step.tick [of m "mc_now m"] by simp
    ultimately show ?thesis by blast
  next
    case (cs_touch tk msg)
    let ?m = "m\<lparr>mc_room := (mc_room m)\<lparr>rs_sessions := ss_touch (mc_now m) u (rs_sessions (mc_room m))\<rparr>,
      mc_tasks := at_stage u tk (Handling msg) (mc_tasks m)\<rparr>"
    have "machine_step ts m ?m" using cs_touch by (intro machine_step.receive) simp_all
    moreover have "r' = (lk_room a)\<lparr>rs_sessions := ss_touch (lk_now a) u (rs_sessions (lk_room a))\<rparr>"
      "q = Done (At (Handling msg))"
      using section_touch [OF sec [unfolded cs_touch(1)]] by simp_all
    ultimately show ?thesis
      using cs_touch
      by (intro exI [of _ ?m] conjI matches_upd [OF match, of _ u "Some q" _ "Some (tk\<lparr>tk_stage := Handling msg\<rparr>)"])
        (auto simp: room at_stage_upd intro!: conn_site.cs_rest)
  next
    case (cs_block tk)
    from section_stage [OF sec [unfolded cs_block(1)], where w = "lk_chan a"]
    obtain order stage' where o: "any_order (cm_senders (rs_connections (lk_room a))) order"
      and q: "q = Done (At stage')"
      and block: "task_block ts (lk_now a) order u (tk_username tk) (tk_stage tk, lk_room a, lk_chan a) =
        (stage', r', lk_chan a)" by blast
    let ?m = "m\<lparr>mc_room := r', mc_chan := lk_chan a, mc_tasks := at_stage u tk stage' (mc_tasks m),
      mc_log := mc_log m @ announced u (tk_username tk) (tk_stage tk),
      mc_sent := delivered ts (tk_stage tk) (mc_chan m) (mc_sent m)\<rparr>"
    have "machine_step ts m ?m"
      using cs_block block matches_finite(2) [OF match inv o] by (intro machine_step.block) (simp_all add: room)
    with cs_block q task_block_senders [OF block] show ?thesis
      by (intro exI [of _ ?m] conjI matches_upd [OF match, of _ u "Some q" _ "Some (tk\<lparr>tk_stage := stage'\<rparr>)"])
        (auto simp: room at_stage_upd intro!: conn_site.cs_rest)
  next
    case (cs_leave tk)
    from section_leave [OF sec [unfolded cs_leave(1)]]
    have q: "r' = unregister u (lk_room a)" "q = Done Left" by simp_all
    let ?m = "m\<lparr>mc_room := unregister u (mc_room m), mc_tasks := (mc_tasks m)(u := None)\<rparr>"
    have "machine_step ts m ?m" using cs_leave by (intro machine_step.leave) simp_all
    with cs_leave q show ?thesis
      by (intro exI [of _ ?m] conjI matches_upd [OF match, of _ u "Some q" _ None])
        (auto simp: room store_simps map_le_None intro!: conn_site.cs_left)
  qed (use lock in auto)
qed

lemma matches_sweep_section:
  assumes match: "matches ts a m" and inv: "machine_inv m" and p0: "lk_prog a Sweeper = Some p0"
    and sec: "section_result (lk_now a) (lk_room a) p0 r' q"
  shows "\<exists>m'. machine_step ts m m' \<and> matches ts (a\<lparr>lk_room := r', lk_prog := (lk_prog a)(Sweeper \<mapsto> q)\<rparr>) m'"
proof -
  have room: "mc_room m = lk_room a" "mc_now m = lk_now a" "mc_chan m = lk_chan a"
    and sweep: "sweep_site (lk_prog a Sweeper) (mc_sweep m)"
    and conns: "conns_match ts (lk_ctl a) (lk_prog a) (mc_tasks m) (mc_names m)"
    using match by (simp_all add: matches_def)
  have conns': "conns_match ts (lk_ctl a) ((lk_prog a)(Sweeper \<mapsto> x)) (mc_tasks m) (mc_names m)" for x
    using conns by (simp add: conns_match_def)
  note lock = section_not_lock [OF sec]
  from sweep show ?thesis
    unfolding p0
  proof cases
    case 2
    from section_stale [OF sec [unfolded 2(1)]] obtain order where
      o: "any_order (ss_sessions (rs_sessions (lk_room a))) order" and r': "r' = lk_room a"
      and q: "q = Done (Stale (ss_stale (lk_now a) order (rs_sessions (lk_room a))))" by blast
    let ?m = "m\<lparr>mc_sweep := ss_stale (mc_now m) order (rs_sessions (mc_room m))\<rparr>"
    have "machine_step ts m ?m"
      using 2 matches_finite(3) [OF match inv o] by (intro machine_step.sweep_read) (simp_all add: room)
    with match r' q conns' show ?thesis
      by (intro exI [of _ ?m]) (simp add: matches_def sweep_site.intros)
  next
    case 4
    then have "section_result (lk_now a) (lk_room a) (evict_site (mc_sweep m)) r' q" using sec by simp
    from section_evict [OF this]
    have q: "r' = evict_sessions (mc_sweep m) (lk_room a)" "q = Done Swept" by simp_all
    let ?m = "m\<lparr>mc_room := evict_sessions (mc_sweep m) (mc_room m), mc_sweep := []\<rparr>"
    have "machine_step ts m ?m" by (rule machine_step.sweep_evict)
    moreover have "cm_senders (rs_connections (evict_sessions (mc_sweep m) (lk_room a)))
        \<subseteq>\<^sub>m cm_senders (rs_connections (lk_room a))"
      by (auto simp: map_le_def evict_sessions_stores split: if_splits)
    then have "outboxes_ok (lk_ctl a) (cm_senders (rs_connections (evict_sessions (mc_sweep m) (lk_room a))))"
      using match by (auto simp: matches_def outboxes_ok_def intro: map_le_trans)
    ultimately show ?thesis
      using match q conns' by (intro exI [of _ ?m]) (simp add: matches_def sweep_site.intros)
  qed (use lock in auto)
qed

subsection \<open>Sends and the choice of the next site\<close>

lemma stage_send:
  assumes "stage_site ts u name stage = OnChannels f" and "f w = (w', p)"
  shows "\<exists>stage'. p = Done (At stage') \<and> task_block ts now order u name (stage, room, w) = (stage', room, w')"
proof (cases "(ts, u, name, stage)" rule: stage_site.cases)
  case (6 ts' u' name' f' v tx snapshot dead)
  with assms show ?thesis by (auto split: prod.splits send_outcome.splits)
qed (use assms in \<open>auto split: client_frame.splits if_splits\<close>)

lemma stage_rest:
  assumes "at_rest (Some (stage_site ts u name stage))" and "handling stage"
  shows "\<exists>stage'. stage_site ts u name stage = Done (At stage') \<and>
    task_block ts now order u name (stage, room, w) = (stage', room, w)"
proof (cases "(ts, u, name, stage)" rule: stage_site.cases)
  case (1 ts' u' name' msg)
  with assms show ?thesis by (cases msg) (auto simp: at_rest_def split: if_splits)
qed (use assms in \<open>auto simp: at_rest_def handling_def split: if_splits\<close>)

lemma matches_block:
  assumes match: "matches ts a m" and inv: "machine_inv m" and tk: "mc_tasks m u = Some tk"
    "mc_names m u = Some (tk_username tk)" "rt_users (lk_ctl a) u = Some (tk_username tk)"
    and block: "\<And>order. task_block ts (lk_now a) order u (tk_username tk) (tk_stage tk, lk_room a, lk_chan a) =
      (stage', lk_room a, w)"
  shows "\<exists>m'. machine_step ts m m' \<and>
    matches ts (a\<lparr>lk_chan := w, lk_prog := (lk_prog a)(Conn u \<mapsto> Done (At stage'))\<rparr>) m'"
proof -
  have room: "mc_room m = lk_room a" "mc_now m = lk_now a" "mc_chan m = lk_chan a"
    using match by (simp_all add: matches_def)
  obtain order where "any_order (cm_senders (rs_connections (lk_room a))) order"
    using any_order_exists by blast
  note order = matches_finite(2) [OF match inv this]
  let ?m = "m\<lparr>mc_room := lk_room a, mc_chan := w, mc_tasks := at_stage u tk stage' (mc_tasks m),
    mc_log := mc_log m @ announced u (tk_username tk) (tk_stage tk),
    mc_sent := delivered ts (tk_stage tk) (mc_chan m) (mc_sent m)\<rparr>"
  have "machine_step ts m ?m"
    using tk(1) block order by (intro machine_step.block) (simp_all add: room)
  with tk show ?thesis
    by (intro exI [of _ ?m] conjI
        matches_upd [OF match, of _ u "Some (Done (At stage'))" _ "Some (tk\<lparr>tk_stage := stage'\<rparr>)"])
      (auto simp: room at_stage_upd intro!: conn_site.cs_rest)
qed

lemma matches_send:
  assumes match: "matches ts a m" and inv: "machine_inv m"
    and k: "lk_prog a k = Some (OnChannels f)" "f (lk_chan a) = (w, p)"
  shows "\<exists>m'. machine_step ts m m' \<and> matches ts (a\<lparr>lk_chan := w, lk_prog := (lk_prog a)(k \<mapsto> p)\<rparr>) m'"
proof (cases k)
  case (Conn u)
  have "conn_site ts u (rt_users (lk_ctl a) u) (rt_outbox (lk_ctl a) u) (Some (OnChannels f)) (mc_tasks m u) (mc_names m u)"
    using matches_conn [OF match, of u] k(1) Conn by simp
  then show ?thesis
  proof cases
    case (cs_block tk)
    obtain stage' where p: "p = Done (At stage')"
      using stage_send [of ts u "tk_username tk" "tk_stage tk" f, OF _ k(2)] cs_block(1) by metis
    have "task_block ts (lk_now a) order u (tk_username tk) (tk_stage tk, lk_room a, lk_chan a) =
        (stage', lk_room a, w)" for order
      using stage_send [of ts u "tk_username tk" "tk_stage tk" f, OF _ k(2), of "lk_now a" order "lk_room a"]
        cs_block(1) p by auto
    with matches_block [OF match inv, of u tk stage' w] cs_block Conn p show ?thesis by simp
  qed (simp_all add: site_defs)
next
  case Sweeper
  with match k(1) have "sweep_site (Some (OnChannels f)) (mc_sweep m)" by (simp add: matches_def)
  then show ?thesis by cases (simp_all add: site_defs)
qed

lemma matches_still:
  assumes "matches ts a m"
    and "conn_site ts u (rt_users (lk_ctl a) u) (rt_outbox (lk_ctl a) u) x (mc_tasks m u) (mc_names m u)"
  shows "matches ts (a\<lparr>lk_prog := (lk_prog a)(Conn u := x)\<rparr>) m"
  by (rule matches_upd [OF assms(1) _ _ _ assms(2)]) (use assms(1) in \<open>simp_all add: matches_def\<close>)

lemma matches_start:
  assumes match: "matches ts a m" and inv: "machine_inv m" and u: "lk_prog a (Conn u) = None"
    "rt_users (lk_ctl a) u = None" "tx \<notin> ran (rt_outbox (lk_ctl a))" "username_ok name"
  shows "matches ts (a\<lparr>lk_ctl := (lk_ctl a)\<lparr>rt_users := (rt_users (lk_ctl a))(u \<mapsto> name),
      rt_outbox := (rt_outbox (lk_ctl a))(u \<mapsto> tx)\<rparr>,
    lk_prog := (lk_prog a)(Conn u \<mapsto> join_site u name tx)\<rparr>) m" (is "matches ts ?a m")
proof -
  have conns: "conns_match ts (lk_ctl a) (lk_prog a) (mc_tasks m) (mc_names m)"
    using match by (simp add: matches_def)
  from conns_matchD [OF conns, of u] u have none: "mc_tasks m u = None" "mc_names m u = None"
    by (auto elim: conn_site.cases)
  then have "conns_match ts (lk_ctl ?a) (lk_prog ?a) (mc_tasks m) (mc_names m)"
    using conns u(4) by (auto simp: conns_match_def intro: conn_site.cs_joining)
  moreover have "outboxes_ok (lk_ctl ?a) (cm_senders (rs_connections (lk_room a)))"
  proof -
    have "cm_senders (rs_connections (lk_room a)) u = None"
      using matches_finite(1) [OF match inv] none(2) by blast
    then show ?thesis
      using match u(3) by (auto simp: matches_def outboxes_ok_def map_le_def inj_on_def ran_def)
  qed
  ultimately show ?thesis using match by (simp add: matches_def)
qed

lemma matches_conn_control:
  assumes match: "matches ts a m" and inv: "machine_inv m"
    and ctl: "room_control ts (lk_ctl a) (Conn u) (lk_prog a (Conn u)) c x"
  shows "\<exists>m'. (machine_step ts)\<^sup>*\<^sup>* m m' \<and>
    matches ts (a\<lparr>lk_ctl := c, lk_prog := (lk_prog a)(Conn u := x)\<rparr>) m'"
proof -
  have site: "conn_site ts u (rt_users (lk_ctl a) u) (rt_outbox (lk_ctl a) u) (lk_prog a (Conn u))
      (mc_tasks m u) (mc_names m u)"
    by (rule matches_conn [OF match])
  have room: "mc_room m = lk_room a" "mc_now m = lk_now a" "mc_chan m = lk_chan a"
    using match by (simp_all add: matches_def)
  note still = matches_still [OF match]
  from ctl show ?thesis
  proof cases
    case (rc_join tx name)
    with matches_start [OF match inv] show ?thesis by auto
  next
    case rc_welcome
    with conn_site_rest(1) site still [of u "Some welcome_site"] show ?thesis
      by (fastforce intro: conn_site.cs_welcome)
  next
    case (rc_welcome_sent h)
    with site obtain tk where tk: "mc_tasks m u = Some tk" "tk_stage tk = Joined"
      "rt_users (lk_ctl a) u = Some (tk_username tk)" "mc_names m u = Some (tk_username tk)"
      using conn_site_rest(2) by metis
    have "machine_step ts m (m\<lparr>mc_tasks := at_stage u tk Ready (mc_tasks m)\<rparr>)"
      using tk by (intro machine_step.welcomed)
    with rc_welcome_sent tk show ?thesis
      by (intro exI [of _ "m\<lparr>mc_tasks := at_stage u tk Ready (mc_tasks m)\<rparr>"] conjI r_into_rtranclp
          matches_upd [OF match, of _ u x _ "Some (tk\<lparr>tk_stage := Ready\<rparr>)"])
        (auto simp: room at_stage_upd intro!: conn_site.cs_rest)
  next
    case (rc_welcome_lost h)
    with site obtain tk where tk: "mc_tasks m u = Some tk" "tk_stage tk = Joined"
      "rt_users (lk_ctl a) u = Some (tk_username tk)" "mc_names m u = Some (tk_username tk)"
      using conn_site_rest(2) by metis
    have "machine_step ts m (m\<lparr>mc_tasks := (mc_tasks m)(u := None)\<rparr>)"
      using tk by (intro machine_step.welcome_failed)
    with rc_welcome_lost tk show ?thesis
      by (intro exI [of _ "m\<lparr>mc_tasks := (mc_tasks m)(u := None)\<rparr>"] conjI r_into_rtranclp
          matches_upd [OF match, of _ u x _ None])
        (auto simp: room intro!: conn_site.cs_none)
  next
    case (rc_receive msg)
    with conn_site_rest(1) site still [of u "Some (touch_site u msg)"] show ?thesis
      by (fastforce intro: conn_site.cs_touch)
  next
    case rc_stop
    with site obtain tk where tk: "mc_tasks m u = Some tk" "tk_stage tk = Ready"
      "rt_users (lk_ctl a) u = Some (tk_username tk)" "mc_names m u = Some (tk_username tk)"
      using conn_site_rest(1) by metis
    have "machine_step ts m (m\<lparr>mc_tasks := at_stage u tk Leaving (mc_tasks m)\<rparr>)"
      using tk by (intro machine_step.stop)
    with rc_stop tk show ?thesis
      by (intro exI [of _ "m\<lparr>mc_tasks := at_stage u tk Leaving (mc_tasks m)\<rparr>"] conjI r_into_rtranclp
          matches_upd [OF match, of _ u x _ "Some (tk\<lparr>tk_stage := Leaving\<rparr>)"])
        (auto simp: room at_stage_upd intro!: conn_site.cs_rest)
  next
    case (rc_handle name stage)
    with site obtain tk where tk: "mc_tasks m u = Some tk" "tk_stage tk = stage"
      "rt_users (lk_ctl a) u = Some (tk_username tk)" "mc_names m u = Some (tk_username tk)"
      using conn_site_rest(1) by metis
    with rc_handle have name: "name = tk_username tk" by simp
    show ?thesis
    proof (cases "at_rest (Some (stage_site ts u name stage))")
      case False
      with still [of u "Some (stage_site ts u name stage)"] conn_site.cs_block [of ts u tk] tk name rc_handle
      show ?thesis by auto
    next
      case True
      from stage_rest [OF this rc_handle(5), of "lk_now a"]
      obtain stage' where "stage_site ts u name stage = Done (At stage')"
        "\<And>order. task_block ts (lk_now a) order u name (stage, lk_room a, lk_chan a) =
          (stage', lk_room a, lk_chan a)"
        by (metis phase.inject(1) prog.inject(1))
      with matches_block [OF match inv, of u tk stage' "lk_chan a"] tk name rc_handle show ?thesis by auto
    qed
  next
    case rc_leave
    with conn_site_rest(1) site still [of u "Some (leave_site u)"] show ?thesis
      by (fastforce intro: conn_site.cs_leave)
  next
    case rc_left
    with conn_site_rest(3) site still [of u None] show ?thesis
      by (fastforce intro: conn_site.cs_none)
  qed
qed

lemma matches_sweep_control:
  assumes match: "matches ts a m" and ctl: "room_control ts (lk_ctl a) Sweeper (lk_prog a Sweeper) c x"
  shows "matches ts (a\<lparr>lk_ctl := c, lk_prog := (lk_prog a)(Sweeper := x)\<rparr>) m"
proof -
  have c: "c = lk_ctl a" using ctl by cases simp_all
  have "sweep_site (lk_prog a Sweeper) (mc_sweep m)" using match by (simp add: matches_def)
  with ctl have "sweep_site x (mc_sweep m)"
    by cases (auto dest!: sweep_site_rest intro: sweep_site.intros)
  with match c show ?thesis by (simp add: matches_def conns_match_def)
qed

section \<open>Every run of the machine with locks\<close>

lemma matches_step:
  assumes "atomic_step (room_control ts) a a'" and match: "matches ts a m" and inv: "machine_inv m"
  shows "\<exists>m'. (machine_step ts)\<^sup>*\<^sup>* m m' \<and> matches ts a' m'"
  using assms(1)
proof cases
  case (critical k p0 H p r l order r' p')
  then have sec: "section_result (lk_now a) (lk_room a) p0 r' (strip p')"
    unfolding section_result_def by blast
  show ?thesis
  proof (cases k)
    case (Conn u)
    with matches_conn_section [OF match inv _ sec] critical(1,2) show ?thesis by blast
  next
    case Sweeper
    with matches_sweep_section [OF match inv _ sec] critical(1,2) show ?thesis by blast
  qed
next
  case (send k f w p')
  with matches_send [OF match inv] show ?thesis by blast
next
  case (tick t)
  have "machine_step ts m (m\<lparr>mc_now := t\<rparr>)"
    by (rule machine_step.tick) (use match tick in \<open>simp add: matches_def\<close>)
  with match tick show ?thesis
    by (intro exI [of _ "m\<lparr>mc_now := t\<rparr>"] conjI r_into_rtranclp) (simp_all add: matches_def)
next
  case (drain w)
  have "machine_step ts m (m\<lparr>mc_chan := w\<rparr>)" by (rule machine_step.drain)
  with match drain show ?thesis
    by (intro exI [of _ "m\<lparr>mc_chan := w\<rparr>"] conjI r_into_rtranclp) (simp_all add: matches_def)
next
  case (control k c x)
  show ?thesis
  proof (cases k)
    case (Conn u)
    with matches_conn_control [OF match inv] control show ?thesis by blast
  next
    case Sweeper
    with matches_sweep_control [OF match] control show ?thesis by blast
  qed
qed

lemma reachable_steps: "(machine_step ts)\<^sup>*\<^sup>* m m' \<Longrightarrow> reachable ts m0 m \<Longrightarrow> reachable ts m0 m'"
  by (induction rule: rtranclp_induct) (auto intro: reachable.step)

lemma atomic_reachable:
  assumes "(atomic_step (room_control ts))\<^sup>*\<^sup>* a0 a" and "matches ts a0 (machine_init room_id salt psk w)"
  shows "\<exists>m. reachable ts (machine_init room_id salt psk w) m \<and> matches ts a m"
  using assms(1)
proof (induction rule: rtranclp_induct)
  case base
  show ?case using assms(2) reachable.start by blast
next
  case (step a1 a2)
  then obtain m where m: "reachable ts (machine_init room_id salt psk w) m" "matches ts a1 m" by blast
  from matches_step [OF step(2) m(2) reachable_machine_inv [OF m(1)]] reachable_steps [OF _ m(1)]
  show ?case by blast
qed

lemma matches_init: "matches ts (locked_init room_id salt psk w) (machine_init room_id salt psk w)"
  by (simp add: matches_def locked_init_def machine_init_def conns_match_def outboxes_ok_def
      room_state_new_def conn_site.cs_none sweep_site.intros)

lemma simulates_init: "simulates (locked_init room_id salt psk w) (locked_init room_id salt psk w)"
  using lock_inv_init [of room_id salt psk w]
  by (simp add: simulates_def task_matches_def locked_init_def)

text \<open>So a state that the machine with locks can reach looks, as far as it is not locked, like one that
  the room machine can reach.\<close>

lemma locked_reachable:
  assumes "(lock_step (room_control ts))\<^sup>*\<^sup>* (locked_init room_id salt psk w) s"
  obtains m where "reachable ts (machine_init room_id salt psk w) m" "mc_chan m = lk_chan s"
    "mc_now m = lk_now s" "\<And>l. lk_owner s l = None \<Longrightarrow> same_part l (mc_room m) (lk_room s)"
    "lk_owner s = Map.empty \<Longrightarrow> mc_room m = lk_room s"
    "\<And>u stage. lk_prog s (Conn u) = Some (Done (At stage)) \<Longrightarrow>
      \<exists>tk. mc_tasks m u = Some tk \<and> tk_stage tk = stage"
proof -
  obtain a where a: "(atomic_step (room_control ts))\<^sup>*\<^sup>* (locked_init room_id salt psk w) a" "simulates s a"
    using simulates_run [OF assms room_control_disciplined simulates_init] by blast
  obtain m where m: "reachable ts (machine_init room_id salt psk w) m" "matches ts a m"
    using atomic_reachable [OF a(1) matches_init] by blast
  have "same_part l (mc_room m) (lk_room s)" if "lk_owner s l = None" for l
  proof -
    have "settled s l" using that by (simp add: settled_def)
    with simulatesD(6) [OF a(2)] m(2) show ?thesis by (simp add: matches_def same_part_sym)
  qed
  moreover have "mc_room m = lk_room s" if "lk_owner s = Map.empty"
    using simulates_unlocked(1) [OF a(2) that] m(2) by (simp add: matches_def)
  moreover have "\<exists>tk. mc_tasks m u = Some tk \<and> tk_stage tk = stage"
    if prog: "lk_prog s (Conn u) = Some (Done (At stage))" for u stage
  proof -
    have "held s (Conn u) = {}" using at_rest_held [OF simulatesD(1) [OF a(2)]] prog by simp
    with simulatesD(7) [OF a(2), of "Conn u"] prog have "lk_prog a (Conn u) = Some (Done (At stage))"
      by (simp add: task_matches_def)
    with matches_conn [OF m(2), of u] conn_site_rest(1) show ?thesis by metis
  qed
  ultimately show thesis
    using that [OF m(1)] m(2) simulatesD(2,3) [OF a(2)] by (simp add: matches_def)
qed

end
