(* ===== verification/SweepRace.thy ===== *)
theory SweepRace
  imports LockRefinement
begin

text \<open>
  The gap in \<^verbatim>\<open>sweeper\<close> of \<^verbatim>\<open>src/server/mod.rs\<close>: the sessions are unlocked between reading the stale ids
  and removing them. A user who becomes active in the gap is removed all the same.
\<close>

lemma finite_names:
  "reachable ts (machine_init room_id salt psk w) m \<Longrightarrow> finite (dom (mc_names m))"
proof (induction rule: reachable.induct)
  case (step m m')
  from step.hyps(2) step.IH show ?case by cases simp_all
qed (simp add: machine_init_def)

text \<open>Without a session, every frame ends the connection.\<close>

lemma frame_without_session:
  "ss_sessions (rs_sessions room) u = None \<Longrightarrow>
     fst (task_block ts t order u name (Handling f, room, w)) = Leaving"
  by (cases f) (auto simp: try_advance_counter_def try_consume_clear_def split: prod.split)

lemma evicted_while_active:
  assumes reach: "reachable ts (machine_init room_id salt psk w) m" and idle: "mc_sweep m = []"
    and task: "mc_tasks m u = Some tk" "tk_stage tk = Ready"
    and sess: "ss_sessions (rs_sessions (mc_room m)) u = Some s"
    and stale: "ss_timeout (rs_sessions (mc_room m)) < duration_since (mc_now m) (us_last_active s)"
  shows "\<exists>m1 m2. reachable ts (machine_init room_id salt psk w) m1 \<and> machine_step ts m1 m2 \<and>
    ss_sessions (rs_sessions (mc_room m1)) u = Some (s\<lparr>us_last_active := mc_now m1\<rparr>) \<and>
    ss_sessions (rs_sessions (mc_room m2)) u = None \<and>
    cm_senders (rs_connections (mc_room m2)) u = None \<and>
    mc_tasks m2 u = Some (tk\<lparr>tk_stage := Handling f\<rparr>) \<and>
    fst (task_block ts t order u name (Handling f, mc_room m2, w')) = Leaving"
proof -
  have "finite (dom (ss_sessions (rs_sessions (mc_room m))))"
    by (rule machine_inv_finite(3) [OF reachable_machine_inv [OF reach] finite_names [OF reach]])
  with finite_distinct_list obtain ids where ids: "iteration_order (ss_sessions (rs_sessions (mc_room m))) ids"
    unfolding iteration_order_def by metis
  let ?stale = "ss_stale (mc_now m) ids (rs_sessions (mc_room m))"
  let ?m0 = "m\<lparr>mc_sweep := ?stale\<rparr>"
  let ?m1 = "?m0\<lparr>mc_room := (mc_room ?m0)\<lparr>rs_sessions := ss_touch (mc_now ?m0) u (rs_sessions (mc_room ?m0))\<rparr>,
    mc_tasks := at_stage u tk (Handling f) (mc_tasks ?m0)\<rparr>"
  let ?m2 = "?m1\<lparr>mc_room := evict_sessions (mc_sweep ?m1) (mc_room ?m1), mc_sweep := []\<rparr>"
  have "machine_step ts m ?m0" by (rule machine_step.sweep_read [OF idle ids])
  moreover have "machine_step ts ?m0 ?m1" by (rule machine_step.receive) (use task in simp_all)
  ultimately have m1: "reachable ts (machine_init room_id salt psk w) ?m1"
    using reach by (meson reachable.step)
  have m2: "machine_step ts ?m1 ?m2" by (rule machine_step.sweep_evict)
  have "u \<in> set ?stale" using set_ss_stale [OF ids] sess stale by blast
  then have gone: "ss_sessions (rs_sessions (mc_room ?m2)) u = None"
    "cm_senders (rs_connections (mc_room ?m2)) u = None"
    by (simp_all add: evict_sessions_stores)
  have "ss_sessions (rs_sessions (mc_room ?m1)) u = Some (s\<lparr>us_last_active := mc_now ?m1\<rparr>)"
    using sess by (simp add: ss_touch_def)
  moreover have "mc_tasks ?m2 u = Some (tk\<lparr>tk_stage := Handling f\<rparr>)" by (simp add: at_stage_def)
  ultimately show ?thesis
    using m1 m2 gone frame_without_session [OF gone(1)] by (intro exI [of _ ?m1] exI [of _ ?m2] conjI)
qed

end
