(* ===== verification/Times.thy ===== *)
theory Times
  imports ServerMain
begin

text \<open>
  The two timers of \<^verbatim>\<open>src/server/mod.rs\<close>: how long an unauthenticated connection may take, and how soon
  the sweeper finds a silent user. The timers of tokio are parameters; what is used of them is what
  their documentation says of \<^verbatim>\<open>timeout\<close> and \<^verbatim>\<open>interval\<close>.
\<close>

definition SWEEP_INTERVAL :: duration where "SWEEP_INTERVAL = from_secs 300"

section \<open>The unauthenticated phase\<close>

text \<open>Each phase takes no longer than its read may, and its sends do. A refusal ends the phases, so that
  there is one at most.\<close>

lemma select_within:
  assumes "co_refusal_send orc = Some b"
  shows "within (HANDSHAKE_TIMEOUT + b) (fst (select_phase env orc s))"
    and "snd (select_phase env orc s) = (Inr name, s') \<Longrightarrow> within HANDSHAKE_TIMEOUT (fst (select_phase env orc s))"
proof -
  let ?t = "timeout HANDSHAKE_TIMEOUT (wt_dropped (co_select orc))
    (takes (wt_takes (co_select orc)) (recv_postcard (se_stream env) (se_from_bytes env) s))"
  have "within b (Some (0 :: nat))" by simp
  with assms show "within (HANDSHAKE_TIMEOUT + b) (fst (select_phase env orc s))"
    by (auto simp: select_phase_def intro!: in_total_within timeout_within within_mono [OF timeout_within]
        split: prod.split option.split sum.split client_frame.split)
  show "within HANDSHAKE_TIMEOUT (fst (select_phase env orc s))"
    if "snd (select_phase env orc s) = (Inr name, s')"
    using that by (auto simp: select_phase_def timeout_within
        split: prod.splits option.splits sum.splits client_frame.splits if_splits)
qed

lemma handshake_within:
  "co_hello_send orc = Some a \<Longrightarrow> within (a + HANDSHAKE_TIMEOUT) (fst (handshake_phase env orc room s))"
  by (auto simp: handshake_phase_def Let_def intro!: in_total_within timeout_within
      split: prod.split option.split sum.split)

lemma hello_within:
  assumes "co_refusal_send orc = Some b"
  shows "within (HANDSHAKE_TIMEOUT + b) (fst (hello_phase env orc s t))"
  using assms by (auto simp: hello_phase_def refuse_hello_def intro!: in_total_within timeout_within
      within_mono [OF timeout_within] split: prod.split option.split sum.split client_frame.split)

lemma authenticate_within:
  assumes "co_hello_send orc = Some a" and "co_refusal_send orc = Some b"
  shows "within (3 * HANDSHAKE_TIMEOUT + a + b) (fst (authenticate_timed env orc hub s))"
proof -
  let ?T = "\<lambda>name s. case find_room orc hub name of
      Inl e \<Rightarrow> at_once (Inl e, s)
    | Inr room \<Rightarrow> followed_by (handshake_phase env orc room s) (\<lambda>r. case r of
        (Inl e, s) \<Rightarrow> at_once (Inl e, s)
      | (Inr t, s) \<Rightarrow> followed_by (hello_phase env orc s t) (\<lambda>r. case r of
          (Inl e, s, t) \<Rightarrow> at_once (Inl e, s)
        | (Inr username, s, t) \<Rightarrow> at_once (Inr (room, username, t), s)))"
  have hello: "within (HANDSHAKE_TIMEOUT + b) (fst (followed_by (hello_phase env orc s t) (\<lambda>r. case r of
          (Inl e, s, t) \<Rightarrow> at_once (Inl e, s)
        | (Inr username, s, t) \<Rightarrow> at_once (Inr (room, username, t), s))))" for s t room
    using hello_within [OF assms(2), of env s t] by (auto split: prod.split sum.split)
  have rest: "within (a + HANDSHAKE_TIMEOUT + (HANDSHAKE_TIMEOUT + b)) (fst (?T name s))" for name s
    using hello handshake_within [OF assms(1)]
    by (auto intro!: in_total_within within_mono [OF handshake_within [OF assms(1)]]
        simp del: timed_simps(5) simp: timed_simps(5) [of "handshake_phase env orc _ _"] split: prod.split sum.split)
  show ?thesis
  proof (cases "snd (select_phase env orc s)")
    case (Pair r s1)
    show ?thesis
    proof (cases r)
      case (Inl e)
      with Pair select_within(1) [OF assms(2), of env s] show ?thesis
        by (auto simp: authenticate_timed_def intro: within_mono)
    next
      case (Inr name)
      have "within (HANDSHAKE_TIMEOUT + (a + HANDSHAKE_TIMEOUT + (HANDSHAKE_TIMEOUT + b)))
          (in_total (fst (select_phase env orc s)) (fst (?T name s1)))"
        using select_within(2) [OF assms(2) Pair [unfolded Inr]] rest by (rule in_total_within)
      moreover have "HANDSHAKE_TIMEOUT + (a + HANDSHAKE_TIMEOUT + (HANDSHAKE_TIMEOUT + b)) =
          3 * HANDSHAKE_TIMEOUT + a + b" by simp
      ultimately show ?thesis
        unfolding authenticate_timed_def timed_simps(5) Pair Inr prod.case sum.case by (simp only:)
    qed
  qed
qed

text \<open>The slowest of the peers whose reads come in time, with sends that take no time.\<close>

definition slowest :: "('t, 's, 'tx, 'w) conn_oracle \<Rightarrow> ('t, 's, 'tx, 'w) conn_oracle" where
  "slowest orc = orc
     \<lparr>co_select := (co_select orc)\<lparr>wt_takes := Some HANDSHAKE_TIMEOUT\<rparr>, co_hello_send := Some 0,
      co_handshake := (co_handshake orc)\<lparr>wt_takes := Some HANDSHAKE_TIMEOUT\<rparr>,
      co_hello := (co_hello orc)\<lparr>wt_takes := Some HANDSHAKE_TIMEOUT\<rparr>\<rparr>"

lemma slowest_simps [simp]:
  "in_time (co_select (slowest orc))" "in_time (co_handshake (slowest orc))" "in_time (co_hello (slowest orc))"
  "wt_takes (co_select (slowest orc)) = Some HANDSHAKE_TIMEOUT"
  "wt_takes (co_handshake (slowest orc)) = Some HANDSHAKE_TIMEOUT"
  "wt_takes (co_hello (slowest orc)) = Some HANDSHAKE_TIMEOUT" "co_hello_send (slowest orc) = Some 0"
  "find_room (slowest orc) hub name = find_room orc hub name"
  by (simp_all add: slowest_def in_time_def find_room_def split: option.split)

lemma slowest_authenticates:
  assumes "authenticate env orc hub s = (Inr (room, username, t), s')"
  shows "authenticate env (slowest orc) hub s = (Inr (room, username, t), s')"
    and "fst (authenticate_timed env (slowest orc) hub s) = Some (3 * HANDSHAKE_TIMEOUT)"
proof -
  show "authenticate env (slowest orc) hub s = (Inr (room, username, t), s')"
    using assms unfolding authenticates by simp
  then obtain name s1 t1 s2 where ph: "snd (select_phase env (slowest orc) s) = (Inr name, s1)"
    "find_room (slowest orc) hub name = Inr room"
    "snd (handshake_phase env (slowest orc) room s1) = (Inr t1, s2)"
    "snd (hello_phase env (slowest orc) s2 t1) = (Inr username, s', t)"
    unfolding authenticate_Inr by blast
  have "fst (select_phase env (slowest orc) s) = Some HANDSHAKE_TIMEOUT"
    using ph(1) by (auto simp: select_phase_def split: prod.splits option.splits sum.splits client_frame.splits if_splits)
  moreover have "fst (handshake_phase env (slowest orc) room s1) = Some HANDSHAKE_TIMEOUT"
    using ph(3) by (auto simp: handshake_phase_def Let_def in_total_def split: prod.splits option.splits sum.splits)
  moreover have "fst (hello_phase env (slowest orc) s2 t1) = Some HANDSHAKE_TIMEOUT"
    using ph(4) by (auto simp: hello_phase_def refuse_hello_def split: prod.splits option.splits sum.splits client_frame.splits if_splits)
  ultimately show "fst (authenticate_timed env (slowest orc) hub s) = Some (3 * HANDSHAKE_TIMEOUT)"
    using ph by (simp add: authenticate_timed_def in_total_def)
qed

section \<open>The sweeper's interval\<close>

text \<open>The ticks of an interval that was started at \<open>start\<close> are due one period apart, the first, which is
  skipped, at once. A tick is handled when it is due or at most \<open>\<delta>\<close> later.\<close>

definition tick_due :: "instant \<Rightarrow> nat \<Rightarrow> instant" where
  "tick_due start k = start + k * SWEEP_INTERVAL"

fun on_time :: "instant \<Rightarrow> duration \<Rightarrow> nat \<Rightarrow> 'tx sweeper_turn list \<Rightarrow> bool" where
  "on_time start \<delta> k [] \<longleftrightarrow> True"
| "on_time start \<delta> k (SweeperCancelled # ts) \<longleftrightarrow> True"
| "on_time start \<delta> k (SweeperTick t visits # ts) \<longleftrightarrow>
     (\<forall>(n, now, order) \<in> set visits. tick_due start k \<le> now \<and> now \<le> tick_due start k + \<delta>) \<and>
     on_time start \<delta> (Suc k) ts"
| "on_time start \<delta> k (SweeperOthers hub # ts) \<longleftrightarrow> on_time start \<delta> k ts"

fun ticks :: "'tx sweeper_turn list \<Rightarrow> nat" where
  "ticks [] = 0"
| "ticks (SweeperTick t visits # ts) = Suc (ticks ts)"
| "ticks (turn # ts) = ticks ts"

text \<open>The sweeper's turns up to the moment \<open>now\<close>: no clock reading is later, and the ticks that had to be
  handled by then were.\<close>

fun read_before :: "instant \<Rightarrow> 'tx sweeper_turn \<Rightarrow> bool" where
  "read_before T (SweeperTick t visits) \<longleftrightarrow> (\<forall>(n, now, order) \<in> set visits. now \<le> T)"
| "read_before T turn \<longleftrightarrow> True"

definition timely :: "instant \<Rightarrow> duration \<Rightarrow> instant \<Rightarrow> 'tx sweeper_turn list \<Rightarrow> bool" where
  "timely start \<delta> now turns \<longleftrightarrow>
     on_time start \<delta> 1 turns \<and> (\<forall>turn \<in> set turns. read_before now turn) \<and>
     (\<forall>k. tick_due start k + \<delta> \<le> now \<longrightarrow> k \<le> ticks turns)"

text \<open>A tick visits every room, in an order the code cannot choose, and in it every session.\<close>

definition visits_ok :: "(str \<times> instant \<times> uuid list) list \<Rightarrow> 'tx server_hub \<Rightarrow> bool" where
  "visits_ok visits hub \<longleftrightarrow>
     distinct (map fst visits) \<and> fst ` set visits = dom (hub_rooms hub) \<and>
     (\<forall>(n, now, order) \<in> set visits. \<forall>room. hub_rooms hub n = Some room \<longrightarrow>
        iteration_order (ss_sessions (rs_sessions room)) order)"

text \<open>What the others do to a user who is silent: the session stays, the outbox may be dropped by a
  broadcast.\<close>

definition user_of :: "str \<Rightarrow> uuid \<Rightarrow> 'tx server_hub \<Rightarrow> user_session option" where
  "user_of n u hub = Option.bind (hub_rooms hub n) (\<lambda>room. ss_sessions (rs_sessions room) u)"

definition outbox_of :: "str \<Rightarrow> uuid \<Rightarrow> 'tx server_hub \<Rightarrow> 'tx option" where
  "outbox_of n u hub = Option.bind (hub_rooms hub n) (\<lambda>room. cm_senders (rs_connections room) u)"

definition room_timeout :: "str \<Rightarrow> 'tx server_hub \<Rightarrow> duration option" where
  "room_timeout n hub = map_option (\<lambda>room. ss_timeout (rs_sessions room)) (hub_rooms hub n)"

fun quiet :: "str \<Rightarrow> uuid \<Rightarrow> 'tx sweeper_turn list \<Rightarrow> 'tx server_hub \<Rightarrow> bool" where
  "quiet n u [] hub \<longleftrightarrow> True"
| "quiet n u (SweeperCancelled # ts) hub \<longleftrightarrow> True"
| "quiet n u (SweeperTick t visits # ts) hub \<longleftrightarrow>
     visits_ok visits hub \<and> quiet n u ts (sweeper_tick t visits hub)"
| "quiet n u (SweeperOthers hub' # ts) hub \<longleftrightarrow>
     room_timeout n hub' = room_timeout n hub \<and> user_of n u hub' = user_of n u hub \<and>
     (outbox_of n u hub' = None \<or> outbox_of n u hub' = outbox_of n u hub) \<and> quiet n u ts hub'"

text \<open>One tick, for one user.\<close>

lemma sweep_room_timeout: "ss_timeout (rs_sessions (sweep_room now order room)) = ss_timeout (rs_sessions room)"
proof -
  have "ss_timeout (rs_sessions (evict_sessions us room)) = ss_timeout (rs_sessions room)" for us
    by (induction us arbitrary: room) (simp_all add: unregister_def store_simps frame_simps)
  then show ?thesis by (simp add: sweep_room_def Let_def)
qed

lemma tick_user:
  assumes visits: "visits_ok visits hub" and room: "room_timeout n hub = Some limit"
  obtains now order where "(n, now, order) \<in> set visits"
    "room_timeout n (sweeper_tick t visits hub) = Some limit"
    "user_of n u (sweeper_tick t visits hub) =
      (case user_of n u hub of
         None \<Rightarrow> None
       | Some s \<Rightarrow> if limit < duration_since now (us_last_active s) then None else Some s)"
    "outbox_of n u (sweeper_tick t visits hub) =
      (case user_of n u hub of
         None \<Rightarrow> outbox_of n u hub
       | Some s \<Rightarrow> if limit < duration_since now (us_last_active s) then None else outbox_of n u hub)"
proof -
  obtain r where r: "hub_rooms hub n = Some r" "ss_timeout (rs_sessions r) = limit"
    using room by (auto simp: room_timeout_def)
  then have "n \<in> fst ` set visits" using visits by (auto simp: visits_ok_def)
  then obtain now order where v: "(n, now, order) \<in> set visits" by force
  then have order: "iteration_order (ss_sessions (rs_sessions r)) order"
    using visits r(1) by (auto simp: visits_ok_def)
  have after: "hub_rooms (sweeper_tick t visits hub) n = Some (sweep_room now order r)"
    using sweep_rooms_visited [of visits n now order "hub_rooms hub"] visits v r(1)
    by (simp add: visits_ok_def sweeper_tick_def)
  have "ss_timeout (rs_sessions (sweep_room now order r)) = limit"
    using r(2) by (simp add: sweep_room_timeout)
  with after r sweep_room_stores [OF order] show thesis
    by (intro that [OF v]) (simp_all add: room_timeout_def user_of_def outbox_of_def split: option.splits)
qed

section \<open>When a silent user is gone\<close>

lemma stays_gone:
  assumes "quiet n u turns hub" and "room_timeout n hub = Some limit"
    and "user_of n u hub = None" and "outbox_of n u hub = None"
  shows "user_of n u (snd (sweeper turns hub)) = None \<and> outbox_of n u (snd (sweeper turns hub)) = None"
  using assms
proof (induction turns hub rule: sweeper.induct)
  case (3 t visits ts hub)
  from 3(2) have "visits_ok visits hub" by simp
  then obtain now order where "room_timeout n (sweeper_tick t visits hub) = Some limit"
    "user_of n u (sweeper_tick t visits hub) = None" "outbox_of n u (sweeper_tick t visits hub) = None"
    using 3(3-5) by (elim tick_user [where t = t and u = u]) auto
  with 3 show ?case by simp
qed auto

text \<open>While no reading is later than the timeout allows, the sweeper leaves the user alone.\<close>

lemma stays_in:
  assumes "quiet n u turns hub" and "room_timeout n hub = Some limit"
    and "user_of n u hub = Some s" and "\<forall>turn \<in> set turns. read_before (us_last_active s + limit) turn"
  shows "user_of n u (snd (sweeper turns hub)) = Some s"
  using assms
proof (induction turns hub rule: sweeper.induct)
  case (3 t visits ts hub)
  from 3(2) have "visits_ok visits hub" by simp
  then obtain now order where tick: "(n, now, order) \<in> set visits"
    "room_timeout n (sweeper_tick t visits hub) = Some limit"
    "user_of n u (sweeper_tick t visits hub) =
      (if limit < duration_since now (us_last_active s) then None else Some s)"
    using 3(3,4) by (elim tick_user [where t = t and u = u]) auto
  have "now \<le> us_last_active s + limit" using 3(5) tick(1) by fastforce
  then have "user_of n u (sweeper_tick t visits hub) = Some s"
    using tick(3) by (simp add: duration_since_def)
  with 3 tick(2) show ?case by simp
qed auto

text \<open>The first tick that is due after the timeout removes the user, unless an earlier one was late
  enough to.\<close>

lemma goes_out:
  assumes "on_time start \<delta> k turns" and "quiet n u turns hub" and "SweeperCancelled \<notin> set turns"
    and "room_timeout n hub = Some limit" and "user_of n u hub = Some s"
    and "k \<le> i" and "i < k + ticks turns" and late: "us_last_active s + limit < tick_due start i"
  shows "user_of n u (snd (sweeper turns hub)) = None \<and> outbox_of n u (snd (sweeper turns hub)) = None"
  using assms(1-7)
proof (induction turns hub arbitrary: k rule: sweeper.induct)
  case (3 t visits ts hub)
  let ?hub = "sweeper_tick t visits hub"
  from 3(3) have "visits_ok visits hub" by simp
  then obtain now order where tick: "(n, now, order) \<in> set visits" "room_timeout n ?hub = Some limit"
    "user_of n u ?hub = (if limit < duration_since now (us_last_active s) then None else Some s)"
    "outbox_of n u ?hub =
      (if limit < duration_since now (us_last_active s) then None else outbox_of n u hub)"
    using 3(5,6) by (elim tick_user [where t = t and u = u]) auto
  show ?case
  proof (cases "limit < duration_since now (us_last_active s)")
    case True
    with tick(2-4) 3(3) stays_gone [of n u ts ?hub limit] show ?thesis by simp
  next
    case False
    then have "now \<le> us_last_active s + limit" by (simp add: duration_since_def)
    moreover have "tick_due start k \<le> now" using 3(2) tick(1) by fastforce
    ultimately have "k \<noteq> i" using late by auto
    with 3(1) [of "Suc k"] 3(2-8) tick(2,3) False show ?thesis by simp
  qed
qed auto

text \<open>So a silent user is left alone up to the timeout, and gone an interval and a delay after it.\<close>

lemma silent_user:
  assumes time: "timely start \<delta> now turns" and quiet: "quiet n u turns hub"
    and live: "SweeperCancelled \<notin> set turns" and room: "room_timeout n hub = Some limit"
    and user: "user_of n u hub = Some s" and start: "start \<le> us_last_active s + limit"
  shows "now \<le> us_last_active s + limit \<Longrightarrow> user_of n u (snd (sweeper turns hub)) = Some s"
    and "us_last_active s + limit + SWEEP_INTERVAL + \<delta> \<le> now \<Longrightarrow>
      user_of n u (snd (sweeper turns hub)) = None \<and> outbox_of n u (snd (sweeper turns hub)) = None"
proof -
  have earlier: "read_before T turn" if "read_before now turn" "now \<le> T" for T and turn :: "'a sweeper_turn"
    using that by (cases turn) auto
  show "user_of n u (snd (sweeper turns hub)) = Some s" if "now \<le> us_last_active s + limit"
    by (rule stays_in [OF quiet room user]) (use time earlier that in \<open>auto simp: timely_def\<close>)
next
  assume now: "us_last_active s + limit + SWEEP_INTERVAL + \<delta> \<le> now"
  let ?T = "us_last_active s + limit"
  define i where "i = (?T - start) div SWEEP_INTERVAL + 1"
  have I: "0 < SWEEP_INTERVAL" by (simp add: SWEEP_INTERVAL_def from_secs_def)
  have "?T - start < i * SWEEP_INTERVAL"
    unfolding i_def using dividend_less_div_times [OF I, of "?T - start"] by (simp add: algebra_simps)
  then have late: "?T < tick_due start i" using start by (simp add: tick_due_def)
  have "(?T - start) div SWEEP_INTERVAL * SWEEP_INTERVAL \<le> ?T - start"
    by (rule div_times_less_eq_dividend)
  moreover have "tick_due start i = start + (?T - start) div SWEEP_INTERVAL * SWEEP_INTERVAL + SWEEP_INTERVAL"
    by (simp add: tick_due_def i_def)
  ultimately have "tick_due start i \<le> ?T + SWEEP_INTERVAL" using start by linarith
  with now have "tick_due start i + \<delta> \<le> now" by linarith
  then have "i \<le> ticks turns" using time by (simp add: timely_def)
  then have "1 \<le> i" "i < 1 + ticks turns" by (simp_all add: i_def)
  with goes_out [OF _ quiet live room user _ _ late, of \<delta> 1] time
  show "user_of n u (snd (sweeper turns hub)) = None \<and> outbox_of n u (snd (sweeper turns hub)) = None"
    by (simp add: timely_def)
qed

end
