(* ===== verification/ServerMachine.thy ===== *)
theory ServerMachine
  imports HubMachine ServerLoop
begin

text \<open>
  The whole of a running server as one transition system: the accept loop of \<^verbatim>\<open>run\<close> with its limiter,
  the tasks it spawns with their slots of the connection counter, and all rooms with the machine of
  \<open>HubMachine\<close>. A task goes through the phases of \<^verbatim>\<open>handle_connection\<close>; what it does inside a room is a
  step of that machine. The theory bounds what a server holds.
\<close>

section \<open>The machine\<close>

text \<open>The phases of a task: not yet at the counter; over the cap, with its addition to roll back; with a
  slot, before and after the time in which it has a user in a room.\<close>

datatype conn_phase = Spawned | Refused | Authenticating | Member room_slot uuid | Closing

text \<open>Ghosts are the limiter's history, the connections it let in, and the users whose welcome failed.\<close>

record ('tx, 'w) server_machine =
  sv_hub :: "('tx, 'w) hub_machine"
  sv_limiter :: rate_limiter
  sv_guard :: guard_state
  sv_conn :: "nat \<rightharpoonup> conn_phase"
  sv_stopped :: bool
  sv_history :: "(ip_addr, unit) window_event list"
  sv_admitted :: "(instant \<times> ip_addr) list"
  sv_unwelcomed :: "(room_slot \<times> uuid) set"

text \<open>The users whose connection is in a room.\<close>

definition members :: "('tx, 'w) hub_machine \<Rightarrow> (room_slot \<times> uuid) set" where
  "members h = {(s, u). \<exists>m. hm_rooms h s = Some m \<and> u \<in> dom (mc_tasks m)}"

text \<open>The users whom the tables of the rooms hold, with a session or with an outbox, and what a member's task
  is doing. A task that leaves while it is still joining does so because its welcome has failed.\<close>

definition occupants :: "'tx room_state \<Rightarrow> uuid set" where
  "occupants room = dom (ss_sessions (rs_sessions room)) \<union> dom (cm_senders (rs_connections room))"

definition present :: "('tx, 'w) hub_machine \<Rightarrow> (room_slot \<times> uuid) set" where
  "present h = {(s, u). \<exists>m. hm_rooms h s = Some m \<and> u \<in> occupants (mc_room m)}"

definition joining :: "('tx, 'w) hub_machine \<Rightarrow> (room_slot \<times> uuid) set" where
  "joining h = {(s, u). \<exists>m tk. hm_rooms h s = Some m \<and> mc_tasks m u = Some tk \<and> tk_stage tk = Joined}"

text \<open>A room's step belongs to the task that enters or leaves with it, if any does.\<close>

inductive server_step ::
  "('tx, 'w) sender \<Rightarrow> ('tx, 'w) server_machine \<Rightarrow> ('tx, 'w) server_machine \<Rightarrow> bool"
  for ts :: "('tx, 'w) sender" where
  accept: "\<not> sv_stopped S \<Longrightarrow> sv_conn S k = None \<Longrightarrow>
    check (hm_now (sv_hub S)) ip (sv_limiter S) = (True, rl) \<Longrightarrow>
    server_step ts S (S\<lparr>sv_limiter := rl, sv_conn := (sv_conn S)(k \<mapsto> Spawned),
      sv_history := sv_history S @ [Attempt (hm_now (sv_hub S)) ip],
      sv_admitted := sv_admitted S @ [(hm_now (sv_hub S), ip)]\<rparr>)"
| turn_away: "\<not> sv_stopped S \<Longrightarrow> check (hm_now (sv_hub S)) ip (sv_limiter S) = (False, rl) \<Longrightarrow>
    server_step ts S (S\<lparr>sv_limiter := rl,
      sv_history := sv_history S @ [Attempt (hm_now (sv_hub S)) ip]\<rparr>)"
| clean: "server_step ts S (S\<lparr>sv_limiter := cleanup (hm_now (sv_hub S)) (sv_limiter S),
      sv_history := sv_history S @ [Other (hm_now (sv_hub S)) ()]\<rparr>)"
| stop: "server_step ts S (S\<lparr>sv_stopped := True\<rparr>)"
| acquire: "sv_conn S k = Some Spawned \<Longrightarrow> guard_step MAX_ACTIVE_CONNS (sv_guard S) g \<Longrightarrow>
    gs_phase g = (gs_phase (sv_guard S))(k \<mapsto> p) \<Longrightarrow> gs_phase (sv_guard S) k = None \<Longrightarrow>
    server_step ts S (S\<lparr>sv_guard := g,
      sv_conn := (sv_conn S)(k \<mapsto> (case p of Overshot \<Rightarrow> Refused | Holding \<Rightarrow> Authenticating))\<rparr>)"
| give_back: "sv_conn S k \<in> {Some Refused, Some Authenticating, Some Closing} \<Longrightarrow>
    guard_step MAX_ACTIVE_CONNS (sv_guard S) g \<Longrightarrow> gs_phase g = (gs_phase (sv_guard S))(k := None) \<Longrightarrow>
    server_step ts S (S\<lparr>sv_guard := g, sv_conn := (sv_conn S)(k := None)\<rparr>)"
| enter: "sv_conn S k = Some Authenticating \<Longrightarrow> hub_step ts (sv_hub S) h \<Longrightarrow>
    (s, u) \<notin> members (sv_hub S) \<Longrightarrow> members h = insert (s, u) (members (sv_hub S)) \<Longrightarrow>
    server_step ts S (S\<lparr>sv_hub := h, sv_conn := (sv_conn S)(k \<mapsto> Member s u)\<rparr>)"
| inside: "hub_step ts (sv_hub S) h \<Longrightarrow> members h = members (sv_hub S) \<Longrightarrow>
    server_step ts S (S\<lparr>sv_hub := h\<rparr>)"
| exit: "sv_conn S k = Some (Member s u) \<Longrightarrow> hub_step ts (sv_hub S) h \<Longrightarrow>
    members h = members (sv_hub S) - {(s, u)} \<Longrightarrow>
    server_step ts S (S\<lparr>sv_hub := h, sv_conn := (sv_conn S)(k \<mapsto> Closing),
      sv_unwelcomed := sv_unwelcomed S \<union> {(s, u)} \<inter> joining (sv_hub S)\<rparr>)"

definition server_start :: "'tx server_hub \<Rightarrow> 'w \<Rightarrow> ('tx, 'w) server_machine" where
  "server_start hub w =
     \<lparr>sv_hub = hub_start hub w, sv_limiter = hub_ratelimit hub,
      sv_guard = \<lparr>gs_active = hub_active_conns hub, gs_phase = Map.empty\<rparr>, sv_conn = Map.empty,
      sv_stopped = False, sv_history = [], sv_admitted = [], sv_unwelcomed = {}\<rparr>"

section \<open>No step of a room is left out\<close>

lemma machine_step_tasks:
  assumes "machine_step ts m m'" and "dom (mc_tasks m) \<subseteq> dom (mc_names m)"
  shows "dom (mc_tasks m') = dom (mc_tasks m) \<or>
    (\<exists>u. u \<notin> dom (mc_tasks m) \<and> dom (mc_tasks m') = insert u (dom (mc_tasks m))) \<or>
    (\<exists>u \<in> dom (mc_tasks m). dom (mc_tasks m') = dom (mc_tasks m) - {u})"
  using assms
proof (induction rule: machine_step.induct)
  case (join u m tx name t)
  then have "u \<notin> dom (mc_tasks m)" by blast
  then show ?case by auto
next
  case (welcome_failed m u tk)
  then have "u \<in> dom (mc_tasks m)" by blast
  then show ?case by (intro disjI2 bexI [of _ u]) (auto split: if_splits)
next
  case (leave m u tk)
  then have "u \<in> dom (mc_tasks m)" by blast
  then show ?case by (intro disjI2 bexI [of _ u]) (auto split: if_splits)
qed (auto simp: at_stage_def)

lemma hub_step_members:
  assumes "hub_step ts h h'" and alone: "rooms_alone ts h"
  shows "members h' = members h \<or>
    (\<exists>s u. (s, u) \<notin> members h \<and> members h' = insert (s, u) (members h)) \<or>
    (\<exists>s u. (s, u) \<in> members h \<and> members h' = members h - {(s, u)})"
  using assms(1)
proof cases
  case (in_room s m m')
  obtain m0 where m0: "hm_rooms h s = Some m0" "mc_tasks m0 = mc_tasks m"
    using in_room(2) by (auto simp: hub_room_def)
  have inv: "machine_inv m" using alone in_room(2) own_run_inv unfolding rooms_alone_def by blast
  have tasks: "dom (mc_tasks m) \<subseteq> dom (mc_names m)" using machine_inv_task(1) [OF inv] by blast
  have room: "(s', u) \<in> members h' \<longleftrightarrow> (if s' = s then u \<in> dom (mc_tasks m') else (s', u) \<in> members h)"
    for s' u using in_room(1) by (auto simp: members_def put_room_def)
  have here: "(s, u) \<in> members h \<longleftrightarrow> u \<in> dom (mc_tasks m)" for u using m0 by (auto simp: members_def)
  consider "dom (mc_tasks m') = dom (mc_tasks m)"
    | u where "u \<notin> dom (mc_tasks m)" "dom (mc_tasks m') = insert u (dom (mc_tasks m))"
    | u where "u \<in> dom (mc_tasks m)" "dom (mc_tasks m') = dom (mc_tasks m) - {u}"
    using machine_step_tasks [OF in_room(3) tasks] by blast
  then show ?thesis
  proof cases
    case 1
    then have "members h' = members h" using room here by (auto split: if_splits)
    then show ?thesis by blast
  next
    case 2
    then have "members h' = insert (s, u) (members h)" using room here by (auto split: if_splits)
    then show ?thesis using 2(1) here by blast
  next
    case 3
    then have "members h' = members h - {(s, u)}" using room here by (auto split: if_splits)
    then show ?thesis using 3(1) here by blast
  qed
next
  case (unknown name n salt psk room)
  then have "members h' = members h" by (auto simp: members_def machine_of_def split: if_splits)
  then show ?thesis by blast
qed

section \<open>Whom the tables hold\<close>

lemma occupants_new: "occupants (room_state_new n salt psk) = {}"
  by (simp add: occupants_def room_state_new_def connection_manager_new_def)

lemma occupants_session_block:
  "session_block (rs_sessions room) st \<Longrightarrow> occupants (room\<lparr>rs_sessions := st\<rparr>) = occupants room"
  by (simp add: occupants_def session_block_def)

lemma fold_cm_remove_dom: "dom (cm_senders (fold cm_remove us c)) \<subseteq> dom (cm_senders c)"
proof (induction us arbitrary: c)
  case (Cons u us)
  have "dom (cm_senders (cm_remove u c)) \<subseteq> dom (cm_senders c)" by (auto simp: cm_remove_def)
  with Cons [of "cm_remove u c"] show ?case by simp
qed simp

text \<open>A block of a handler brings nobody in.\<close>

lemma task_block_occupants:
  assumes "task_block ts now order u name (stage, room, w) = (stage', room', w')"
  shows "occupants room' \<subseteq> occupants room"
proof (cases stage)
  case (Handling msg)
  have quota: "session_block (rs_sessions room)
      (snd (try_consume_message_quota now u (snd (try_advance_counter u c (rs_sessions room)))))" for c
    by (blast intro: session_blocks session_block_trans)
  show ?thesis
    using assms Handling quota session_block_advance [of "rs_sessions room" u] session_block_clear [of "rs_sessions room" now u]
    by (cases msg) (auto simp: occupants_session_block split_def prod_eq_iff split: prod.splits bool.splits if_splits
      dest!: arg_cong [of _ _ snd])
next
  case (Sending f snapshot dead)
  with assms show ?thesis
    by (cases snapshot) (auto split: prod.splits send_outcome.splits if_splits)
next
  case (Evicting dead)
  with assms have "room' = room\<lparr>rs_connections := fold cm_remove dead (rs_connections room)\<rparr>" by simp
  with fold_cm_remove_dom [of dead "rs_connections room"] show ?thesis unfolding occupants_def by fastforce
qed (use assms in \<open>auto simp: occupants_def split: if_splits\<close>)

lemma machine_step_occupants:
  assumes "machine_step ts m m'" and "u \<in> occupants (mc_room m')" and "u \<notin> dom (mc_tasks m')"
  shows "u \<in> occupants (mc_room m) \<and>
    (u \<in> dom (mc_tasks m) \<longrightarrow> (\<exists>tk. mc_tasks m u = Some tk \<and> tk_stage tk = Joined))"
  using assms
proof (induction rule: machine_step.induct)
  case (join v m tx name t)
  then show ?case by (auto simp: occupants_def store_simps split: if_splits)
next
  case (receive m v tk f)
  then show ?case
    using occupants_session_block [OF session_block_touch, of "mc_now m" v "mc_room m"]
    by (auto simp: at_stage_def split: if_splits)
next
  case (block m v tk order stage room w)
  then show ?case
    using task_block_occupants [OF block(3)] by (auto simp: at_stage_def split: if_splits)
next
  case (leave m v tk)
  then show ?case by (auto simp: occupants_def store_simps split: if_splits)
next
  case (sweep_evict m)
  then show ?case by (auto simp: occupants_def evict_sessions_stores split: if_splits)
qed (auto simp: at_stage_def split: if_splits)

lemma hub_step_present:
  assumes "hub_step ts h h'" and "x \<in> present h'" and "x \<notin> members h'"
  shows "x \<in> present h \<and> (x \<in> members h \<longrightarrow> x \<in> joining h)"
  using assms(1)
proof cases
  case (in_room s m m')
  obtain s' u where x: "x = (s', u)" by (cases x)
  obtain m0 where m0: "hm_rooms h s = Some m0" "mc_tasks m = mc_tasks m0" "mc_room m = mc_room m0"
    using in_room(2) by (auto simp: hub_room_def)
  show ?thesis
  proof (cases "s' = s")
    case True
    with in_room(1) assms(2,3) x have "u \<in> occupants (mc_room m')" "u \<notin> dom (mc_tasks m')"
      by (auto simp: present_def members_def put_room_def)
    from machine_step_occupants [OF in_room(3) this] True x m0 show ?thesis
      by (auto simp: present_def members_def joining_def)
  next
    case False
    with in_room(1) assms(2,3) x show ?thesis by (auto simp: present_def members_def put_room_def)
  qed
next
  case (unknown name n salt psk room)
  have "occupants room = {}"
    using unknown(4) by (auto simp: fake_room_def occupants_new)
  with unknown assms(2,3) show ?thesis
    by (auto simp: present_def members_def machine_of_def split: if_splits)
qed

section \<open>The invariant\<close>

fun phase_of :: "conn_phase option \<Rightarrow> guard_phase option" where
  "phase_of None = None"
| "phase_of (Some Spawned) = None"
| "phase_of (Some Refused) = Some Overshot"
| "phase_of (Some _) = Some Holding"

primrec limited :: "(ip_addr, unit) window_event \<Rightarrow> rate_limiter \<Rightarrow> rate_limiter" where
  "limited (Attempt t ip) rl = snd (check t ip rl)"
| "limited (Other t x) rl = cleanup t rl"

abbreviation "limiter_run \<equiv> window_run check (\<lambda>t (_ :: unit). cleanup t)"

lemma limiter_run_snoc:
  "limiter_run rl (es @ [e]) = limiter_run rl es @
     (case e of Attempt t ip \<Rightarrow> if fst (check t ip (fold limited es rl)) then [(t, ip)] else [] | Other t x \<Rightarrow> [])"
proof (induction es arbitrary: rl)
  case Nil
  then show ?case by (cases e) simp_all
next
  case (Cons e' es)
  show ?case by (cases e') (simp_all add: Cons split: window_event.split)
qed

text \<open>The user a task has in a room.\<close>

fun seat :: "conn_phase option \<Rightarrow> (room_slot \<times> uuid) option" where
  "seat (Some (Member s u)) = Some (s, u)"
| "seat p = None"

definition seats :: "(nat \<rightharpoonup> conn_phase) \<Rightarrow> nat \<rightharpoonup> room_slot \<times> uuid" where
  "seats conn k = seat (conn k)"

lemma seats_Member: "seats conn k = Some (s, u) \<longleftrightarrow> conn k = Some (Member s u)"
  by (cases "conn k" rule: seat.cases) (auto simp: seats_def)

lemma seats_upd: "seats (conn(k := p)) = (seats conn)(k := seat p)"
  by (simp add: seats_def fun_eq_iff)

lemma seats_same: "seats conn k = seat p \<Longrightarrow> seats (conn(k := p)) = seats conn"
  by (auto simp: seats_upd fun_eq_iff)

lemma ran_remove:
  assumes "inj_on m (dom m)" and "m k = Some v"
  shows "ran (m(k := None)) = ran m - {v}"
proof (intro set_eqI iffI)
  fix x assume "x \<in> ran (m(k := None))"
  then obtain j where j: "j \<noteq> k" "m j = Some x" by (auto simp: ran_def split: if_splits)
  with assms have "x \<noteq> v" by (metis domI inj_onD)
  with j show "x \<in> ran m - {v}" by (auto intro: ranI)
next
  fix x assume "x \<in> ran m - {v}"
  then obtain j where "m j = Some x" "x \<noteq> v" by (auto simp: ran_def)
  then have "(m(k := None)) j = Some x" using assms(2) by auto
  then show "x \<in> ran (m(k := None))" by (rule ranI)
qed

definition slots_ok :: "('tx, 'w) server_machine \<Rightarrow> bool" where
  "slots_ok S \<longleftrightarrow>
     guard_reachable MAX_ACTIVE_CONNS (sv_guard S) \<and>
     (\<forall>k. gs_phase (sv_guard S) k = phase_of (sv_conn S k)) \<and>
     members (sv_hub S) = ran (seats (sv_conn S)) \<and> inj_on (seats (sv_conn S)) (dom (seats (sv_conn S)))"

definition limiter_ok :: "'tx server_hub \<Rightarrow> ('tx, 'w) server_machine \<Rightarrow> bool" where
  "limiter_ok hub S \<longleftrightarrow>
     sv_limiter S = fold limited (sv_history S) (hub_ratelimit hub) \<and>
     sv_admitted S = limiter_run (hub_ratelimit hub) (sv_history S) \<and>
     sorted (map event_time (sv_history S)) \<and>
     (\<forall>e \<in> set (sv_history S). event_time e \<le> hm_now (sv_hub S))"

lemma slots_ok_step:
  assumes "server_step ts S S'" and inv: "slots_ok S"
  shows "slots_ok S'"
  using assms(1)
proof cases
  case (accept k ip rl)
  then have "seats (sv_conn S') = seats (sv_conn S)" by (simp add: seats_same seats_def)
  with accept inv show ?thesis by (simp add: slots_ok_def)
next
  case (acquire k g p)
  then have "seats (sv_conn S') = seats (sv_conn S)"
    by (cases p) (simp_all add: seats_same seats_def)
  with acquire inv show ?thesis
    by (cases p) (auto simp: slots_ok_def intro: guard_reachable.move)
next
  case (give_back k g)
  then have "seats (sv_conn S') = seats (sv_conn S)"
    by (auto simp: seats_same seats_def)
  with give_back inv show ?thesis by (auto simp: slots_ok_def intro: guard_reachable.move)
next
  case (enter k h s u)
  then have free: "seats (sv_conn S) k = None" by (simp add: seats_def)
  have new: "seats (sv_conn S') = (seats (sv_conn S))(k \<mapsto> (s, u))" using enter(1) by (simp add: seats_upd)
  then have "members (sv_hub S') = ran (seats (sv_conn S'))"
    using enter inv ran_map_upd [of "seats (sv_conn S)" k "(s, u)", OF free] by (simp add: slots_ok_def)
  moreover have "inj_on (seats (sv_conn S')) (dom (seats (sv_conn S')))"
  proof -
    have "seats (sv_conn S) k' \<noteq> Some (s, u)" for k'
      using enter(4) inv by (auto simp: slots_ok_def ran_def)
    then show ?thesis
      using inv free unfolding new by (auto simp: slots_ok_def inj_on_def)
  qed
  ultimately show ?thesis using enter inv by (simp add: slots_ok_def)
next
  case (exit k s u h)
  have seat: "seats (sv_conn S) k = Some (s, u)" using exit(2) by (simp add: seats_def)
  have new: "seats (sv_conn S') = (seats (sv_conn S))(k := None)" using exit(1) by (simp add: seats_upd)
  have inj: "inj_on (seats (sv_conn S)) (dom (seats (sv_conn S)))" using inv by (simp add: slots_ok_def)
  have "members (sv_hub S') = ran (seats (sv_conn S'))"
    unfolding new ran_remove [OF inj seat] using exit inv by (simp add: slots_ok_def)
  moreover have "inj_on (seats (sv_conn S')) (dom (seats (sv_conn S')))"
    using inj unfolding new by (auto simp: inj_on_def)
  ultimately show ?thesis using exit inv by (simp add: slots_ok_def)
qed (use inv in \<open>simp_all add: slots_ok_def\<close>)

lemma hub_step_now: "hub_step ts h h' \<Longrightarrow> hm_now h \<le> hm_now h'"
proof (induction rule: hub_step.induct)
  case (in_room h s m m')
  then show ?case using machine_step_now [OF in_room(2)] hub_room_now [OF in_room(1)] by (simp add: put_room_def)
qed simp

lemma limiter_ok_step:
  assumes "server_step ts S S'" and inv: "limiter_ok hub S"
  shows "limiter_ok hub S'"
proof -
  have later: "limiter_ok hub (S\<lparr>sv_hub := h\<rparr>)" if "hub_step ts (sv_hub S) h" for h
    using inv hub_step_now [OF that] by (auto simp: limiter_ok_def)
  from assms(1) show ?thesis
  proof cases
    case (accept k ip rl)
    with inv show ?thesis by (auto simp: limiter_ok_def limiter_run_snoc sorted_append)
  next
    case (turn_away ip rl)
    with inv show ?thesis by (auto simp: limiter_ok_def limiter_run_snoc sorted_append)
  next
    case clean
    with inv show ?thesis by (auto simp: limiter_ok_def limiter_run_snoc sorted_append)
  next
    case stop
    with inv show ?thesis by (simp add: limiter_ok_def)
  next
    case (enter k h s u)
    with later [OF enter(3)] show ?thesis by (simp add: limiter_ok_def)
  next
    case (exit k s u h)
    with later [OF exit(3)] show ?thesis by (simp add: limiter_ok_def)
  qed (use inv later in \<open>simp_all add: limiter_ok_def\<close>)
qed

text \<open>Nobody is in the tables but the members and those whose welcome failed, and each of them has come with a
  connection of its own: the connections that are not yet closing have not yet failed.\<close>

definition working :: "('tx, 'w) server_machine \<Rightarrow> nat set" where
  "working S = {k. sv_conn S k \<noteq> None \<and> sv_conn S k \<noteq> Some Closing}"

definition tables_ok :: "('tx, 'w) server_machine \<Rightarrow> bool" where
  "tables_ok S \<longleftrightarrow>
     present (sv_hub S) \<subseteq> members (sv_hub S) \<union> sv_unwelcomed S \<and>
     finite (working S) \<and> finite (sv_unwelcomed S) \<and>
     card (working S) + card (sv_unwelcomed S) \<le> length (sv_admitted S)"

lemma tables_ok_step:
  assumes "server_step ts S S'" and inv: "tables_ok S"
  shows "tables_ok S'"
  using assms(1)
proof cases
  case (accept k ip rl)
  then have "working S' = insert k (working S)" by (auto simp: working_def)
  with accept inv show ?thesis by (auto simp: tables_ok_def card_insert_if)
next
  case (acquire k g p)
  then have "working S' = working S" by (auto simp: working_def split: guard_phase.splits)
  with acquire inv show ?thesis by (simp add: tables_ok_def)
next
  case (give_back k g)
  then have sub: "working S' \<subseteq> working S" by (auto simp: working_def split: if_splits)
  with inv have "card (working S') \<le> card (working S)" by (simp add: tables_ok_def card_mono)
  with give_back inv sub show ?thesis by (auto simp: tables_ok_def intro: finite_subset)
next
  case (enter k h s u)
  have "working S' = working S" using enter(1,2) by (auto simp: working_def)
  moreover have "present h \<subseteq> members h \<union> sv_unwelcomed S"
    using hub_step_present [OF enter(3)] inv enter(5) unfolding tables_ok_def by blast
  ultimately show ?thesis using enter inv by (simp add: tables_ok_def)
next
  case (inside h)
  have "present h \<subseteq> members h \<union> sv_unwelcomed S"
    using hub_step_present [OF inside(2)] inv inside(3) unfolding tables_ok_def by blast
  with inside inv show ?thesis by (simp add: tables_ok_def working_def)
next
  case (exit k s u h)
  have fin: "finite (working S)" "finite (sv_unwelcomed S)" using inv by (simp_all add: tables_ok_def)
  have k: "k \<in> working S" and working: "working S' = working S - {k}"
    using exit(1,2) by (auto simp: working_def)
  have less: "card (sv_unwelcomed S') \<le> Suc (card (sv_unwelcomed S))"
    using exit(1) fin by (auto simp: Int_insert_left card_insert_if)
  have "present h \<subseteq> members h \<union> sv_unwelcomed S'"
    using hub_step_present [OF exit(3)] inv exit(1,4) unfolding tables_ok_def by auto
  moreover have "card (working S') + card (sv_unwelcomed S') \<le> length (sv_admitted S)"
    using card_Suc_Diff1 [OF fin(1) k] less inv unfolding working by (simp add: tables_ok_def)
  moreover have "finite (sv_unwelcomed S')" using exit(1) fin by simp
  ultimately show ?thesis using exit(1) fin working by (simp add: tables_ok_def)
qed (use inv in \<open>simp_all add: tables_ok_def working_def\<close>)

section \<open>What a server holds\<close>

inductive server_reachable ::
  "('tx, 'w) sender \<Rightarrow> 'tx server_hub \<Rightarrow> 'w \<Rightarrow> ('tx, 'w) server_machine \<Rightarrow> bool"
  for ts :: "('tx, 'w) sender" and hub :: "'tx server_hub" and w :: 'w where
  up: "server_reachable ts hub w (server_start hub w)"
| run: "server_reachable ts hub w S \<Longrightarrow> server_step ts S S' \<Longrightarrow> server_reachable ts hub w S'"

lemma server_reachable_hub:
  "server_reachable ts hub w S \<Longrightarrow> hub_reachable ts (hub_start hub w) (sv_hub S)"
proof (induction rule: server_reachable.induct)
  case up
  then show ?case by (simp add: server_start_def hub_reachable.start)
next
  case (run S S')
  from run(2,3) show ?case by cases (auto intro: hub_reachable.step)
qed

lemma server_reachable_slots:
  assumes "server_hub_new kdf cfgs draws = Inr hub"
  shows "server_reachable ts hub w S \<Longrightarrow> slots_ok S"
proof (induction rule: server_reachable.induct)
  case up
  have "members (hub_start hub w) = {}"
    by (auto simp: members_def hub_start_def machine_of_def split: room_slot.splits)
  moreover have "seats Map.empty = Map.empty" by (simp add: seats_def fun_eq_iff)
  ultimately show ?case
    using server_hub_new_inv(3) [OF assms] guard_reachable.idle by (simp add: slots_ok_def server_start_def)
qed (rule slots_ok_step)

lemma server_reachable_limiter: "server_reachable ts hub w S \<Longrightarrow> limiter_ok hub S"
proof (induction rule: server_reachable.induct)
  case up
  show ?case by (simp add: limiter_ok_def server_start_def)
qed (rule limiter_ok_step)

lemma server_reachable_tables:
  assumes "server_hub_new kdf cfgs draws = Inr hub"
  shows "server_reachable ts hub w S \<Longrightarrow> tables_ok S"
proof (induction rule: server_reachable.induct)
  case up
  have "occupants (mc_room m) = {}" if "hm_rooms (hub_start hub w) s = Some m" for s m
    using hub_start_rooms [OF assms that] by (auto simp: machine_init_def occupants_new)
  then have "present (hub_start hub w) = {}"
    by (auto simp: present_def)
  then show ?case by (simp add: tables_ok_def server_start_def working_def)
qed (rule tables_ok_step)

text \<open>Each user in a room takes up a slot.\<close>

lemma slots_bound_members:
  assumes "slots_ok S"
  shows "finite (members (sv_hub S))" and "card (members (sv_hub S)) \<le> unat MAX_ACTIVE_CONNS"
    and "x \<in> members (sv_hub S) \<Longrightarrow> \<exists>!k. seats (sv_conn S) k = Some x"
    and "seats (sv_conn S) k = Some x \<Longrightarrow> gs_phase (sv_guard S) k = Some Holding"
proof -
  let ?g = "sv_guard S"
  have inv: "guard_inv MAX_ACTIVE_CONNS ?g" using assms by (auto simp: slots_ok_def intro: guard_reachable_inv)
  have holds: "gs_phase ?g k = Some Holding" if "seats (sv_conn S) k = Some x" for k x
    using that assms by (cases "sv_conn S k" rule: phase_of.cases) (auto simp: slots_ok_def seats_def)
  then show "seats (sv_conn S) k = Some x \<Longrightarrow> gs_phase ?g k = Some Holding" .
  have sub: "members (sv_hub S) \<subseteq> (\<lambda>k. the (seats (sv_conn S) k)) ` holders ?g"
    using assms holds by (force simp: slots_ok_def ran_def holders_def)
  have fin: "finite (holders ?g)" using inv by (intro finite_holders) (simp add: guard_inv_def)
  then show "finite (members (sv_hub S))" using sub by (meson finite_imageI finite_subset)
  have "card (members (sv_hub S)) \<le> card (holders ?g)" using sub fin by (rule surj_card_le [rotated])
  then show "card (members (sv_hub S)) \<le> unat MAX_ACTIVE_CONNS" using inv by (simp add: guard_inv_def)
  show "\<exists>!k. seats (sv_conn S) k = Some x" if "x \<in> members (sv_hub S)"
    using that assms by (auto simp: slots_ok_def ran_def inj_on_def dom_def)
qed

lemma slots_seat_member: "slots_ok S \<Longrightarrow> seats (sv_conn S) k = Some x \<Longrightarrow> x \<in> members (sv_hub S)"
  by (auto simp: slots_ok_def intro: ranI)

lemma server_reachable_rate:
  assumes "server_hub_new kdf cfgs draws = Inr hub" and "server_reachable ts hub w S"
  shows "within_rate RATELIMIT_MAX RATELIMIT_WINDOW (admitted_for ip (sv_admitted S))"
proof -
  have hub: "hub_ratelimit hub = rate_limiter_new RATELIMIT_MAX RATELIMIT_WINDOW"
    using assms(1) by (auto simp: server_hub_new_def and_then_Inr_iff)
  have ok: "limiter_ok hub S" by (rule server_reachable_limiter [OF assms(2)])
  then have "sorted (map event_time (sv_history S))" by (simp add: limiter_ok_def)
  from limiter.window_run_within_rate [of "hub_ratelimit hub" ip, OF _ _ this] ok show ?thesis
    by (simp add: hub limiter_ok_def)
qed

text \<open>Members and those whose welcome failed have each come with an admitted connection.\<close>

lemma tables_bound:
  assumes ok: "slots_ok S" and tables: "tables_ok S"
  shows "card (members (sv_hub S)) + card (sv_unwelcomed S) \<le> length (sv_admitted S)"
proof -
  have sub: "members (sv_hub S) \<subseteq> (\<lambda>k. the (seats (sv_conn S) k)) ` working S"
  proof
    fix x assume "x \<in> members (sv_hub S)"
    then obtain k where k: "seats (sv_conn S) k = Some x" using ok by (auto simp: slots_ok_def ran_def)
    then have "k \<in> working S" by (cases "sv_conn S k" rule: seat.cases) (auto simp: seats_def working_def)
    with k show "x \<in> (\<lambda>k. the (seats (sv_conn S) k)) ` working S" by force
  qed
  have "finite (working S)" using tables by (simp add: tables_ok_def)
  from surj_card_le [OF this sub] tables show ?thesis by (simp add: tables_ok_def)
qed

lemma present_bound:
  assumes ok: "slots_ok S" and tables: "tables_ok S"
  shows "card (present (sv_hub S)) \<le> length (sv_admitted S)"
proof -
  have "finite (members (sv_hub S) \<union> sv_unwelcomed S)"
    using slots_bound_members(1) [OF ok] tables by (simp add: tables_ok_def)
  then have "card (present (sv_hub S)) \<le> card (members (sv_hub S) \<union> sv_unwelcomed S)"
    using tables by (intro card_mono) (simp_all add: tables_ok_def)
  also have "\<dots> \<le> card (members (sv_hub S)) + card (sv_unwelcomed S)" by (rule card_Un_le)
  finally show ?thesis using tables_bound [OF assms] by linarith
qed

text \<open>When all tasks are gone, no slot is left taken.\<close>

lemma slots_all_back:
  assumes "slots_ok S" and "sv_conn S = Map.empty"
  shows "gs_active (sv_guard S) = 0" and "members (sv_hub S) = {}"
proof -
  have "gs_phase (sv_guard S) = Map.empty" using assms by (simp add: slots_ok_def fun_eq_iff)
  moreover have "guard_inv MAX_ACTIVE_CONNS (sv_guard S)"
    using assms(1) by (auto simp: slots_ok_def intro: guard_reachable_inv)
  ultimately show "gs_active (sv_guard S) = 0" by (simp add: guard_inv_def unat_eq_0)
  have "seats (sv_conn S) = Map.empty" using assms(2) by (simp add: seats_def fun_eq_iff)
  then show "members (sv_hub S) = {}" using assms(1) by (simp add: slots_ok_def)
qed

end
