(* ===== verification/FairLocks.thy ===== *)
theory FairLocks
  imports LockSites
begin

text \<open>
  Mutexes that are granted in the order in which they were asked for, as tokio documents its own, and a
  scheduler that does not forget a task. Under both, a task that waits for a lock gets it, and every
  block of code under locks comes to its end.
\<close>

section \<open>First come, first served\<close>

fun is_lock :: "('tx, 'w, 'r) prog \<Rightarrow> bool" where
  "is_lock (Lock l p) \<longleftrightarrow> True"
| "is_lock p \<longleftrightarrow> False"

text \<open>A step of the given task.\<close>

definition moves ::
  "'k \<Rightarrow> ('tx, 'w, 'r, 'k, 'c) locked \<Rightarrow> ('tx, 'w, 'r, 'k, 'c) locked \<Rightarrow> bool" where
  "moves k s s' \<longleftrightarrow> task_step s s' \<and>
     (\<exists>p p'. lk_prog s k = Some p \<and> lk_prog s' = (lk_prog s)(k \<mapsto> p') \<and> rest_of p' p)"

type_synonym ('tx, 'w, 'r, 'k, 'c) queued =
  "('tx, 'w, 'r, 'k, 'c) locked \<times> (room_lock \<Rightarrow> 'k list)"

text \<open>A step is labelled with the task that does it, or with none.\<close>

inductive fifo_step ::
  "('tx, 'w, 'r, 'k, 'c) control \<Rightarrow> 'k option \<Rightarrow> ('tx, 'w, 'r, 'k, 'c) queued
     \<Rightarrow> ('tx, 'w, 'r, 'k, 'c) queued \<Rightarrow> bool"
  for ctl :: "('tx, 'w, 'r, 'k, 'c) control" where
  enqueue: "lk_prog s k = Some (Lock l p) \<Longrightarrow> k \<notin> set (q l) \<Longrightarrow>
    fifo_step ctl (Some k) (s, q) (s, q(l := q l @ [k]))"
| dequeue: "lk_prog s k = Some (Lock l p) \<Longrightarrow> q l = k # ks \<Longrightarrow> moves k s s' \<Longrightarrow>
    fifo_step ctl (Some k) (s, q) (s', q(l := ks))"
| proceed: "lk_prog s k = Some p \<Longrightarrow> \<not> is_lock p \<Longrightarrow> moves k s s' \<Longrightarrow>
    fifo_step ctl (Some k) (s, q) (s', q)"
| tick: "lk_now s \<le> t \<Longrightarrow> fifo_step ctl None (s, q) (s\<lparr>lk_now := t\<rparr>, q)"
| drain: "fifo_step ctl None (s, q) (s\<lparr>lk_chan := w\<rparr>, q)"
| control: "at_rest (lk_prog s k) \<Longrightarrow> ctl (lk_ctl s) k (lk_prog s k) c x \<Longrightarrow>
    fifo_step ctl None (s, q) (s\<lparr>lk_ctl := c, lk_prog := (lk_prog s)(k := x)\<rparr>, q)"

lemma fifo_lock_step: "fifo_step ctl x (s, q) (s', q') \<Longrightarrow> s' = s \<or> lock_step ctl s s'"
  by (auto elim!: fifo_step.cases simp: moves_def intro: lock_step.intros)

text \<open>Whoever is in a queue waits for its lock.\<close>

definition queues_ok :: "('tx, 'w, 'r, 'k, 'c) queued \<Rightarrow> bool" where
  "queues_ok S \<longleftrightarrow> (\<forall>l. \<forall>k \<in> set (snd S l). \<exists>p. lk_prog (fst S) k = Some (Lock l p)) \<and>
     (\<forall>l. distinct (snd S l))"

lemma queues_okD:
  assumes "queues_ok S"
  shows "distinct (snd S l)" and "k \<in> set (snd S l) \<Longrightarrow> \<exists>p. lk_prog (fst S) k = Some (Lock l p)"
  using assms by (auto simp: queues_ok_def)

definition enabled :: "('tx, 'w, 'r, 'k, 'c) control \<Rightarrow> 'k \<Rightarrow> ('tx, 'w, 'r, 'k, 'c) queued \<Rightarrow> bool" where
  "enabled ctl k S \<longleftrightarrow> (\<exists>S'. fifo_step ctl (Some k) S S')"

text \<open>An endless run with a weakly fair scheduler: a task that can go on from some moment on does go on.\<close>

definition fair_run ::
  "('tx, 'w, 'r, 'k, 'c) control \<Rightarrow> (nat \<Rightarrow> ('tx, 'w, 'r, 'k, 'c) queued) \<Rightarrow> (nat \<Rightarrow> 'k option) \<Rightarrow> bool" where
  "fair_run ctl run lab \<longleftrightarrow>
     (\<forall>n. fifo_step ctl (lab n) (run n) (run (Suc n))) \<and>
     (\<forall>k n. (\<forall>m \<ge> n. enabled ctl k (run m)) \<longrightarrow> (\<exists>m \<ge> n. lab m = Some k))"

section \<open>One step\<close>

lemma moves_exists:
  assumes "lk_prog s k = Some p" and "\<not> at_rest (Some p)" and "\<not> is_lock p"
  shows "\<exists>s'. moves k s s'"
proof (cases "guard_of p")
  case None
  show ?thesis
  proof (cases p)
    case (Unlock l p')
    with assms(1) task_step.release [of s k l p'] show ?thesis
      by (intro exI) (auto simp: moves_def)
  next
    case (OnChannels f)
    obtain w p' where f: "f (lk_chan s) = (w, p')" by (metis surj_pair)
    then have "rest_of p' (OnChannels f)" by (auto, metis snd_conv)
    with OnChannels assms(1) task_step.send [OF assms(1) [unfolded OnChannels] f] show ?thesis
      by (intro exI [of _ "s\<lparr>lk_chan := w, lk_prog := (lk_prog s)(k \<mapsto> p')\<rparr>"])
        (simp add: moves_def, blast)
  qed (use assms None in \<open>auto simp: at_rest_def\<close>)
next
  case (Some l)
  obtain order where order: "order_for p (lk_room s) order" using order_for_exists by blast
  obtain room p' where p': "perform (lk_now s) order p (lk_room s) = (room, p')" by (metis surj_pair)
  have "rest_of p' p" using perform_rest [OF Some, of "lk_now s" order "lk_room s"] p' by simp
  with task_step.act [OF assms(1) Some order p'] assms(1) show ?thesis
    by (intro exI) (auto simp: moves_def)
qed

lemma lock_moves:
  assumes "lk_prog s k = Some (Lock l p)" and "lk_owner s l = None"
  shows "\<exists>s'. moves k s s'"
  using assms task_step.acquire [OF assms] by (intro exI) (auto simp: moves_def)

text \<open>What a step does not touch: the program of another task, unless it is at rest.\<close>

lemma fifo_keeps_prog:
  assumes "fifo_step ctl x (s, q) (s', q')" and "x \<noteq> Some k" and "\<not> at_rest (lk_prog s k)"
  shows "lk_prog s' k = lk_prog s k"
  using assms by cases (auto simp: moves_def)

text \<open>How the owner of a lock can change.\<close>

lemma moves_owner:
  assumes "moves k s s'" and "lk_prog s k = Some p"
  shows "p = Lock l p' \<Longrightarrow> lk_owner s l = None \<and> lk_prog s' k = Some p' \<and> lk_owner s' = (lk_owner s)(l \<mapsto> k)"
    and "\<not> is_lock p \<Longrightarrow> lk_owner s' l = lk_owner s l \<or> lk_owner s' l = None"
proof -
  obtain p1 where p1: "lk_prog s' = (lk_prog s)(k \<mapsto> p1)" "rest_of p1 p"
    using assms by (auto simp: moves_def)
  have ne: "p1 \<noteq> p" using p1(2) wf_rest_of by (metis (no_types, lifting) case_prodI mem_Collect_eq wf_not_refl)
  have who: "k' = k" if "lk_prog s' = (lk_prog s)(k' \<mapsto> p2)" for k' p2
  proof (rule ccontr)
    assume "k' \<noteq> k"
    then have "lk_prog s' k = lk_prog s k" using that by simp
    with p1 assms(2) ne show False by simp
  qed
  have step: "task_step s s'" using assms(1) by (simp add: moves_def)
  show "lk_owner s l = None \<and> lk_prog s' k = Some p' \<and> lk_owner s' = (lk_owner s)(l \<mapsto> k)" if "p = Lock l p'"
    using step
  proof cases
    case (acquire k' l' p2)
    with who have "k' = k" by simp
    with acquire that assms(2) show ?thesis by simp
  next
    case (release k' l' p2)
    with who have "k' = k" by simp
    with release that assms(2) show ?thesis by simp
  next
    case (act k' p3 l' order room p2)
    with who have "k' = k" by simp
    with act that assms(2) have "guard_of (Lock l p') = Some l'" by simp
    then show ?thesis by simp
  next
    case (send k' f w p2)
    with who have "k' = k" by simp
    with send that assms(2) show ?thesis by simp
  qed
  show "lk_owner s' l = lk_owner s l \<or> lk_owner s' l = None" if "\<not> is_lock p"
    using step
  proof cases
    case (acquire k' l' p2)
    with who have "k' = k" by simp
    with acquire that assms(2) show ?thesis by simp
  qed auto
qed

text \<open>A lock is granted to the first in its queue.\<close>

definition granted ::
  "room_lock \<Rightarrow> 'k \<Rightarrow> ('tx, 'w, 'r, 'k, 'c) queued \<Rightarrow> ('tx, 'w, 'r, 'k, 'c) queued \<Rightarrow> bool" where
  "granted l k S S' \<longleftrightarrow>
     snd S l = k # snd S' l \<and> lk_owner (fst S) l = None \<and> lk_owner (fst S') l = Some k \<and>
     (\<exists>p. lk_prog (fst S) k = Some (Lock l p) \<and> lk_prog (fst S') k = Some p)"

lemma fifo_queue:
  assumes "fifo_step ctl x S S'"
  shows "(\<exists>k. x = Some k \<and> granted l k S S') \<or>
    (snd S' l = snd S l \<or> (\<exists>k. x = Some k \<and> k \<notin> set (snd S l) \<and> snd S' l = snd S l @ [k])) \<and>
    (lk_owner (fst S') l = lk_owner (fst S) l \<or> lk_owner (fst S') l = None)"
  using assms
proof cases
  case (dequeue s k l' p q ks s')
  note own = moves_owner(1) [OF dequeue(6,4) refl]
  with dequeue show ?thesis by (cases "l = l'") (auto simp: granted_def)
next
  case (proceed s k p s' q)
  with moves_owner(2) [OF proceed(6,4,5), of l] show ?thesis by simp
qed auto

text \<open>A step of a task that waits: it queues up, or it gets the lock.\<close>

lemma waiting_step:
  assumes "fifo_step ctl x S S'" and k: "lk_prog (fst S) k = Some (Lock l p)"
  shows "x = Some k \<and> granted l k S S' \<and> lk_prog (fst S') k = Some p \<or>
    lk_prog (fst S') k = Some (Lock l p) \<and>
    (x = Some k \<longrightarrow> k \<notin> set (snd S l) \<and> k \<in> set (snd S' l))"
proof (cases "x = Some k")
  case True
  from assms(1) show ?thesis
  proof cases
    case (dequeue s k' l' p' q ks s')
    with True k moves_owner(1) [OF dequeue(6,4) refl] show ?thesis by (auto simp: granted_def)
  next
    case (proceed s k' p' s' q)
    with True k show ?thesis by auto
  qed (use True k in auto)
next
  case False
  with fifo_keeps_prog [of ctl x "fst S" "snd S" "fst S'" "snd S'" k] assms show ?thesis
    by (simp add: at_rest_def)
qed

text \<open>A step of a task that can go on without a lock.\<close>

lemma moving_step:
  assumes "fifo_step ctl x S S'" and k: "lk_prog (fst S) k = Some p" "\<not> is_lock p" "\<not> at_rest (Some p)"
  shows "(if x = Some k then \<exists>p'. lk_prog (fst S') k = Some p' \<and> rest_of p' p
    else lk_prog (fst S') k = Some p)"
proof (cases "x = Some k")
  case True
  from assms(1) show ?thesis
  proof cases
    case (proceed s k' p' s' q)
    with True k show ?thesis by (auto simp: moves_def)
  qed (use True k in auto)
next
  case False
  with fifo_keeps_prog [of ctl x "fst S" "snd S" "fst S'" "snd S'" k] assms show ?thesis by simp
qed

lemma queues_ok_step:
  assumes "fifo_step ctl x S S'" and ok: "queues_ok S"
  shows "queues_ok S'"
proof -
  have queued: "\<exists>p. lk_prog (fst S') k = Some (Lock l p)" if k: "k \<in> set (snd S' l)" for k l
  proof (cases "k \<in> set (snd S l)")
    case True
    then obtain p where p: "lk_prog (fst S) k = Some (Lock l p)" using queues_okD(2) [OF ok] by blast
    have "\<not> granted l k S S'"
      using k queues_okD(1) [OF ok, of l] by (auto simp: granted_def)
    with waiting_step [OF assms(1) p] show ?thesis by blast
  next
    case False
    from fifo_queue [OF assms(1), of l] False k
    have x: "x = Some k" and app: "snd S' l = snd S l @ [k]" by (auto simp: granted_def)
    from assms(1) show ?thesis
    proof cases
      case (enqueue s k' l' p q)
      with x app False show ?thesis by (cases "l = l'") auto
    next
      case (dequeue s k' l' p q ks s')
      with app show ?thesis by (cases "l = l'") (auto dest: arg_cong [of _ _ length])
    qed (use x app in auto)
  qed
  have "distinct (snd S' l)" for l
    using fifo_queue [OF assms(1), of l] ok unfolding queues_ok_def granted_def
    by (metis distinct.simps(2) distinct_append distinct_singleton disjoint_insert(1) empty_set inf_bot_right list.simps(15))
  with queued show ?thesis by (auto simp: queues_ok_def)
qed

section \<open>Endless runs\<close>

definition fairly ::
  "('tx, 'w, 'r, 'k, 'c) control \<Rightarrow> (nat \<Rightarrow> ('tx, 'w, 'r, 'k, 'c) queued) \<Rightarrow> (nat \<Rightarrow> 'k option) \<Rightarrow> bool" where
  "fairly ctl run lab \<longleftrightarrow> fair_run ctl run lab \<and> (\<forall>n. lock_inv (fst (run n)) \<and> queues_ok (run n))"

lemma fairlyI:
  assumes "fair_run ctl run lab" and "disciplined ctl" and "lock_inv (fst (run 0))" and "queues_ok (run 0)"
  shows "fairly ctl run lab"
proof -
  have step: "fifo_step ctl (lab n) (run n) (run (Suc n))" for n using assms(1) by (simp add: fair_run_def)
  have "lock_inv (fst (run n)) \<and> queues_ok (run n)" for n
  proof (induction n)
    case (Suc n)
    with fifo_lock_step [of ctl "lab n" "fst (run n)" "snd (run n)" "fst (run (Suc n))" "snd (run (Suc n))"]
      step [of n] queues_ok_step [OF step] lock_inv_step [OF _ assms(2)]
    show ?case by (metis prod.collapse)
  qed (use assms(3,4) in simp)
  with assms(1) show ?thesis by (simp add: fairly_def)
qed

lemma fairlyD:
  assumes "fairly ctl run lab"
  shows "fifo_step ctl (lab n) (run n) (run (Suc n))" and "lock_inv (fst (run n))" and "queues_ok (run n)"
  using assms by (simp_all add: fairly_def fair_run_def)

text \<open>A task that stays enabled until its turn comes has its turn.\<close>

lemma first_turn:
  assumes "fairly ctl run lab" and "Q n"
    and stays: "\<And>j. n \<le> j \<Longrightarrow> Q j \<Longrightarrow> lab j \<noteq> Some k \<Longrightarrow> Q (Suc j)"
    and enabled: "\<And>j. n \<le> j \<Longrightarrow> Q j \<Longrightarrow> enabled ctl k (run j)"
  shows "\<exists>m \<ge> n. lab m = Some k \<and> Q m"
proof (rule ccontr)
  assume none: "\<not> ?thesis"
  have Q: "Q j" if "n \<le> j" for j
    using that
  proof (induction j rule: dec_induct)
    case (step j)
    with stays none show ?case by blast
  qed (fact assms(2))
  with enabled have "\<forall>m \<ge> n. enabled ctl k (run m)" by blast
  with assms(1) have "\<exists>m \<ge> n. lab m = Some k" by (simp add: fairly_def fair_run_def)
  with Q none show False by blast
qed

lemma task_moves_on:
  assumes fair: "fairly ctl run lab"
    and "lk_prog (fst (run n)) k = Some p" and "\<not> is_lock p" and "\<not> at_rest (Some p)"
  shows "\<exists>m \<ge> n. \<exists>p'. lk_prog (fst (run (Suc m))) k = Some p' \<and> rest_of p' p"
proof -
  have "enabled ctl k (run j)" if "lk_prog (fst (run j)) k = Some p" for j
    using moves_exists [OF that assms(4,3)] fifo_step.proceed [OF that assms(3)]
    unfolding enabled_def by (metis prod.collapse)
  moreover have "lk_prog (fst (run (Suc j))) k = Some p"
    if "lk_prog (fst (run j)) k = Some p" "lab j \<noteq> Some k" for j
    using moving_step [OF fairlyD(1) [OF fair] that(1) assms(3,4)] that(2) by simp
  ultimately obtain m where "m \<ge> n" "lab m = Some k" "lk_prog (fst (run m)) k = Some p"
    using first_turn [OF fair, of "\<lambda>j. lk_prog (fst (run j)) k = Some p" n k] assms(2) by blast
  with moving_step [OF fairlyD(1) [OF fair] this(3) assms(3,4)] show ?thesis by auto
qed

lemma owner_until:
  assumes fair: "fairly ctl run lab" and "lk_owner (fst (run n)) l = Some k" and "n \<le> m"
  shows "(\<exists>j \<ge> n. lk_owner (fst (run j)) l = None) \<or> lk_owner (fst (run m)) l = Some k"
  using assms(3)
proof (induction m rule: dec_induct)
  case (step m)
  then show ?case
    using fifo_queue [OF fairlyD(1) [OF fair], of m l] unfolding granted_def
    by (metis le_SucI option.distinct(1) option.inject)
qed (use assms(2) in simp)

section \<open>Everyone gets the lock\<close>

definition freed :: "(nat \<Rightarrow> ('tx, 'w, 'r, 'k, 'c) queued) \<Rightarrow> room_lock \<Rightarrow> bool" where
  "freed run l \<longleftrightarrow>
     (\<forall>n k. lk_owner (fst (run n)) l = Some k \<longrightarrow> (\<exists>m \<ge> n. lk_owner (fst (run m)) l = None))"

definition serves_all :: "(nat \<Rightarrow> ('tx, 'w, 'r, 'k, 'c) queued) \<Rightarrow> room_lock \<Rightarrow> bool" where
  "serves_all run l \<longleftrightarrow>
     (\<forall>n k p. lk_prog (fst (run n)) k = Some (Lock l p) \<longrightarrow>
        (\<exists>m \<ge> n. granted l k (run m) (run (Suc m)) \<and> lk_prog (fst (run (Suc m))) k = Some p))"

text \<open>A lock whose owners let it go is granted to the first in its queue.\<close>

lemma some_grant:
  assumes fair: "fairly ctl run lab" and "freed run l" and head: "snd (run n) l = k # ks"
  shows "\<exists>m \<ge> n. \<exists>j. granted l j (run m) (run (Suc m))"
proof (rule ccontr)
  assume "\<not> ?thesis"
  then have none: "\<not> granted l j (run m) (run (Suc m))" if "n \<le> m" for m j using that by blast
  have grow: "(snd (run (Suc m)) l = snd (run m) l \<or> (\<exists>j. snd (run (Suc m)) l = snd (run m) l @ [j])) \<and>
      (lk_owner (fst (run (Suc m))) l = lk_owner (fst (run m)) l \<or> lk_owner (fst (run (Suc m))) l = None)"
    if "n \<le> m" for m
    using none [OF that] fifo_queue [OF fairlyD(1) [OF fair], of m l] by auto
  have heads: "\<exists>ks. snd (run m) l = k # ks" if "n \<le> m" for m
    using that
  proof (induction m rule: dec_induct)
    case (step m)
    with grow [of m] show ?case by auto
  qed (use head in blast)
  obtain m0 where m0: "n \<le> m0" "lk_owner (fst (run m0)) l = None"
    using assms(2) unfolding freed_def by (metis not_None_eq order_refl)
  let ?Q = "\<lambda>j. lk_owner (fst (run j)) l = None"
  have "enabled ctl k (run j)" if j: "m0 \<le> j" "?Q j" for j
  proof -
    obtain ks where ks: "snd (run j) l = k # ks" using heads j(1) m0(1) by (meson order_trans)
    then obtain p where p: "lk_prog (fst (run j)) k = Some (Lock l p)"
      using queues_okD(2) [OF fairlyD(3) [OF fair], of k j l] by auto
    from lock_moves [OF p j(2)] obtain s' where "moves k (fst (run j)) s'" by blast
    from fifo_step.dequeue [of "fst (run j)" k l p "snd (run j)", OF p ks this] show ?thesis
      unfolding enabled_def by (metis prod.collapse)
  qed
  moreover have "?Q (Suc j)" if "m0 \<le> j" "?Q j" for j
    using grow [of j] that m0(1) by auto
  ultimately obtain m where m: "m \<ge> m0" "lab m = Some k"
    using first_turn [OF fair, of ?Q m0 k] m0(2) by blast
  then obtain ks where ks: "snd (run m) l = k # ks" using heads m0(1) by (meson order_trans)
  then obtain p where "lk_prog (fst (run m)) k = Some (Lock l p)"
    using queues_okD(2) [OF fairlyD(3) [OF fair], of k m l] by auto
  from waiting_step [OF fairlyD(1) [OF fair] this] m(2) ks have "granted l k (run m) (run (Suc m))" by auto
  with none m(1) m0(1) show False by (meson order_trans)
qed

lemma head_granted:
  assumes fair: "fairly ctl run lab" and "freed run l" and head: "snd (run n) l = k # ks"
  shows "\<exists>m \<ge> n. \<exists>zs. granted l k (run m) (run (Suc m)) \<and> snd (run (Suc m)) l = ks @ zs"
proof -
  let ?G = "\<lambda>m. n \<le> m \<and> (\<exists>j. granted l j (run m) (run (Suc m)))"
  define m where "m = (LEAST m. ?G m)"
  have "\<exists>m. ?G m" using some_grant [OF assms] by blast
  then have "?G m" unfolding m_def by (rule LeastI_ex)
  moreover have before: "\<not> ?G j" if "j < m" for j using that [unfolded m_def] by (rule not_less_Least)
  have "\<exists>zs. snd (run j) l = k # ks @ zs" if "n \<le> j" "j \<le> m" for j
    using that
  proof (induction j rule: dec_induct)
    case (step j)
    then obtain zs where zs: "snd (run j) l = k # ks @ zs" by auto
    have "\<not> granted l i (run j) (run (Suc j))" for i using before [of j] step.hyps(1) step.prems by simp
    with fifo_queue [OF fairlyD(1) [OF fair], of j l] have
      "snd (run (Suc j)) l = snd (run j) l \<or> (\<exists>i. snd (run (Suc j)) l = snd (run j) l @ [i])" by blast
    with zs show ?case by auto
  qed (simp add: head)
  ultimately obtain j zs where m: "n \<le> m" and g: "granted l j (run m) (run (Suc m))"
    and q: "snd (run m) l = k # ks @ zs" by blast
  from g q have "j = k" "snd (run (Suc m)) l = ks @ zs" by (simp_all add: granted_def)
  with m g show ?thesis by blast
qed

lemma queued_granted:
  assumes fair: "fairly ctl run lab" and freed: "freed run l" and "snd (run n) l = xs @ k # ys"
  shows "\<exists>m \<ge> n. granted l k (run m) (run (Suc m))"
  using assms(3)
proof (induction xs arbitrary: n ys)
  case Nil
  with head_granted [OF fair freed, of n k ys] show ?case by auto
next
  case (Cons x xs)
  from head_granted [OF fair freed, of n x "xs @ k # ys"] Cons.prems obtain m zs
    where "n \<le> m" "snd (run (Suc m)) l = xs @ k # ys @ zs" by auto
  with Cons.IH [of "Suc m"] show ?case by (meson Suc_leD order_trans)
qed

text \<open>Who asks is in the queue some time later.\<close>

lemma asks_queued:
  assumes fair: "fairly ctl run lab" and k: "lk_prog (fst (run n)) k = Some (Lock l p)"
  shows "\<exists>m \<ge> n. k \<in> set (snd (run m) l)"
proof (cases "k \<in> set (snd (run n) l)")
  case False
  let ?Q = "\<lambda>j. lk_prog (fst (run j)) k = Some (Lock l p) \<and> k \<notin> set (snd (run j) l)"
  have "enabled ctl k (run j)" if "?Q j" for j
    using that fifo_step.enqueue [of "fst (run j)" k l p "snd (run j)" ctl]
    unfolding enabled_def by (metis prod.collapse)
  moreover have "?Q (Suc j)" if "?Q j" "lab j \<noteq> Some k" for j
    using that waiting_step [OF fairlyD(1) [OF fair], of j k l p] fifo_queue [OF fairlyD(1) [OF fair], of j l]
    by (auto simp: granted_def)
  ultimately obtain m where m: "m \<ge> n" "lab m = Some k" "?Q m"
    using first_turn [OF fair, of ?Q n k] k False by blast
  with waiting_step [OF fairlyD(1) [OF fair], of m k l p]
    have "granted l k (run m) (run (Suc m)) \<or> k \<in> set (snd (run (Suc m)) l)" by blast
  with m(1,3) show ?thesis by (auto simp: granted_def intro: le_SucI)
qed blast

lemma freed_served:
  assumes fair: "fairly ctl run lab" and freed: "freed run l"
  shows "serves_all run l"
  unfolding serves_all_def
proof (intro allI impI)
  fix n k p assume k: "lk_prog (fst (run n)) k = Some (Lock l p)"
  let ?G = "\<lambda>m. n \<le> m \<and> granted l k (run m) (run (Suc m))"
  define m where "m = (LEAST m. ?G m)"
  obtain m0 where m0: "n \<le> m0" "k \<in> set (snd (run m0) l)" using asks_queued [OF fair k] by blast
  then obtain xs ys where "snd (run m0) l = xs @ k # ys" by (meson split_list)
  from queued_granted [OF fair freed this] m0(1) have "\<exists>m. ?G m" by (meson order_trans)
  then have "?G m" unfolding m_def by (rule LeastI_ex)
  have before: "\<not> ?G j" if "j < m" for j using that [unfolded m_def] by (rule not_less_Least)
  have "lk_prog (fst (run j)) k = Some (Lock l p)" if "n \<le> j" "j \<le> m" for j
    using that
  proof (induction j rule: dec_induct)
    case (step j)
    with before [of j] waiting_step [OF fairlyD(1) [OF fair], of j k l p] show ?case by auto
  qed (simp add: k)
  with \<open>?G m\<close> show "\<exists>m \<ge> n. granted l k (run m) (run (Suc m)) \<and> lk_prog (fst (run (Suc m))) k = Some p"
    by (auto simp: granted_def)
qed

text \<open>A task lets a lock go, when the locks above it are served.\<close>

lemma served_freed:
  assumes fair: "fairly ctl run lab" and above: "\<And>l'. l < l' \<Longrightarrow> serves_all run l'"
  shows "freed run l"
proof -
  have "\<exists>m \<ge> n. lk_owner (fst (run m)) l = None"
    if "lk_prog (fst (run n)) k = Some p" "lk_owner (fst (run n)) l = Some k" for n k p
    using that
  proof (induction p arbitrary: n rule: rest_of_induct)
    case (1 p)
    have wl: "well_locked (held (fst (run n)) k) p" and l: "l \<in> held (fst (run n)) k"
      using lock_invD(1) [OF fairlyD(2) [OF fair] "1.prems"(1)] "1.prems"(2) by (simp_all add: held_def)
    have "\<exists>m \<ge> n. \<exists>p'. lk_prog (fst (run (Suc m))) k = Some p' \<and> rest_of p' p"
    proof (cases p)
      case (Lock l' p')
      with wl l have "l < l'" by simp
      with above have "serves_all run l'" by blast
      with "1.prems"(1) Lock show ?thesis unfolding serves_all_def by fastforce
    next
      case (Done r)
      with wl l show ?thesis by simp
    qed (use task_moves_on [OF fair "1.prems"(1)] in \<open>auto simp: at_rest_def\<close>)
    then obtain m p' where m: "n \<le> m" "lk_prog (fst (run (Suc m))) k = Some p'" "rest_of p' p" by blast
    with owner_until [OF fair "1.prems"(2), of "Suc m"] "1.IH" [OF m(3,2)] show ?case
      by (meson le_SucI order_trans)
  qed
  moreover have "lk_prog (fst (run n)) k \<noteq> None" if "lk_owner (fst (run n)) l = Some k" for n k
    using lock_invD(2) [OF fairlyD(2) [OF fair], of n k] that by (auto simp: held_def)
  ultimately show ?thesis unfolding freed_def by blast
qed

lemma all_served:
  assumes fair: "fairly ctl run lab"
  shows "serves_all run l"
proof (induction "2 - lock_rank l" arbitrary: l rule: less_induct)
  case less
  have "serves_all run l'" if "l < l'" for l'
    using less [of l'] that lock_rank_bound [of l'] by (simp add: less_room_lock_def)
  then show ?case using freed_served [OF fair served_freed [OF fair]] by blast
qed

lemma every_block_ends:
  assumes fair: "fairly ctl run lab" and "lk_prog (fst (run n)) k = Some p"
  shows "\<exists>m \<ge> n. at_rest (lk_prog (fst (run m)) k)"
  using assms(2)
proof (induction p arbitrary: n rule: rest_of_induct)
  case (1 p)
  show ?case
  proof (cases "at_rest (Some p)")
    case False
    have "\<exists>m \<ge> n. \<exists>p'. lk_prog (fst (run (Suc m))) k = Some p' \<and> rest_of p' p"
    proof (cases "is_lock p")
      case True
      then obtain l p' where "p = Lock l p'" by (cases p) auto
      with "1.prems" all_served [OF fair, of l] show ?thesis unfolding serves_all_def by fastforce
    qed (use task_moves_on [OF fair "1.prems"] False in blast)
    with "1.IH" show ?thesis by (meson le_SucI order_trans)
  qed (use "1.prems" in auto)
qed

section \<open>Fair runs exist\<close>

text \<open>\<open>S\<close> is the start of a fair run, and a fair run from \<open>S0\<close> passes through \<open>S\<close>.\<close>

definition starts :: "('tx, 'w, 'r, 'k, 'c) control \<Rightarrow> ('tx, 'w, 'r, 'k, 'c) queued \<Rightarrow> bool" where
  "starts ctl S \<longleftrightarrow> (\<exists>run lab. fair_run ctl run lab \<and> run 0 = S)"

definition passes ::
  "('tx, 'w, 'r, 'k, 'c) control \<Rightarrow> ('tx, 'w, 'r, 'k, 'c) queued \<Rightarrow> ('tx, 'w, 'r, 'k, 'c) queued \<Rightarrow> bool" where
  "passes ctl S0 S \<longleftrightarrow> (\<exists>run lab n. fair_run ctl run lab \<and> run 0 = S0 \<and> run n = S)"

lemma fair_run_Cons:
  assumes step: "fifo_step ctl x S (run 0)" and fair: "fair_run ctl run lab"
  shows "fair_run ctl (case_nat S run) (case_nat x lab)"
proof -
  have "\<exists>m \<ge> n. case_nat x lab m = Some k" if "\<forall>m \<ge> n. enabled ctl k (case_nat S run m)" for k n
  proof -
    have "\<forall>m \<ge> n. enabled ctl k (run m)" using that by (metis le_SucI old.nat.simps(5))
    with fair obtain m where "m \<ge> n" "lab m = Some k" unfolding fair_run_def by blast
    then show ?thesis by (intro exI [of _ "Suc m"]) simp
  qed
  moreover have "fifo_step ctl (case_nat x lab n) (case_nat S run n) (case_nat S run (Suc n))" for n
    using step fair by (cases n) (simp_all add: fair_run_def)
  ultimately show ?thesis by (simp add: fair_run_def)
qed

lemma starts_step: "fifo_step ctl x S S' \<Longrightarrow> starts ctl S' \<Longrightarrow> starts ctl S"
  unfolding starts_def by (metis fair_run_Cons old.nat.simps(4))

lemma passes_step: "fifo_step ctl x S0 S1 \<Longrightarrow> passes ctl S1 S \<Longrightarrow> passes ctl S0 S"
  unfolding passes_def by (metis fair_run_Cons old.nat.simps(4,5))

lemma passes_refl: "starts ctl S \<Longrightarrow> passes ctl S S"
  unfolding starts_def passes_def by metis

lemma starts_at_rest:
  assumes "\<And>k. at_rest (lk_prog s k)"
  shows "starts ctl (s, q)"
proof -
  have "\<not> enabled ctl k (s, q)" for k
    using assms [of k]
    by (auto simp: enabled_def moves_def at_rest_def elim!: fifo_step.cases split: option.splits prog.splits)
  moreover have "fifo_step ctl None (s, q) (s, q)"
    using fifo_step.tick [of s "lk_now s" ctl q] by simp
  ultimately show ?thesis
    unfolding starts_def by (intro exI [of _ "\<lambda>_. (s, q)"] exI [of _ "\<lambda>_. None"]) (auto simp: fair_run_def)
qed

lemma task_step_moves: "task_step s s' \<Longrightarrow> \<exists>k p. lk_prog s k = Some p \<and> moves k s s'"
  by (metis moves_def task_step_rest)

text \<open>When a task can go on, the queues let one go on.\<close>

lemma queues_let:
  assumes "task_step s s'" and ok: "queues_ok (s, q)"
  shows "\<exists>x y S1 s1 q1. fifo_step ctl y S1 (s1, q1) \<and> task_step s s1 \<and>
    (S1 = (s, q) \<or> fifo_step ctl x (s, q) S1)"
proof -
  obtain k p where k: "lk_prog s k = Some p" "moves k s s'" using task_step_moves [OF assms(1)] by blast
  show ?thesis
  proof (cases "is_lock p")
    case False
    with fifo_step.proceed [OF k(1) _ k(2)] assms(1) show ?thesis by blast
  next
    case True
    then obtain l p' where p: "p = Lock l p'" by (cases p) auto
    from moves_owner(1) [OF k(2,1) p] have free: "lk_owner s l = None" by blast
    show ?thesis
    proof (cases "q l")
      case Nil
      then have "fifo_step ctl (Some k) (s, q) (s, q(l := q l @ [k]))"
        using k(1) p by (intro fifo_step.enqueue) auto
      moreover have "fifo_step ctl (Some k) (s, q(l := q l @ [k])) (s', (q(l := q l @ [k]))(l := []))"
        using k p Nil by (intro fifo_step.dequeue) auto
      ultimately show ?thesis using assms(1) by blast
    next
      case (Cons j ks)
      then obtain pj where pj: "lk_prog s j = Some (Lock l pj)" using queues_okD(2) [OF ok, of j l] by auto
      from lock_moves [OF pj free] obtain s1 where s1: "moves j s s1" by blast
      have "fifo_step ctl (Some j) (s, q) (s1, q(l := ks))" using pj Cons s1 by (rule fifo_step.dequeue)
      moreover have "task_step s s1" using s1 by (simp add: moves_def)
      ultimately show ?thesis by blast
    qed
  qed
qed

lemma fair_run_exists:
  fixes s :: "('a, 'b, 'c, 'k, 'd) locked"
  assumes inv: "lock_inv s" and fin: "finite (dom (lk_prog s))" and ok: "queues_ok (s, q)"
  shows "starts ctl (s, q)"
proof -
  have wf: "wf (mult {(q, p :: ('a, 'b, 'c) prog). rest_of q p})" by (rule wf_mult) (rule wf_rest_of)
  show ?thesis
    using wf inv fin ok
  proof (induction "programs s" arbitrary: s q rule: wf_induct_rule)
    case less
    show ?case
    proof (cases "\<exists>s1. task_step s s1")
      case True
      then obtain x y S1 s1 q1 where s1: "fifo_step ctl y S1 (s1, q1)" "task_step s s1"
        and S1: "S1 = (s, q) \<or> fifo_step ctl x (s, q) S1"
        using queues_let [OF _ less.prems(3)] by meson
      have "queues_ok S1" using S1 less.prems(3) queues_ok_step by blast
      then have "lock_inv s1" "finite (dom (lk_prog s1))" "queues_ok (s1, q1)"
        using lock_inv_task [OF s1(2)] programs_decrease(2) [OF s1(2)] less.prems
          queues_ok_step [OF s1(1)] by auto
      from less.hyps [OF programs_decrease(1) [OF s1(2) less.prems(2)] this]
      show ?thesis using starts_step s1(1) S1 by blast
    next
      case False
      with stuck_all_done [OF less.prems(1)] have "at_rest (lk_prog s k)" for k by (simp add: all_done_def)
      then show ?thesis by (rule starts_at_rest)
    qed
  qed
qed

text \<open>Whatever the machine without queues does is the beginning of a fair run.\<close>

lemma passes_lock_step:
  assumes "lock_step ctl s s1" and "passes ctl (s1, \<lambda>_. []) S"
  shows "passes ctl (s, \<lambda>_. []) S"
  using assms(1)
proof cases
  case task
  have "queues_ok (s, \<lambda>_. [])" by (simp add: queues_ok_def)
  obtain k p where k: "lk_prog s k = Some p" "moves k s s1" using task_step_moves [OF task] by blast
  show ?thesis
  proof (cases "is_lock p")
    case False
    from passes_step [OF fifo_step.proceed [OF k(1) False k(2)] assms(2)] show ?thesis .
  next
    case True
    then obtain l p' where p: "p = Lock l p'" by (cases p) auto
    let ?q = "(\<lambda>_. [])(l := [k])"
    have "fifo_step ctl (Some k) (s, ?q) (s1, ?q(l := []))"
      using k p by (intro fifo_step.dequeue) auto
    moreover have "fifo_step ctl (Some k) (s, \<lambda>_. []) (s, ?q)"
      using fifo_step.enqueue [of s k l p' "\<lambda>_. []" ctl] k(1) p by simp
    moreover have "?q(l := []) = (\<lambda>_. [])" by (simp add: fun_eq_iff)
    ultimately show ?thesis using passes_step assms(2) by metis
  qed
qed (use assms(2) in \<open>auto intro: passes_step fifo_step.tick fifo_step.drain fifo_step.control\<close>)

lemma fair_run_through:
  assumes "(lock_step ctl)\<^sup>*\<^sup>* s0 s" and "lock_inv s" and "finite (dom (lk_prog s))"
  shows "passes ctl (s0, \<lambda>_. []) (s, \<lambda>_. [])"
  using assms(1)
proof (induction rule: converse_rtranclp_induct)
  case base
  show ?case by (rule passes_refl [OF fair_run_exists [OF assms(2,3)]]) (simp add: queues_ok_def)
next
  case (step s1 s2)
  then show ?case by (blast intro: passes_lock_step)
qed

end
