(* ===== verification/SampleRuns.thy ===== *)
theory SampleRuns
  imports SampleHub SweepRace Times ServerMachine FairLocks
begin

text \<open>
  More concrete runs for the witnesses: Bob's connection holds the sessions of a room while the sweeper
  waits for them, a connection that is stuck in a send, a user whom the sweeper finds, a
  process that fails, and a server that lets a connection into a room.
\<close>

section \<open>A lock that is waited for\<close>

type_synonym sample_locked = "(nat, sample_world, nat phase, task_id, nat room_tasks) locked"

definition locked_start :: sample_locked where
  "locked_start = locked_init (lit ''main'') (replicate 32 3) [4] (\<lambda>_. [])"

text \<open>Both tasks have set out; Bob is faster.\<close>

definition locked_set_out :: sample_locked where
  "locked_set_out = locked_start
     \<lparr>lk_ctl := \<lparr>rt_users = [7 \<mapsto> lit ''bob''], rt_outbox = [7 \<mapsto> 0]\<rparr>,
      lk_prog := [Conn 7 \<mapsto> join_site 7 (lit ''bob'') 0, Sweeper \<mapsto> stale_site]\<rparr>"

definition locked_wait :: sample_locked where
  "locked_wait = locked_set_out
     \<lparr>lk_room := (lk_room locked_start)
        \<lparr>rs_sessions := ss_insert 0 7 (lit ''bob'') (rs_sessions (lk_room locked_start))\<rparr>,
      lk_prog := [Conn 7 \<mapsto> Lock Connections (OnConnections (\<lambda>_ conns. (cm_insert 7 0 conns,
          Unlock Connections (Unlock Sessions (Done (At stage.Joined)))))), Sweeper \<mapsto> stale_site],
      lk_owner := [Sessions \<mapsto> Conn 7]\<rparr>"

lemma locked_set_out_reachable: "(lock_step (room_control sample_send))\<^sup>*\<^sup>* locked_start locked_set_out"
proof -
  let ?c = "\<lparr>rt_users = [7 \<mapsto> lit ''bob''], rt_outbox = [7 \<mapsto> 0]\<rparr> :: nat room_tasks"
  let ?s = "locked_start\<lparr>lk_ctl := ?c, lk_prog := [Conn 7 \<mapsto> join_site 7 (lit ''bob'') 0]\<rparr>"
  have "room_control sample_send (lk_ctl locked_start) (Conn 7) (lk_prog locked_start (Conn 7)) ?c
      (Some (join_site 7 (lit ''bob'') 0))"
    using room_control.rc_join [of "lk_ctl locked_start" 7 0 "lit ''bob''" sample_send] sample_bob
    by (simp add: locked_start_def locked_init_def)
  then have "lock_step (room_control sample_send) locked_start ?s"
    using lock_step.control [of locked_start "Conn 7" "room_control sample_send"]
    by (simp add: locked_start_def locked_init_def)
  moreover have "lock_step (room_control sample_send) ?s locked_set_out"
    using lock_step.control [of ?s Sweeper "room_control sample_send" ?c "Some stale_site"]
    by (simp add: room_control.rc_sweep locked_set_out_def locked_start_def locked_init_def fun_upd_twist)
  ultimately show ?thesis by (meson r_into_rtranclp rtranclp.rtrancl_into_rtrancl)
qed

lemma locked_wait_reachable: "(lock_step (room_control sample_send))\<^sup>*\<^sup>* locked_start locked_wait"
proof -
  let ?p = "Lock Connections (OnConnections (\<lambda>_ conns. (cm_insert 7 0 conns,
      Unlock Connections (Unlock Sessions (Done (At stage.Joined))))))"
  let ?q = "OnSessions (\<lambda>now _ sessions. (ss_insert now 7 (lit ''bob'') sessions, ?p)) ::
    (nat, sample_world) site"
  let ?s = "locked_set_out\<lparr>lk_owner := [Sessions \<mapsto> Conn 7],
    lk_prog := [Conn 7 \<mapsto> ?q, Sweeper \<mapsto> stale_site]\<rparr>"
  have "task_step locked_set_out ?s"
    using task_step.acquire [of locked_set_out "Conn 7" Sessions ?q]
    by (simp add: locked_set_out_def locked_start_def locked_init_def join_site_def fun_upd_twist)
  moreover have "task_step ?s locked_wait"
  proof -
    obtain order where "order_for ?q (lk_room ?s) order" using order_for_exists by blast
    from task_step.act [of ?s "Conn 7" ?q Sessions order, OF _ _ this]
    show ?thesis
      by (simp add: locked_wait_def locked_set_out_def locked_start_def locked_init_def fun_upd_twist)
  qed
  ultimately show ?thesis
    using locked_set_out_reachable
    by (meson lock_step.task rtranclp.rtrancl_into_rtrancl)
qed

lemma locked_wait_prog:
  "\<exists>p. lk_prog locked_wait (Conn 7) = Some (Lock Connections p)"
  "lk_prog locked_wait Sweeper = Some stale_site"
  "lk_owner locked_wait = [Sessions \<mapsto> Conn 7]"
  by (simp_all add: locked_wait_def)

section \<open>A peer that has stopped reading\<close>

text \<open>After a frame has come into Bob's outbox, sending it never completes; that the shutdown is cancelled
  then is no longer seen.\<close>

definition stalled_before :: "(nat, sample_world) turn list" where
  "stalled_before =
     [MainTurn (Accepted 1 (V4 1)), ConnTurn 0 (Elsewhere toy_room (\<lambda>_. [ServerError BadFrame]))]"

definition stalled_polls :: "(bool \<times> (nat, sample_world) poll) list" where
  "stalled_polls =
     [(False, Elsewhere toy_room (\<lambda>_. [ServerError BadFrame])), (False, Poll True True None)]"

lemma stalled_seen:
  assumes "hub_ratelimit hub = rate_limiter_new RATELIMIT_MAX RATELIMIT_WINDOW"
  shows "conn_polls hub 0 (stalled_before @ [ConnTurn 0 (Poll True True None)]) = stalled_polls"
  using one_spawned [OF assms] run_loop_uninterrupted [of "[Accepted 1 (V4 1)]" hub]
  by (simp add: conn_polls_def stalled_before_def stalled_polls_def map_filter_simps main_events_def)

definition stalled_task :: "pipe \<Rightarrow> (role \<times> bytes \<times> bytes \<times> nat, nat \<times> nat, pipe, nat, sample_world) conn_task" where
  "stalled_task s =
     \<lparr>ct_env = toy_server, ct_oracle = toy_oracle, ct_hub = toy_hub, ct_socket = s, ct_chan = (\<lambda>_. [])\<rparr>"

lemma toy_stalled:
  obtains s where "fst (handle_connection toy_server toy_oracle (poll_events stalled_polls) toy_hub s
    (\<lambda>_. [])) = None"
proof -
  have "room_for (ce_kdf toy_client) [1, 2, 3] (lit ''main'') toy_keys toy_room"
    using toy_room_for by (simp add: toy_client_def)
  from session_reached [OF toy_joined toy_no_timeouts toy_hub_rooms this sample_bob toy_join_ok toy_room_inv, of "\<lambda>_. []"]
  obtain c2s ts s1 room' s2 tr w' where
    auth: "authenticate toy_server toy_oracle toy_hub (c2s, []) = (Inr (toy_room, lit ''bob'', ts), ([], s1))"
    and serve: "serve toy_server toy_oracle [] (lit ''bob'') toy_room ([], s1) ts (\<lambda>_. []) =
      (None, room', ([], s2), tr, w')"
    by blast
  have rx: "se_recv toy_server tx (\<lambda>_. [ServerError BadFrame]) =
      (Some (ServerError BadFrame), (\<lambda>_. [ServerError BadFrame])(tx := []))" for tx
    by (simp add: toy_server_def)
  have room: "find_room toy_oracle (toy_hub\<lparr>hub_active_conns := n\<rparr>) = find_room toy_oracle toy_hub" for n
    by (simp add: fun_eq_iff find_room_def)
  have "fst (serve toy_server toy_oracle (poll_events stalled_polls) (lit ''bob'') toy_room ([], s1) ts
      (\<lambda>_. [])) = None"
    using serve by (auto simp: serve_alt stalled_polls_def rx split: prod.splits sum.splits option.splits)
  moreover have "authenticate toy_server toy_oracle (toy_hub\<lparr>hub_active_conns := n\<rparr>) (c2s, []) =
      authenticate toy_server toy_oracle toy_hub (c2s, [])" for n
    unfolding authenticate_def authenticate_timed_def room by (rule refl)
  moreover have "try_acquire MAX_ACTIVE_CONNS (hub_active_conns toy_hub) = (True, 1)"
    by (simp add: try_acquire_def toy_hub_def MAX_ACTIVE_CONNS_def)
  ultimately have "fst (handle_connection toy_server toy_oracle (poll_events stalled_polls) toy_hub
      (c2s, []) (\<lambda>_. [])) = None"
    using auth by (auto simp: handle_connection_def Let_def split: prod.splits option.splits)
  then show thesis by (rule that)
qed

section \<open>A silent user\<close>

text \<open>Bob's last sign of life was at the start of the server. The rooms are visited five minutes apart; the
  twelfth visit is at the session timeout, the thirteenth after it.\<close>

abbreviation "silent_room \<equiv> register 0 7 (lit ''bob'') 0 sample_room"

definition silent_hub :: "nat server_hub" where
  "silent_hub = sample_hub\<lparr>hub_rooms := [lit ''main'' \<mapsto> silent_room]\<rparr>"

definition silent_tick :: "nat \<Rightarrow> nat sweeper_turn" where
  "silent_tick k = SweeperTick (tick_due 0 k) [(lit ''main'', tick_due 0 k, [7])]"

definition silent_turns :: "nat \<Rightarrow> nat sweeper_turn list" where
  "silent_turns n = map silent_tick [1..<Suc n]"

lemma silent_sessions:
  "ss_sessions (rs_sessions silent_room) = [7 \<mapsto> fresh_session 7 (lit ''bob'', 0)]"
  "ss_timeout (rs_sessions silent_room) = SESSION_TIMEOUT"
  by (simp_all add: store_simps sample_room_def room_state_new_def register_def frame_simps)

lemma silent_hub_facts:
  "room_timeout (lit ''main'') silent_hub = Some SESSION_TIMEOUT"
  "user_of (lit ''main'') 7 silent_hub = Some (fresh_session 7 (lit ''bob'', 0))"
  "outbox_of (lit ''main'') 7 silent_hub = Some 0"
  by (simp_all add: silent_hub_def room_timeout_def user_of_def outbox_of_def silent_sessions del: lit_simps)
    (simp add: store_simps)

lemma silent_timely: "timely 0 0 (tick_due 0 n) (silent_turns n)"
proof -
  have on: "on_time 0 0 k (map silent_tick [k..<m])" for k m
  proof (induction "m - k" arbitrary: k)
    case (Suc d)
    then show ?case by (simp add: upt_conv_Cons silent_tick_def)
  qed simp
  have count: "ticks (map silent_tick ks) = length ks" for ks
    by (induction ks) (simp_all add: silent_tick_def)
  have "0 < SWEEP_INTERVAL" by (simp add: SWEEP_INTERVAL_def from_secs_def)
  then show ?thesis
    using on [of 1 "Suc n"]
    by (auto simp: timely_def silent_turns_def count silent_tick_def tick_due_def simp del: upt_Suc)
qed

lemma silent_uncancelled: "SweeperCancelled \<notin> set (silent_turns n)"
  by (auto simp: silent_turns_def silent_tick_def)

text \<open>A tick up to the timeout changes no room.\<close>

lemma silent_tick_rooms:
  assumes "hub_rooms hub = [lit ''main'' \<mapsto> silent_room]" and "k \<le> 12"
  shows "hub_rooms (sweeper_tick t [(lit ''main'', tick_due 0 k, [7])] hub) = [lit ''main'' \<mapsto> silent_room]"
proof -
  have "ss_stale (tick_due 0 k) [7] (rs_sessions silent_room) = []"
    using assms(2)
    by (simp add: ss_stale_def entries_def silent_sessions fresh_session_def duration_since_def
        tick_due_def SWEEP_INTERVAL_def SESSION_TIMEOUT_def from_secs_def map_filter_simps del: lit_simps)
  then show ?thesis using assms(1) by (simp add: sweeper_tick_def sweep_room_def del: lit_simps)
qed

lemma silent_quiet: "quiet (lit ''main'') 7 (silent_turns (min n 13)) silent_hub"
proof -
  have "quiet (lit ''main'') 7 (map silent_tick [k..<m]) hub"
    if "hub_rooms hub = [lit ''main'' \<mapsto> silent_room]" "m \<le> 14" for hub k m
    using that
  proof (induction "m - k" arbitrary: k hub)
    case (Suc d)
    have "visits_ok [(lit ''main'', tick_due 0 k, [7])] hub"
      using Suc.prems(1) by (simp add: visits_ok_def iteration_order_def silent_sessions del: lit_simps)
    moreover have "quiet (lit ''main'') 7 (map silent_tick [Suc k..<m])
        (sweeper_tick (tick_due 0 k) [(lit ''main'', tick_due 0 k, [7])] hub)"
    proof (cases "k \<le> 12")
      case True
      with Suc silent_tick_rooms [OF Suc.prems(1)] show ?thesis by (simp del: lit_simps)
    next
      case False
      with Suc.prems(2) show ?thesis by simp
    qed
    ultimately show ?case using Suc.hyps(2) by (simp add: upt_conv_Cons silent_tick_def del: lit_simps)
  qed simp
  then show ?thesis by (simp add: silent_turns_def silent_hub_def del: lit_simps upt_Suc)
qed

section \<open>A late sweep\<close>

text \<open>Bob has joined, and then nothing happens for more than an hour.\<close>

definition sample_late :: "(nat, sample_world) machine" where
  "sample_late = sample_joined\<lparr>mc_now := from_secs 3601\<rparr>"

lemma sample_joined_state:
  "sample_joined = sample_state (sample_session 0 []) [] (\<lambda>_. []) Ready [] (\<lambda>_. [])"
  by (simp add: sample_joined_def sample_init_def do_join_def do_welcomed_def machine_init_def at_stage_def
      register_def room_state_new_def cm_insert_def ss_insert_def connection_manager_new_def
      session_store_new_def message_store_new_def sample_state_def sample_session_def)

lemma sample_late_reachable: "reachable sample_send sample_init sample_late"
  unfolding sample_late_def
  by (rule reachable.step [OF sample_joined_reachable machine_step.tick])
    (simp add: sample_joined_state sample_state_def)

lemma sample_late_facts:
  "mc_sweep sample_late = []"
  "mc_tasks sample_late 7 = Some \<lparr>tk_username = lit ''bob'', tk_stage = Ready\<rparr>"
  "ss_sessions (rs_sessions (mc_room sample_late)) 7 = Some (sample_session 0 [])"
  "ss_timeout (rs_sessions (mc_room sample_late)) <
     duration_since (mc_now sample_late) (us_last_active (sample_session 0 []))"
  by (simp_all add: sample_late_def sample_joined_state sample_state_def sample_session_def
      duration_since_def SESSION_TIMEOUT_def from_secs_def)

section \<open>A process\<close>

text \<open>A filter is the lowest level it lets through; directives are never valid.\<close>

definition toy_filter :: "nat env_filter_ops" where
  "toy_filter =
     \<lparr>ef_parse = (\<lambda>_. None), ef_new = (\<lambda>_. 2),
      ef_enabled = (\<lambda>f level target.
        (if take 7 target = ''chat_rs'' then f else f + 1) \<le> level_rank level)\<rparr>"

lemma toy_filter_default: "default_means toy_filter"
  by (simp add: default_means_def toy_filter_def)

definition toy_process :: "nat process" where
  "toy_process = \<lparr>pr_core_limit = (1, 1), pr_env = (\<lambda>_. None), pr_tracing = None, pr_stderr = []\<rparr>"

section \<open>A server with a connection\<close>

text \<open>The first connection takes a slot, and joins the second room as user 9.\<close>

definition served :: "(nat, sample_world) server_machine" where
  "served =
     \<lparr>sv_hub = hub_joined, sv_limiter = snd (check 0 (V4 1) (hub_ratelimit two_rooms)),
      sv_guard = \<lparr>gs_active = 1, gs_phase = [0 \<mapsto> Holding]\<rparr>, sv_conn = [0 \<mapsto> Member den 9],
      sv_stopped = False, sv_history = [Attempt 0 (V4 1)], sv_admitted = [(0, V4 1)],
      sv_unwelcomed = {}\<rparr>"

lemma start_idle: "hm_rooms (hub_start hub w) s = Some m \<Longrightarrow> mc_tasks m = Map.empty"
  by (auto simp: hub_start_def machine_of_def split: room_slot.splits)

lemma served_members:
  "members (hub_start two_rooms (\<lambda>_. [])) = {}" "members hub_joined = {(den, 9)}"
proof -
  show "members (hub_start two_rooms (\<lambda>_. [])) = {}"
    by (auto simp: members_def dest: start_idle)
  show "members hub_joined = {(den, 9)}"
    by (auto simp: members_def hub_joined_def put_room_def den_joined_def do_join_def machine_init_def
        simp del: lit_simps split: if_splits) (drule start_idle, simp)+
qed

lemma served_reachable: "server_reachable sample_send two_rooms (\<lambda>_. []) served"
proof -
  let ?w = "(\<lambda>_. []) :: sample_world"
  let ?rl = "snd (check 0 (V4 1) (hub_ratelimit two_rooms))"
  let ?S0 = "server_start two_rooms ?w"
  let ?S1 = "?S0\<lparr>sv_limiter := ?rl, sv_conn := [0 \<mapsto> Spawned], sv_history := [Attempt 0 (V4 1)],
    sv_admitted := [(0, V4 1)]\<rparr>"
  let ?S2 = "?S1\<lparr>sv_guard := \<lparr>gs_active = 1, gs_phase = [0 \<mapsto> Holding]\<rparr>, sv_conn := [0 \<mapsto> Authenticating]\<rparr>"
  have "fst (check 0 (V4 1) (hub_ratelimit two_rooms))"
    by (simp add: two_rooms_def check_def rate_limiter_new_def RATELIMIT_MAX_def Let_def del: lit_simps)
  then have "check 0 (V4 1) (hub_ratelimit two_rooms) = (True, ?rl)" by (simp add: prod_eq_iff)
  then have "server_step sample_send ?S0 ?S1"
    using server_step.accept [of ?S0 0 "V4 1" ?rl sample_send]
    by (simp add: server_start_def hub_start_def)
  moreover have "guard_step MAX_ACTIVE_CONNS \<lparr>gs_active = 0, gs_phase = Map.empty\<rparr>
      \<lparr>gs_active = 1, gs_phase = [0 \<mapsto> Holding]\<rparr>"
    using guard_step.add [of "\<lparr>gs_active = 0, gs_phase = Map.empty\<rparr>" 0 MAX_ACTIVE_CONNS]
    by (simp add: fetch_add_phase_def MAX_ACTIVE_CONNS_def usize_max_def)
  then have "server_step sample_send ?S1 ?S2"
    using server_step.acquire [of ?S1 0 "\<lparr>gs_active = 1, gs_phase = [0 \<mapsto> Holding]\<rparr>" Holding sample_send]
    by (simp add: server_start_def two_rooms_def del: lit_simps)
  moreover have "server_step sample_send ?S2 served"
    using server_step.enter [of ?S2 0 sample_send hub_joined den 9] hub_joined_step
    by (simp add: server_start_def served_def served_members del: lit_simps)
  ultimately show ?thesis by (meson server_reachable.intros)
qed

text \<open>Its welcome fails: the connection leaves, and its user stays behind.\<close>

definition hub_left :: "(nat, sample_world) hub_machine" where
  "hub_left = put_room den den_joined (den_joined\<lparr>mc_tasks := (mc_tasks den_joined)(9 := None)\<rparr>) hub_joined"

definition left_behind :: "(nat, sample_world) server_machine" where
  "left_behind = served\<lparr>sv_hub := hub_left, sv_conn := [0 \<mapsto> Closing], sv_unwelcomed := {(den, 9)}\<rparr>"

lemma den_joined_task:
  "mc_tasks den_joined = [9 \<mapsto> \<lparr>tk_username = lit ''bob'', tk_stage = stage.Joined\<rparr>]"
  "occupants (mc_room den_joined) = {9}"
  by (simp_all add: den_joined_def do_join_def machine_init_def occupants_def store_simps
      room_state_new_def connection_manager_new_def del: lit_simps)

lemma idle_start: "hm_rooms (hub_start two_rooms w) s = Some m \<Longrightarrow> occupants (mc_room m) = {}"
  using hub_start_rooms [OF two_rooms_new] by (fastforce simp: machine_init_def occupants_new)

lemma hub_left_facts:
  "members hub_left = {}" "present hub_left = {(den, 9)}" "joining hub_joined = {(den, 9)}"
proof -
  show "members hub_left = {}"
    by (auto simp: members_def hub_left_def hub_joined_def put_room_def den_joined_task
        simp del: lit_simps split: if_splits) (drule start_idle, simp)
  show "present hub_left = {(den, 9)}"
    by (auto simp: present_def hub_left_def hub_joined_def put_room_def den_joined_task
        simp del: lit_simps split: if_splits) (drule idle_start, simp)+
  show "joining hub_joined = {(den, 9)}"
    by (auto simp: joining_def hub_joined_def put_room_def den_joined_task
        simp del: lit_simps split: if_splits) (drule start_idle, simp)+
qed

lemma hub_left_step: "hub_step sample_send hub_joined hub_left"
  unfolding hub_left_def
proof (rule hub_step.in_room)
  show "hub_room hub_joined den = Some den_joined"
    using hub_joined_rooms(2) by (simp add: hub_room_def hub_joined_def put_room_def del: lit_simps)
  show "machine_step sample_send den_joined (den_joined\<lparr>mc_tasks := (mc_tasks den_joined)(9 := None)\<rparr>)"
    using den_joined_task(1)
    by (intro machine_step.welcome_failed [where tk = "\<lparr>tk_username = lit ''bob'', tk_stage = stage.Joined\<rparr>"])
      (simp_all del: lit_simps)
qed (simp_all add: outboxes_def)

lemma left_behind_reachable: "server_reachable sample_send two_rooms (\<lambda>_. []) left_behind"
proof -
  have "server_step sample_send served left_behind"
    using server_step.exit [of served 0 den 9 sample_send hub_left] hub_left_step
    by (simp add: left_behind_def served_def hub_left_facts served_members del: lit_simps)
  with served_reachable show ?thesis by (meson server_reachable.run)
qed

end
