(* ===== verification/Spec2Isabelle.thy ===== *)
theory Spec2Isabelle
  imports SampleRuns
begin

text \<open>
  Verification of chat-rs, an encrypted terminal chat. A server process keeps a fixed set of
  rooms in memory; a client joins one room, and what its user types is sealed with the room's key
  and broadcast by the server, which never sees the text. This theory is the root of the
  development: it holds the properties that span components, C1 to C40, in the order of their
  importance. The definitions and the lemmas they rest on are in the theories it imports.

  The program and its theories, under \<^verbatim>\<open>src/\<close> of the repository:

  \<^item> \<open>Prelude\<close>: fixed-width integers, byte strings, the standard-library functions on strings,
    time and integers that the program uses, hash-map iteration orders, results. \<open>Utf8\<close>: lossy
    UTF-8 decoding, the inverse of the encoding in \<open>Prelude\<close>, and that it always yields text.
  \<^item> \<open>Interfaces\<close>: the contracts that several components share, as locales: \<open>keyed_window\<close> (a
    sliding-window limiter per key), \<open>counter_register\<close> (a counter per user that only grows),
    \<open>bounded_log\<close> (a list that drops its oldest entry at its cap), \<open>keyed_store\<close> (insert, remove,
    lookup). Their interpretations are on the program's own operations: the connection limiter, the
    message quota and the clear cooldown; the server's and the client's replay checks; the room
    history and the client's pane; the session and connection tables.
  \<^item> \<open>Proto\<close> is \<^verbatim>\<open>proto.rs\<close> and \<^verbatim>\<open>error.rs\<close>; \<open>Wire\<close> is \<^verbatim>\<open>wire.rs\<close>; \<open>Crypto\<close> is \<^verbatim>\<open>crypto/\<close>: the key
    schedule, sealing and opening of messages, the Noise handshakes and encrypted frames.
  \<^item> \<open>RateLimit\<close> is \<^verbatim>\<open>server/ratelimit.rs\<close>; \<open>Stores\<close> is \<^verbatim>\<open>server/stores.rs\<close> and
    \<^verbatim>\<open>server/managers.rs\<close>, \<open>SessionRules\<close> the contracts that its session operations meet; \<open>Rooms\<close> is
    \<^verbatim>\<open>server/rooms.rs\<close>, the parser of the room configuration.
  \<^item> \<open>Server\<close> is the room and hub state of \<^verbatim>\<open>server/mod.rs\<close>, the connection guard, \<^verbatim>\<open>broadcast\<close> and
    \<^verbatim>\<open>handle_client_frame\<close>. \<open>Channels\<close> has the laws of a bounded channel and what a broadcast does
    under them; \<open>Handler\<close> describes the handler branch by branch; \<open>RoomInvariant\<close> states what a
    well-formed room is and that joining, leaving, sweeping and every handler call keep it.
  \<^item> \<open>RoomMachine\<close> cuts the handler at the points where it releases a lock, one \<open>stage\<close> per cut;
    \<open>Interleaving\<close> is the transition system of a room under any interleaving of its connection
    tasks, the sweeper and the receivers; \<open>MachineInvariant\<close> is its invariant; \<open>FrameBounds\<close> bounds
    the sizes of the frames of a reachable room. \<open>HubMachine\<close> puts all rooms of a server together,
    with those made up for unknown names, over one clock and one set of channels.
  \<^item> \<open>Locks\<close>, \<open>Sections\<close>, \<open>LockSites\<close> and \<open>LockRefinement\<close> are the level below: \<open>Locks\<close> is a machine in which
    tasks run programs of single lock operations and of actions on what the locks protect, with the
    discipline under which they never deadlock; \<open>Sections\<close> shows that under it a critical section can be
    taken as one step; \<open>LockSites\<close> has each place of \<^verbatim>\<open>server/mod.rs\<close> that takes a lock as such a program;
    \<open>LockRefinement\<close> is the simulation by the machine of \<open>Interleaving\<close>; \<open>FairLocks\<close> gives each mutex a
    queue, and runs under a fair scheduler, of which there is one through every reachable state. \<open>SweepRace\<close> is the gap that the
    sweeper leaves between two of its locks.
  \<^item> \<open>Connection\<close> is \<^verbatim>\<open>handle_connection\<close> and \<^verbatim>\<open>pump\<close>: the phases before authentication with their
    timeouts and the time that passes in them, the join, the select loop, the cleanup; \<open>ConnectionRules\<close>
    is what it does to the hub. \<open>ServerLoop\<close> is the
    accept loop of \<^verbatim>\<open>run\<close>, the ticks of \<^verbatim>\<open>sweeper\<close>, and the connection counter as a machine of its
    single atomic operations; \<open>ServerMain\<close> is \<^verbatim>\<open>run\<close> as a whole, with the biased select of \<^verbatim>\<open>pump\<close>, its
    sends that may never complete, the sweeper's loop, the shutdown token, a schedule of the turns of
    all tasks, and the drain. \<open>Times\<close> has the two timers: how long the phases before authentication
    take, and when the sweeper's ticks come. \<open>ServerMachine\<close> composes the accept loop and its limiter,
    the tasks with their slots, and all rooms into one transition system, and keeps count of the users
    whom a failed welcome leaves in the tables.
  \<^item> \<open>Ui\<close>, \<open>UiKeys\<close>, \<open>UiRender\<close> and \<open>Terminal\<close> are \<^verbatim>\<open>client/ui.rs\<close>: the client's state, the keys,
    what is drawn, and the guard of the terminal's modes; \<open>AddrText\<close> is how the standard library
    writes numbers and addresses. \<open>ClientSession\<close> is \<^verbatim>\<open>client/mod.rs\<close>; \<open>ClientRules\<close> is what a client
    guarantees over a whole session, with the locale \<open>ui_invariant\<close> for what every operation on its
    state keeps.
  \<^item> \<open>Cli\<close> is \<^verbatim>\<open>cli.rs\<close> and the log filter of \<^verbatim>\<open>main.rs\<close>; \<open>Logging\<close> is \<^verbatim>\<open>init_tracing\<close> with the program's log
    calls; \<open>Process\<close> is \<^verbatim>\<open>main\<close> and its exit codes.
  \<^item> \<open>Handshake\<close>, \<open>Establish\<close> and \<open>Delivery\<close> join a client and a server connection by pipes: what the
    handshake proves although the network belongs to an adversary, that over an honest network both
    reach a session, and the way of one message from a keyboard to another screen.
  \<^item> \<open>UnitTests\<close> and \<open>NetworkTests\<close> follow the program's own unit tests statement by statement on these
    definitions.
  \<^item> \<open>Samples\<close>, \<open>SampleCodec\<close>, \<open>SampleWorlds\<close>, \<open>SampleHub\<close> and \<open>SampleRuns\<close> have concrete surroundings for
    the witnesses: channels, ciphers, byte streams, handshakes, a serializer, a terminal, runs of a
    room, of its locks and of a server with two rooms, a stuck connection, a silent user, a process.

  How the parts interact. \<open>Connection.handle_connection\<close> takes a slot of the hub's
  counter, reads the room selection over \<open>Wire\<close>, answers with the room's salt, runs the
  \<open>Crypto\<close> handshake, and then joins: \<open>register\<close> puts a session and an
  outbox into the room. \<open>pump\<close> alternates between frames from the outbox and frames from
  the client; the latter go to \<open>handle_client_frame\<close>, which checks them against the
  session store, updates the history and broadcasts into all outboxes of the room. The sweeper
  removes silent users and trims the limiter, which \<open>run_loop\<close> consults for every
  accepted socket. On the other side \<open>ClientSession.connect\<close> mirrors the handshake,
  \<open>seed_history\<close> fills the pane from the welcome, \<open>guard_enter\<close> takes the
  terminal, \<open>event_loop\<close> draws and handles keys, frames and ticks, and
  \<open>terminal_drop\<close> gives the terminal back. \<open>main_rs\<close> starts one of the two.

  How state and effects are represented. Every operation takes the state and returns it; a Rust
  \<^verbatim>\<open>Result\<close> is a sum with the error on the left; a clock reading, a random
  draw, a user id and a hash map's iteration order are arguments of the operation that obtains them,
  as many as the code obtains. \<^verbatim>\<open>usize\<close> lengths are natural numbers,
  \<^verbatim>\<open>u64\<close> counters and the connection counter are 64-bit words. Select loops
  (\<open>pump\<close>, \<open>run_loop\<close>, \<open>event_loop\<close>) consume a list of events,
  one per iteration, that says which branch is taken and what it yields; the outcome
  \<open>None\<close> means that the loop is still running when the list ends. All of them are
  structural recursions over that list, so no fuel is needed; \<open>decode_lossy\<close>,
  \<open>dec\<close>, \<open>hex\<close> and \<open>drain\<close> have termination proofs. A program
  of \<open>Locks\<close> is a tree that branches on what an action reads, and a run of programs ends
  because each operation leaves a part of one.

  What is not part of the program is a parameter: the byte stream with its length-delimited codec,
  postcard's encodings, the Noise library, the cipher, Argon2 and BLAKE2, the channel, the terminal,
  the socket-address parser, the environment, the log filter that is read from it. A phase of
  \<open>Connection\<close> yields its value and how long it took (\<open>'a timed\<close>): how long
  each awaited read and send takes, if it ever ends, is an argument, the timeouts and what follows
  them are where the code has them, and \<open>timeout\<close> is what tokio documents of it: a
  future that is not ready in time is dropped, which leaves its stream in an arbitrary state. Named
  hypotheses state what is relied on: \<open>mpsc_laws\<close> (a bounded channel delivers to one
  receiver in order or refuses), \<open>aead_correct\<close>, \<open>aead_binding\<close> (opening
  under other associated data fails: the idealisation of an authentication tag),
  \<open>ad_injective\<close> (postcard separates associated data), \<open>postcard_sizes\<close> and
  \<open>postcard_client_sizes\<close> (how long an encoding can be),
  \<open>postcard_roundtrip\<close> (decoding inverts encoding on the values the Rust types hold),
  \<open>noise_agrees\<close> (a first handshake message is only accepted under the prologue and psk
  it was written with: again the idealisation of a tag and a hash), \<open>noise_completes\<close>
  and \<open>transport_laws\<close> (two ends with the same secrets finish and then understand each
  other), \<open>recv_laws\<close> (a receiver yields the oldest frame), \<open>term_laws\<close>
  (which operation changes which terminal mode), \<open>timely\<close> (the ticks of an interval are
  due one period apart and handled with at most a given delay), \<open>fair_run\<close> (a mutex is
  granted in the order of the requests, and a task that can go on is not passed over for ever),
  \<open>spares\<close> (between a join and its welcome no other task removes the new user),
  \<open>default_means\<close> (what the default log directives let through),
  \<open>dotenv_keeps\<close> (the \<^verbatim>\<open>.env\<close> file does not override the
  environment). The sample theories instantiate each, and those that a property uses together at the
  same time.

  What the lemmas show. C1 to C3 and C15 to C18: a room under concurrency keeps its history, its
  replay protection and its delivery order, refines the sequential handler, and its frames fit the
  wire. C4 and C5: the rooms of a server are isolated, and each behaves as if it were alone, so that
  the guarantees of a room hold in the whole server. C6 to C9: the same guarantees hold of the code's
  lock operations, interleaved one by one, whose order is kept, which never deadlock, and for which
  nobody waits for ever. C10: what all parts of a server together can hold, with what failed welcomes
  leave behind. C11 to C13: client and server together, from the handshake to a delivered message.
  C19 to C22: connections, from the room selection to the cleanup, and how long they may take
  unauthenticated. C23 and C24: that an interrupt, through the token it cancels, ends the server, and
  what can keep it from ending. C25 to C29: the limiters, the sweeper, when it finds a silent user,
  and the start of the server. C14, C30 and C31: the replay checks, against any sender and for an
  honest one. C32: the configuration. C33 to C40: what a client sends and shows, what it does to the
  terminal, and how a process is launched and fails. C20, C22, C24, C28, C35 and C40 also record
  where the code does less than its comments say. The theorems without a number are consequences
  worth having at hand.

  Bounds. The guard machine assumes fewer than \<open>2 ^ 64\<close> simultaneous attempts, so that
  the counter does not wrap; C31 assumes a session of fewer than \<open>2 ^ 64\<close> operations, so
  that the saturating message counter does not stick. Both are far above what
  \<^verbatim>\<open>MAX_ACTIVE_CONNS\<close> and a keyboard allow.

  Not modelled: the layout computation and the widgets (a chunk's height and corner are arguments of
  \<open>render\<close>); the command-line grammar; the values in log lines, and when the server
  writes which; opening sockets (whether binding works is an argument); zeroization of secrets. In
  \<open>handle_connection\<close> what other tasks do to the room is given by oracles before the
  join, before the history snapshot and between loop events; the hub outside the room is taken at the
  start. A send that never completes is an event of \<open>pump\<close>; the time that those of the
  hello and of a refusal take counts in C20, but \<open>handle_connection\<close> goes on after them
  and after the welcome as if they had returned. In C23 and C24 the accept loop is what cancels the
  token, and the turns that come after see it; that each task gets a turn is the scheduler's part. In
  C27 the sweeper visits a room in one go; C28 is about what may happen in between. A mutex of
  \<open>Locks\<close> may be taken by any task that waits for it, in any order, so that C6 to C8
  need nothing of the mutexes but exclusion; C9 is about those that serve in order, and takes
  queueing up and taking a free lock for two steps.

  Planned next: the sweeper as one task that visits the rooms in turn, which
  \<open>HubMachine\<close> replaces by a sweeper per room; the latency of \<open>pump\<close>'s
  biased select (that a flooding room does not starve its readers); the log of a run.
\<close>

text \<open>
  C1. In every reachable state of a room, under any interleaving of tasks and sweeper, the
  stored history is the last 15 non-ephemeral messages announced since the last clear.
\<close>

theorem room_history_tail:
  assumes "reachable ts (machine_init room_id salt psk w) m"
  shows "ms_snapshot (rs_messages (mc_room m)) = last_n HISTORY_LEN (history_of (mc_log m))"
  using reachable_machine_inv [OF assms] by (simp add: machine_inv_def)

theorem room_history_tail_witness:
  "ms_snapshot (rs_messages (mc_room (sample_run 4))) = last_n HISTORY_LEN (history_of (mc_log (sample_run 4))) \<and>
   mc_log (sample_run 4) = [ServerMessage sample_message]"
  using room_history_tail [OF sample_run_reachable [unfolded sample_init_def]]
  by (simp add: sample_run_4 sample_state_def)

text \<open>
  C2. Every frame a room ever announces is a message or clear of a user who joined under that
  name, within the size bounds, and no sender's counter is announced twice or out of order,
  under any interleaving.
\<close>

theorem announced_frames_authentic:
  assumes "reachable ts (machine_init room_id salt psk w) m"
  shows "(\<forall>f \<in> set (mc_log m). authentic (mc_names m) f) \<and> sorted_wrt (<) (log_counters u (mc_log m))"
  using reachable_machine_inv [OF assms] by (simp add: machine_inv_def log_ok_def)

theorem announced_frames_authentic_witness:
  "authentic (mc_names (sample_run 4)) (ServerMessage sample_message) \<and>
   log_counters 7 (mc_log (sample_run 4)) = [1]"
  using announced_frames_authentic [OF sample_run_reachable [unfolded sample_init_def], of 7]
  by (simp add: sample_run_4 sample_state_def sample_message_def sample_ad_def)

text \<open>
  C3. Every outbox only ever receives announced frames, and each sender's messages in it have
  strictly increasing counters, whatever other tasks do between snapshot and sends.
\<close>

theorem outbox_order:
  assumes "reachable ts (machine_init room_id salt psk w) m"
  shows "set (mc_sent m tx) \<subseteq> set (mc_log m) \<and> sorted_wrt (<) (log_counters u (mc_sent m tx))"
  using reachable_machine_inv [OF assms] by (simp add: machine_inv_def sent_ok_def)

theorem outbox_order_witness:
  "set (mc_sent (sample_run 4) 0) \<subseteq> set (mc_log (sample_run 4)) \<and>
   log_counters 7 (mc_sent (sample_run 4) 0) = [1]"
  using outbox_order [OF sample_run_reachable [unfolded sample_init_def], of 0 7]
  by (simp add: sample_run_4 sample_state_def sample_message_def sample_ad_def)

text \<open>
  C4. Rooms of a server are isolated, the made-up ones included: what a room announces never
  reaches an outbox of another room, an outbox only ever gets what its own room announced, and
  no user is in two rooms, under any interleaving of all connections.
\<close>

theorem rooms_isolated:
  assumes "server_hub_new kdf cfgs draws = Inr hub" and "hub_reachable ts (hub_start hub w) h"
    and "hub_room h s = Some m" and "hub_room h s' = Some m'" and "s \<noteq> s'"
    and "cm_senders (rs_connections (mc_room m)) u = Some tx"
  shows "mc_sent m' tx = [] \<and> tx \<notin> ran (cm_senders (rs_connections (mc_room m'))) \<and>
    set (mc_sent m tx) \<subseteq> set (mc_log m) \<and> dom (mc_names m) \<inter> dom (mc_names m') = {}"
  using hub_rooms_disjoint [OF hub_rooms_apart [OF assms(1,2)] assms(3-5)] assms(6)
    own_run_sent [of ts s m tx] hub_rooms_alone [OF assms(1,2)] assms(3)
  by (auto simp: rooms_alone_def machine_handles_def outboxes_def intro: ranI)

theorem rooms_isolated_witness:
  "\<exists>h m. hub_reachable sample_send (hub_start two_rooms (\<lambda>_. [])) h \<and>
     hub_room h main_room = Some (sample_run 4) \<and> mc_sent (sample_run 4) 0 = [sample_frame] \<and>
     hub_room h den = Some m \<and> mc_sent m 0 = []"
proof -
  obtain h m where h: "hub_reachable sample_send (hub_start two_rooms (\<lambda>_. [])) h"
    and m: "hub_room h main_room = Some (sample_run 4)" "hub_room h den = Some m"
    using two_rooms_run by blast
  have slots: "main_room \<noteq> den" using two_names by simp
  have "cm_senders (rs_connections (mc_room (sample_run 4))) 7 = Some 0"
    by (simp add: sample_run_4 sample_state_def)
  then have "mc_sent m 0 = []"
    using rooms_isolated [OF two_rooms_new h m slots] by blast
  moreover have "mc_sent (sample_run 4) 0 = [sample_frame]"
    by (simp add: sample_run_4 sample_state_def sample_frame_def)
  ultimately show ?thesis using h m by blast
qed

text \<open>
  C5. Every room of a running server behaves as a room that is alone, whatever the other rooms
  do: its state is one that the transition system of a single room reaches from a fresh room,
  for a configured room under its own name. So every guarantee for a room holds in the whole
  server; its history and its well-formedness are spelled out.
\<close>

theorem rooms_independent:
  assumes "server_hub_new kdf cfgs draws = Inr hub" and "hub_reachable ts (hub_start hub w) h"
    and "hub_room h s = Some m"
  shows "(\<exists>room_id salt psk w0. reachable ts (machine_init room_id salt psk w0) m \<and>
      (\<forall>n. s = Configured n \<longrightarrow> room_id = n)) \<and>
    room_inv (hm_now h) (mc_room m) \<and>
    ms_snapshot (rs_messages (mc_room m)) = last_n HISTORY_LEN (history_of (mc_log m))"
proof -
  have own: "own_run ts s m" using hub_rooms_alone [OF assms(1,2)] assms(3) by (simp add: rooms_alone_def)
  with own_run_inv [OF own] hub_room_now [OF assms(3)] show ?thesis
    by (simp add: own_run_def machine_inv_def)
qed

theorem rooms_independent_witness:
  "\<exists>h m. hub_reachable sample_send (hub_start two_rooms (\<lambda>_. [])) h \<and> hub_room h den = Some m \<and>
     room_inv (hm_now h) (mc_room m) \<and> cm_senders (rs_connections (mc_room m)) 9 = Some 1"
proof -
  obtain h m where h: "hub_reachable sample_send (hub_start two_rooms (\<lambda>_. [])) h"
    and m: "hub_room h den = Some m" "cm_senders (rs_connections (mc_room m)) = [9 \<mapsto> 1]"
    using two_rooms_run by blast
  with rooms_independent [OF two_rooms_new h m(1)] show ?thesis by auto
qed

text \<open>
  C6. Taking the lock blocks of a room as atomic steps loses no behaviour: whatever the tasks of
  a room can reach when they run their lock operations one at a time and in any interleaving,
  the room machine can reach too, with the same channels and clock, with every part of the room
  that is not locked equal, and with each connection at the same place between its blocks. A
  room that nobody has locked is well-formed.
\<close>

theorem locked_sections_atomic:
  assumes "(lock_step (room_control ts))\<^sup>*\<^sup>* (locked_init room_id salt psk w) s"
  shows "\<exists>m. reachable ts (machine_init room_id salt psk w) m \<and>
      mc_chan m = lk_chan s \<and> mc_now m = lk_now s \<and>
      (\<forall>l. lk_owner s l = None \<longrightarrow> same_part l (mc_room m) (lk_room s)) \<and>
      (\<forall>u stage. lk_prog s (Conn u) = Some (Done (At stage)) \<longrightarrow>
        (\<exists>tk. mc_tasks m u = Some tk \<and> tk_stage tk = stage)) \<and>
      (lk_owner s = Map.empty \<longrightarrow> mc_room m = lk_room s \<and> room_inv (lk_now s) (lk_room s))"
proof -
  obtain m where m: "reachable ts (machine_init room_id salt psk w) m" "mc_chan m = lk_chan s"
    "mc_now m = lk_now s" "\<And>l. lk_owner s l = None \<Longrightarrow> same_part l (mc_room m) (lk_room s)"
    "lk_owner s = Map.empty \<Longrightarrow> mc_room m = lk_room s"
    "\<And>u stage. lk_prog s (Conn u) = Some (Done (At stage)) \<Longrightarrow>
      \<exists>tk. mc_tasks m u = Some tk \<and> tk_stage tk = stage"
    using assms by (rule locked_reachable) blast
  have "room_inv (mc_now m) (mc_room m)"
    using reachable_machine_inv [OF m(1)] by (simp add: machine_inv_def)
  with m show ?thesis by (metis (no_types, lifting))
qed

theorem locked_sections_atomic_witness:
  "\<exists>m. reachable sample_send (machine_init (lit ''main'') (replicate 32 3) [4] (\<lambda>_. [])) m \<and>
     rs_connections (mc_room m) = rs_connections (lk_room locked_wait) \<and>
     rs_messages (mc_room m) = rs_messages (lk_room locked_wait)"
proof -
  have "same_part Messages r r' \<and> same_part Connections r r' \<longleftrightarrow>
      rs_connections r = rs_connections r' \<and> rs_messages r = rs_messages r'"
    for r r' :: "nat room_state" by auto
  with locked_sections_atomic [OF locked_wait_reachable [unfolded locked_start_def]] locked_wait_prog(3)
  show ?thesis by (metis fun_upd_other room_lock.distinct(1,3))
qed

text \<open>
  C7. The lock order documented at RoomState is kept, and the locks are used as the
  documentation says: in every state that the tasks of a room can reach, a task that asks for a
  lock holds only locks that come before it, what it reads or writes through a guard is locked
  by it, it only drops a guard it has, it sends to an outbox without holding a lock, and it
  holds none while it awaits anything else.
\<close>

theorem lock_order_kept:
  assumes "(lock_step (room_control ts))\<^sup>*\<^sup>* (locked_init room_id salt psk w) s"
    and "lk_prog s k = Some p"
  shows "case p of
      Done r \<Rightarrow> held s k = {}
    | Lock l p' \<Rightarrow> \<forall>l' \<in> held s k. lock_rank l' < lock_rank l
    | Unlock l p' \<Rightarrow> l \<in> held s k
    | OnSessions f \<Rightarrow> Sessions \<in> held s k
    | OnMessages f \<Rightarrow> Messages \<in> held s k
    | OnConnections f \<Rightarrow> Connections \<in> held s k
    | OnChannels f \<Rightarrow> held s k = {}"
  using lock_invD(1) [OF lock_inv_reachable [OF assms(1)] assms(2)]
  by (cases p) (auto simp: less_room_lock_def)

theorem lock_order_kept_witness:
  "held locked_wait (Conn 7) = {Sessions} \<and> (\<exists>p. lk_prog locked_wait (Conn 7) = Some (Lock Connections p)) \<and>
     lock_rank Sessions < lock_rank Connections"
proof -
  obtain p where p: "lk_prog locked_wait (Conn 7) = Some (Lock Connections p)"
    using locked_wait_prog(1) by blast
  have "held locked_wait (Conn 7) = {Sessions}" by (auto simp: held_def locked_wait_prog(3) split: if_splits)
  with lock_order_kept [OF locked_wait_reachable [unfolded locked_start_def] p] p show ?thesis
    by (simp del: lock_rank.simps)
qed

text \<open>
  C8. The locks of a room never deadlock: from every state that the tasks can reach, some task
  can go on unless all are at rest and all locks are free, no schedule runs the started blocks
  for ever, and so the tasks get to the end of their blocks with all locks free.
\<close>

theorem locks_never_deadlock:
  fixes s :: "('tx, 'w, 'tx phase, task_id, 'tx room_tasks) locked"
  assumes "(lock_step (room_control ts))\<^sup>*\<^sup>* (locked_init room_id salt psk w) s"
  shows "(all_done s \<or> (\<exists>s'. task_step s s')) \<and>
    (\<nexists>run :: nat \<Rightarrow> ('tx, 'w, 'tx phase, task_id, 'tx room_tasks) locked.
      run 0 = s \<and> (\<forall>n. task_step (run n) (run (Suc n)))) \<and>
    (\<exists>s'. task_step\<^sup>*\<^sup>* s s' \<and> all_done s')"
proof -
  have inv: "lock_inv s" and fin: "finite (dom (lk_prog s))"
    by (rule lock_inv_reachable [OF assms], rule finite_progs_reachable [OF assms])
  show ?thesis
    using stuck_all_done [OF inv] runs_end quiesces [OF inv fin] fin by blast
qed

theorem locks_never_deadlock_witness:
  "\<not> all_done locked_wait \<and> (\<exists>s'. task_step locked_wait s') \<and>
     (\<exists>s'. task_step\<^sup>*\<^sup>* locked_wait s' \<and> all_done s')"
proof -
  have busy: "\<not> all_done locked_wait" by (simp add: all_done_def locked_wait_prog(3))
  with locks_never_deadlock [OF locked_wait_reachable [unfolded locked_start_def]] show ?thesis by blast
qed

text \<open>
  C9. Nobody waits for a lock of a room for ever: in every endless run of a room's tasks in
  which each mutex serves those who wait for it in the order in which they came, as tokio
  documents, and the scheduler does not pass over a task for ever that can go on, a task that
  asks for a lock gets it, and every block that a task begins comes to its end.
\<close>

theorem every_lock_granted:
  assumes "fair_run (room_control ts) run lab"
    and "run 0 = (locked_init room_id salt psk w, \<lambda>_. [])"
    and "lk_prog (fst (run n)) k = Some p"
  shows "(case p of
      Lock l p' \<Rightarrow> \<exists>m \<ge> n. granted l k (run m) (run (Suc m)) \<and> lk_prog (fst (run (Suc m))) k = Some p'
    | _ \<Rightarrow> True) \<and>
    (\<exists>m \<ge> n. at_rest (lk_prog (fst (run m)) k) \<and> held (fst (run m)) k = {})"
proof -
  have fair: "fairly (room_control ts) run lab"
    by (rule fairlyI [OF assms(1) room_control_disciplined])
      (simp_all add: assms(2) lock_inv_init queues_ok_def)
  obtain m where "m \<ge> n" "at_rest (lk_prog (fst (run m)) k)" using every_block_ends [OF fair assms(3)] by blast
  moreover from at_rest_held [OF fairlyD(2) [OF fair] this(2)] have "held (fst (run m)) k = {}" .
  moreover have "\<exists>m \<ge> n. granted l k (run m) (run (Suc m)) \<and> lk_prog (fst (run (Suc m))) k = Some p'"
    if "p = Lock l p'" for l p'
    using all_served [OF fair, of l] assms(3) that unfolding serves_all_def by blast
  ultimately show ?thesis by (auto split: prog.split)
qed

theorem every_lock_granted_witness:
  "\<exists>run lab n m. fair_run (room_control sample_send) run lab \<and> run 0 = (locked_start, \<lambda>_. []) \<and>
     run n = (locked_wait, \<lambda>_. []) \<and> lk_owner locked_wait Sessions = Some (Conn 7) \<and>
     n \<le> m \<and> granted Sessions Sweeper (run m) (run (Suc m))"
proof -
  note reached = locked_wait_reachable [unfolded locked_start_def]
  from fair_run_through [OF locked_wait_reachable lock_inv_reachable [OF reached]
      finite_progs_reachable [OF reached]] obtain run lab n
    where run: "fair_run (room_control sample_send) run lab" "run 0 = (locked_start, \<lambda>_. [])"
      "run n = (locked_wait, \<lambda>_. [])"
    unfolding passes_def by blast
  have "lk_prog (fst (run n)) Sweeper = Some stale_site" using run(3) locked_wait_prog(2) by simp
  from every_lock_granted [OF run(1) run(2) [unfolded locked_start_def] this]
  obtain m where "m \<ge> n" "granted Sessions Sweeper (run m) (run (Suc m))"
    by (auto simp: stale_site_def)
  with run locked_wait_prog(3) show ?thesis by (metis fun_upd_same)
qed

text \<open>
  C10. What a running server holds, with the accept loop, the limiter, the connection counter,
  all connections and all rooms taken together and in any interleaving: no more than 4096 users
  are connected to its rooms, each through exactly one connection, which holds a slot; the
  sessions and outboxes in the rooms belong to nobody but them and users whose welcome failed,
  whom the code leaves behind, and the two together never outnumber the connections that were
  let in; no address gets more than 60 connections in any 60 seconds; when all connections are
  gone, all slots are free; and every room is in a state that it could reach alone.
\<close>

theorem server_bounded:
  assumes "server_hub_new kdf cfgs draws = Inr hub" and "server_reachable ts hub w S"
  shows "finite (members (sv_hub S)) \<and> card (members (sv_hub S)) \<le> 4096 \<and>
    (\<forall>s u. (s, u) \<in> members (sv_hub S) \<longrightarrow> (\<exists>!k. sv_conn S k = Some (Member s u))) \<and>
    (\<forall>k s u. sv_conn S k = Some (Member s u) \<longrightarrow>
      (s, u) \<in> members (sv_hub S) \<and> gs_phase (sv_guard S) k = Some Holding) \<and>
    present (sv_hub S) \<subseteq> members (sv_hub S) \<union> sv_unwelcomed S \<and> finite (sv_unwelcomed S) \<and>
    card (present (sv_hub S)) \<le> length (sv_admitted S) \<and>
    card (members (sv_hub S)) + card (sv_unwelcomed S) \<le> length (sv_admitted S) \<and>
    within_rate 60 (from_secs 60) (admitted_for ip (sv_admitted S)) \<and>
    (sv_conn S = Map.empty \<longrightarrow> gs_active (sv_guard S) = 0 \<and> members (sv_hub S) = {}) \<and>
    rooms_alone ts (sv_hub S)"
proof -
  have ok: "slots_ok S" using server_reachable_slots [OF assms] .
  have tables: "tables_ok S" using server_reachable_tables [OF assms] .
  have "within_rate RATELIMIT_MAX RATELIMIT_WINDOW (admitted_for ip (sv_admitted S))"
    by (rule server_reachable_rate [OF assms])
  then have rate: "within_rate 60 (from_secs 60) (admitted_for ip (sv_admitted S))"
    by (simp add: RATELIMIT_MAX_def RATELIMIT_WINDOW_def)
  have "rooms_alone ts (sv_hub S)"
    by (rule hub_rooms_alone [OF assms(1) server_reachable_hub [OF assms(2)]])
  moreover have "\<forall>k s u. sv_conn S k = Some (Member s u) \<longrightarrow>
      (s, u) \<in> members (sv_hub S) \<and> gs_phase (sv_guard S) k = Some Holding"
    using slots_bound_members(4) [OF ok] slots_seat_member [OF ok] by (simp add: seats_Member [symmetric])
  moreover have "\<forall>s u. (s, u) \<in> members (sv_hub S) \<longrightarrow> (\<exists>!k. sv_conn S k = Some (Member s u))"
    using slots_bound_members(3) [OF ok] by (simp add: seats_Member [symmetric])
  ultimately show ?thesis
    using slots_bound_members(1,2) [OF ok] slots_all_back [OF ok] rate tables_bound [OF ok tables]
      present_bound [OF ok tables] tables
    by (simp add: MAX_ACTIVE_CONNS_def tables_ok_def)
qed

theorem server_bounded_witness:
  "card (members (sv_hub served)) \<le> 4096 \<and> members (sv_hub served) = {(den, 9)} \<and>
     gs_phase (sv_guard served) 0 = Some Holding \<and>
     present (sv_hub left_behind) = {(den, 9)} \<and> members (sv_hub left_behind) = {} \<and>
     card (present (sv_hub left_behind)) \<le> length (sv_admitted left_behind)"
  using server_bounded [OF two_rooms_new served_reachable] served_members(2)
    server_bounded [OF two_rooms_new left_behind_reachable] hub_left_facts(1,2)
  by (simp add: served_def left_behind_def)

text \<open>
  C11. Whatever an adversary does to the frames, if a server accepts a client's first handshake
  message and lets the connection in, client and server agree on the room, its salt, the
  protocol version and the password-derived key.
\<close>

theorem handshake_agreement:
  assumes "noise_agrees nz" and "ce_noise cenv = nz" and "se_noise senv = nz"
    and "ce_stream cenv = pipe_ops" and "se_stream senv = pipe_ops"
    and "connect cenv username room pw (s2c, []) = (rc, (inp, c2s))" and "2 \<le> length c2s"
    and "authenticate senv orc hub (b0 # c2s ! 1 # rest, []) = (Inr (r, name, t), s')"
    and "length (rs_room_salt r) = 32"
    and "\<forall>salt v. ce_from_bytes cenv (hd s2c) = Some (ServerHello salt v) \<longrightarrow> length salt = 32"
    and "\<forall>c \<in> set room. scalar c" and "\<forall>c \<in> set (rs_room_id r). scalar c"
  shows "rs_room_id r = room \<and>
    ce_from_bytes cenv (hd s2c) = Some (ServerHello (rs_room_salt r) PROTOCOL_VERSION) \<and>
    (\<exists>keys. derive_keys (ce_kdf cenv) pw (rs_room_salt r) = Inr keys \<and> rs_psk r = dk_psk keys)"
  by (rule handshake_agrees [OF assms(1-9) _ assms(11,12)]) (use assms(10) in blast)

theorem handshake_agreement_witness:
  "\<exists>c2s s2c s' r t. authenticate toy_server toy_oracle toy_hub (c2s, []) = (Inr (r, lit ''bob'', t), s') \<and>
     rs_room_id r = lit ''main'' \<and>
     dec_server (hd s2c) = Some (ServerHello (rs_room_salt r) PROTOCOL_VERSION) \<and> rs_psk r = dk_psk toy_keys"
proof -
  obtain c2s s2c s1 tc ts x where run:
    "connect toy_client (lit ''bob'') (lit ''main'') [1, 2, 3] (s2c, []) = (Inr x, ([], c2s))"
    "authenticate toy_server toy_oracle toy_hub (c2s, []) = (Inr (toy_room, lit ''bob'', ts), ([], s1))"
    using toy_session by metis
  have pipes: "ce_stream toy_client = pipe_ops" "se_stream toy_server = pipe_ops"
    by (simp_all add: toy_client_def toy_server_def)
  obtain b m0 rest where c2s: "c2s = b # m0 # rest"
    using authenticate_first_message [OF run(2) pipes(2)] by metis
  then have server: "authenticate toy_server toy_oracle toy_hub (b # c2s ! 1 # rest, []) =
      (Inr (toy_room, lit ''bob'', ts), ([], s1))" and two: "2 \<le> length c2s"
    using run(2) by simp_all
  have nz: "ce_noise toy_client = toy_noise" "se_noise toy_server = toy_noise"
    by (simp_all add: toy_client_def toy_server_def)
  have salt: "length (rs_room_salt toy_room) = 32"
    by (simp add: toy_room_def room_state_new_def toy_salt_def)
  have hello: "\<forall>salt v. ce_from_bytes toy_client (hd s2c) = Some (ServerHello salt v) \<longrightarrow> length salt = 32"
    using dec_server_salt by (simp add: toy_client_def)
  have id: "rs_room_id toy_room = lit ''main''" by (simp add: toy_room_def room_state_new_def)
  have main: "\<forall>c \<in> set (lit ''main''). scalar c" "\<forall>c \<in> set (rs_room_id toy_room). scalar c"
    unfolding id by (simp_all add: scalar_def)
  have "rs_room_id toy_room = lit ''main'' \<and>
      ce_from_bytes toy_client (hd s2c) = Some (ServerHello (rs_room_salt toy_room) PROTOCOL_VERSION)"
    using handshake_agreement [OF toy_agrees nz pipes run(1) two server salt hello main] by blast
  then have "dec_server (hd s2c) = Some (ServerHello (rs_room_salt toy_room) PROTOCOL_VERSION)"
    by (simp add: toy_client_def)
  moreover have "rs_psk toy_room = dk_psk toy_keys" by (simp add: toy_room_def room_state_new_def)
  ultimately show ?thesis using run(2) id by blast
qed

text \<open>
  C12. Over an honest network and within the timeouts, a client with the room's password and a
  server connection complete the handshake and the welcome. The client returns with the room
  key, its user id and the room's history; the server has joined it: when the select loop
  begins, the room holds a fresh session under its id and name and the outbox that the loop
  reads from, unless other tasks have removed them since; and the two transports are in step.
\<close>

theorem session_established:
  assumes "joined cenv senv in_step" and "no_timeouts orc"
    and "hub_rooms hub name = Some room" and "room_for (ce_kdf cenv) pw name keys room"
    and "username_ok username"
    and "join_ok senv orc username room w" and "room_inv (co_now orc) room" and "spares orc"
  shows "\<exists>c2s s2c s2c1 tc ts tr room' w'.
    connect cenv username name pw (s2c, []) =
      (Inr (dk_room_key keys, co_user_id orc, ms_snapshot (rs_messages room'), tc), ([], c2s)) \<and>
    authenticate senv orc hub (c2s, []) = (Inr (room, username, ts), ([], s2c1)) \<and>
    serve senv orc [] username room ([], s2c1) ts w = (None, room', ([], s2c), tr, w') \<and>
    in_step tc tr \<and> conn_room_ok name (co_user_id orc) username (co_now orc) room' \<and>
    ss_sessions (rs_sessions room') (co_user_id orc) =
      Some \<lparr>us_user_id = co_user_id orc, us_username = username, us_last_active = co_now orc,
        us_last_counter = 0, us_message_window = [], us_last_clear = None\<rparr> \<and>
    cm_senders (rs_connections room') (co_user_id orc) =
      Some (fst (se_channel senv (snd (co_before_join orc (room, w)))))"
proof -
  note entry = joined_room_entry [OF assms(8), of senv username room w]
  from session_reached [OF assms(1-7)] entry show ?thesis by (fastforce simp: fresh_session_def)
qed

theorem session_established_witness:
  "\<exists>c2s s2c s2c1 tc ts tr room' w'.
    connect toy_client (lit ''bob'') (lit ''main'') [1, 2, 3] (s2c, []) =
      (Inr (dk_room_key toy_keys, 7, ms_snapshot (rs_messages room'), tc), ([], c2s)) \<and>
    authenticate toy_server toy_oracle toy_hub (c2s, []) = (Inr (toy_room, lit ''bob'', ts), ([], s2c1)) \<and>
    serve toy_server toy_oracle [] (lit ''bob'') toy_room ([], s2c1) ts (\<lambda>_. []) =
      (None, room', ([], s2c), tr, w') \<and> toy_step tc tr \<and>
    cm_senders (rs_connections room') 7 \<noteq> None \<and> ss_sessions (rs_sessions room') 7 \<noteq> None"
proof -
  have ids: "co_user_id toy_oracle = 7" and kdf: "ce_kdf toy_client = toy_kdf"
    by (simp_all add: toy_oracle_def toy_client_def)
  have "room_for (ce_kdf toy_client) [1, 2, 3] (lit ''main'') toy_keys toy_room"
    unfolding kdf by (rule toy_room_for)
  from session_established [OF toy_joined toy_no_timeouts toy_hub_rooms this sample_bob toy_join_ok
      toy_room_inv toy_spares, of "\<lambda>_. []"]
  show ?thesis unfolding ids by (metis option.distinct(1))
qed

text \<open>
  C13. A line typed into one client reaches the screen of another: the sender's event loop, its
  connection's pump, the room's broadcast, the receiver's pump and event loop together show the
  sender's name and the typed text, and all transports stay in step.
\<close>

theorem message_delivered:
  assumes "joined cenv senv in_step" and "in_step ta sa" and "in_step sb tb"
    and "aead_correct (ce_aead cenv)"
    and "mpsc_laws (se_try_send senv) queued accepting" and "recv_laws (se_recv senv) queued"
    and "handle_key (ce_aead cenv) ki key k (snd (render ca ha pa sta)) =
      (SendFrame (ClientMessage ad body), sta')"
    and "\<forall>c \<in> set (ui_input sta). scalar c"
    and "\<forall>nonce. ki_random ki = Some nonce \<longrightarrow> length nonce = NONCE_LEN"
    and "message_accepted clk room u name ad body" and "username_ok name"
    and "iteration_order (cm_senders (rs_connections room)) (hc_order clk)"
    and "distinct_channels (rs_connections room)"
    and "cm_senders (rs_connections room) v = Some rx" and "accepting w rx" and "queued w rx = []"
    and "seen_counter stb u < ad_counter ad"
  shows "\<exists>f1 f2 ta' sa' sb' tb' room' w1 w2 stb'.
    event_loop cenv key [(Drawn ca ha pa, KeyPressed k ki)] sta ([], []) ta =
      (None, sta', ([], [f1]), ta') \<and>
    pump senv u name rxa [PumpIncoming clk] room ([f1], []) sa w = (None, room', ([], []), sa', w1) \<and>
    pump senv v vname rx [PumpOutgoing] room'' ([], []) sb w1 = (None, room'', ([], [f2]), sb', w2) \<and>
    event_loop cenv key [(Drawn cb hb pb, Incoming now ms)] stb ([f2], []) tb =
      (None, stb', ([], []), tb') \<and>
    in_step ta' sa' \<and> in_step sb' tb' \<and>
    dm_kind (last (ui_messages stb')) = DisplayMessage name (fst (line_body (trim_end (ui_input sta))))"
  by (rule delivered_end_to_end [OF assms])

theorem message_delivered_witness:
  "\<exists>f1 f2 sta' stb' ta' tb'.
     event_loop toy_client [] [(Drawn (\<lambda>_. 1) 20 (0, 21), KeyPressed sample_enter sample_inputs)]
       sample_ui ([], []) (0, 0) = (None, sta', ([], [f1]), ta') \<and>
     event_loop toy_client [] [(Drawn (\<lambda>_. 1) 20 (0, 21), Incoming 3 4)]
       (ui_state_new (lit ''alice'') 8 (SocketV4 1 80) (lit ''main'')) ([f2], []) (0, 0) = (None, stb', ([], []), tb') \<and>
     dm_kind (last (ui_messages stb')) = DisplayMessage (lit ''bob'') (lit ''hi'')"
proof -
  let ?alice = "ui_state_new (lit ''alice'') 8 (SocketV4 1 80) (lit ''main'')"
  obtain ct s' where typed: "handle_key (ce_aead toy_client) sample_inputs [] sample_enter
      (snd (render (\<lambda>_. 1) 20 (0, 21) sample_ui)) = (SendFrame (ClientMessage sample_ad ct), s')"
    and len: "length ct \<le> MAX_CIPHERTEXT_LEN"
    using toy_submit by blast
  have step: "toy_step (0, 0) (0, 0)" by (simp add: toy_step_def)
  have env: "aead_correct (ce_aead toy_client)" "mpsc_laws (se_try_send toy_server) (\<lambda>w. w) sample_accepting"
    using sample_aead_correct sample_send_laws by (simp_all add: toy_client_def toy_server_def)
  have line: "\<forall>c \<in> set (ui_input sample_ui). scalar c"
    "\<forall>nonce. ki_random sample_inputs = Some nonce \<longrightarrow> length nonce = NONCE_LEN"
    by (simp_all add: sample_ui_def scalar_def sample_inputs_def)
  have receiver: "cm_senders (rs_connections toy_pair) 8 = Some 1" "sample_accepting (\<lambda>_. []) 1"
    "(\<lambda>_. [] :: server_frame list) (1 :: nat) = []" "seen_counter ?alice 7 < ad_counter sample_ad"
    by (simp_all add: toy_pair_senders sample_accepting_def OUTBOX_DEPTH_def seen_counter_def
        ui_state_new_def sample_ad_def)
  have "fst (line_body (trim_end (ui_input sample_ui))) = lit ''hi''"
    by (simp add: sample_ui_def sample_line del: lit_simps)
  with message_delivered [where queued = "\<lambda>w. w" and w = "\<lambda>_. []" and v = 8 and rx = 1 and stb = ?alice,
      OF toy_joined step step env toy_recv typed line toy_accepted [OF len] sample_bob toy_pair_order
        toy_pair_channels receiver]
  show ?thesis by metis
qed

text \<open>The messages among the frames of an outbox, as a client receives them.\<close>

definition outbox_messages :: "server_frame list \<Rightarrow> room_message list" where
  "outbox_messages fs = List.map_filter (\<lambda>f. case f of ServerMessage m \<Rightarrow> Some m | _ \<Rightarrow> None) fs"

lemma outbox_messages_simps [simp]:
  "outbox_messages [] = []"
  "outbox_messages (f # fs) = (case f of ServerMessage m \<Rightarrow> m # outbox_messages fs | _ \<Rightarrow> outbox_messages fs)"
  by (simp_all add: outbox_messages_def map_filter_simps split: server_frame.split)

lemma counters_of_outbox:
  "\<forall>f \<in> set fs. authentic names f \<Longrightarrow>
     counters_of u (map presented (outbox_messages fs)) = log_counters u fs"
proof (induction fs)
  case (Cons f fs)
  then show ?case by (cases f) (simp_all add: presented_def)
qed simp

lemma outbox_accepted:
  assumes inv: "machine_inv m" and "seen_counter s u = 0"
  shows "counters_of u (accept_run try_accept_counter s (map presented (outbox_messages (mc_sent m tx))))
    = log_counters u (mc_sent m tx)"
proof -
  let ?fs = "mc_sent m tx"
  have log: "\<forall>f \<in> set (mc_log m). authentic (mc_names m) f"
    and sent: "set ?fs \<subseteq> set (mc_log m)" "sorted_wrt (<) (log_counters u ?fs)"
    using inv by (simp_all add: machine_inv_def log_ok_def sent_ok_def)
  then have auth: "\<forall>f \<in> set ?fs. authentic (mc_names m) f" by blast
  have pos: "\<forall>c \<in> set (log_counters u ?fs). seen_counter s u < c"
    using auth assms(2) by (fastforce simp: set_log_counters)
  note eq = counters_of_outbox [OF auth, of u]
  have "counters_of u (accept_run try_accept_counter s (map presented (outbox_messages ?fs)))
      = counters_of u (map presented (outbox_messages ?fs))"
    by (rule client_replay.accept_run_complete) (simp_all add: eq sent pos)
  with eq show ?thesis by simp
qed

text \<open>
  C14. A client whose replay filter has not yet seen a sender accepts every message of that
  sender that the server put into its outbox: the filter drops nothing that was announced live.
\<close>

theorem live_messages_accepted:
  assumes "reachable ts (machine_init room_id salt psk w) m" and "seen_counter s u = 0"
  shows "counters_of u (accept_run try_accept_counter s (map presented (outbox_messages (mc_sent m tx))))
    = log_counters u (mc_sent m tx)"
  using reachable_machine_inv [OF assms(1)] assms(2) by (rule outbox_accepted)

theorem live_messages_accepted_witness:
  "counters_of 7 (accept_run try_accept_counter (ui_state_new (lit ''bob'') 7 (SocketV4 1 80) (lit ''main''))
     (map presented (outbox_messages (mc_sent (sample_run 4) 0)))) = [1]"
  using live_messages_accepted [OF sample_run_reachable [unfolded sample_init_def],
      of "ui_state_new (lit ''bob'') 7 (SocketV4 1 80) (lit ''main'')" 7 0]
  by (simp add: sample_run_4 sample_state_def sample_message_def sample_ad_def seen_counter_def
      ui_state_new_def)

text \<open>
  Every reachable room state is well-formed: connected users have sessions, channels are not
  shared, the history is bounded with valid non-ephemeral messages, and session bookkeeping is
  in order.
\<close>

theorem reachable_room_inv:
  assumes "reachable ts (machine_init room_id salt psk w) m"
  shows "room_inv (mc_now m) (mc_room m)"
  using reachable_machine_inv [OF assms] by (simp add: machine_inv_def)

theorem reachable_room_inv_witness:
  "room_inv 0 (mc_room (sample_run 4)) \<and>
   ss_sessions (rs_sessions (mc_room (sample_run 4))) 7 = Some (sample_session 1 [0])"
  using reachable_room_inv [OF sample_run_reachable [unfolded sample_init_def]]
  by (simp add: sample_run_4 sample_state_def)

text \<open>
  C15. Run without interference, the lock blocks of the room machine compute exactly what
  handle_client_frame computes, for every frame and every outcome.
\<close>

theorem blocks_refine_handler:
  assumes "handle_client_frame ts clk room u name msg w = (r, room', w')"
  shows "\<exists>n. ((task_block ts (hc_check clk) (hc_order clk) u name) ^^ n)
      (Handling msg, room\<lparr>rs_sessions := ss_touch (hc_touch clk) u (rs_sessions room)\<rparr>, w) =
    (if r = Inr () then Ready else Leaving, room', w')"
  by (rule run_blocks_handle [OF assms])

theorem blocks_refine_handler_witness:
  "\<exists>n. ((task_block sample_send 12 [7] 7 (lit ''bob'')) ^^ n)
      (Handling (ClientHello []), sample_room\<lparr>rs_sessions := ss_touch 11 7 (rs_sessions sample_room)\<rparr>, \<lambda>_. []) =
    (Leaving, sample_room\<lparr>rs_sessions := ss_touch 11 7 (rs_sessions sample_room)\<rparr>, \<lambda>_. [])"
  using blocks_refine_handler [of sample_send sample_clock sample_room 7 "lit ''bob''" "ClientHello []" "\<lambda>_. []",
      OF handle_handshake_reject [of _ "[]" "[]"]]
  by (simp add: sample_clock_def)

text \<open>
  C16. A message frame is accepted exactly under the stated conditions on sender, size, counter
  and quota; accepted, it is stored (unless ephemeral) and broadcast; refused, only the sender's
  own session bookkeeping may change and nothing is sent.
\<close>

theorem message_outcome:
  "if message_accepted clk room u name ad ct
   then handle_client_frame ts clk room u name (ClientMessage ad ct) w =
     (Inr (), broadcast ts (hc_order clk) (message_room clk room u name ad ct)
        (ServerMessage (stored_message u name ad ct)) w)
   else \<exists>e ss. handle_client_frame ts clk room u name (ClientMessage ad ct) w =
        (Inl e, room\<lparr>rs_sessions := ss\<rparr>, w) \<and>
      ss_sessions ss |` (- {u}) = ss_sessions (rs_sessions room) |` (- {u}) \<and>
      session_block (rs_sessions room) ss"
proof (cases "message_accepted clk room u name ad ct")
  case True
  then show ?thesis by (simp add: handle_message_accept)
next
  case False
  obtain e ss where "handle_client_frame ts clk room u name (ClientMessage ad ct) w =
      (Inl e, room\<lparr>rs_sessions := ss\<rparr>, w)"
    and "ss = ss_touch (hc_touch clk) u (rs_sessions room) \<or>
      ss = snd (try_advance_counter u (ad_counter ad) (ss_touch (hc_touch clk) u (rs_sessions room))) \<or>
      ss = message_sessions clk u ad (rs_sessions room)"
    by (rule handle_message_reject [OF False, of ts w])
  moreover from this(2) have "ss_sessions ss |` (- {u}) = ss_sessions (rs_sessions room) |` (- {u})"
    by (auto simp: message_sessions_def own_session_ops)
  moreover from \<open>ss = _ \<or> _\<close> have "session_block (rs_sessions room) ss"
    by (auto intro: session_block_message session_blocks session_block_trans)
  ultimately show ?thesis using False by auto
qed

text \<open>
  A clear frame is accepted exactly when the sender has a session and its cooldown has passed;
  accepted, it empties the history and announces it; refused, only the sender's own session
  changes.
\<close>

theorem clear_outcome:
  "handle_client_frame ts clk room u name Clear w =
     (if clear_accepted clk room u
      then (Inr (), broadcast ts (hc_order clk) (clear_room clk room u) (Cleared u name) w)
      else (Inl (Protocol ''clear cooldown active''),
        room\<lparr>rs_sessions := clear_sessions clk u (rs_sessions room)\<rparr>, w))
   \<and> ms_snapshot (rs_messages (clear_room clk room u)) = []
   \<and> ss_sessions (clear_sessions clk u (rs_sessions room)) |` (- {u}) =
       ss_sessions (rs_sessions room) |` (- {u})"
  by (simp add: handle_clear_accept handle_clear_reject clear_room_def clear_sessions_def own_session_ops)

text \<open>
  C17. A broadcast puts the frame exactly once into the outbox of every connection whose channel
  accepts it, touches no other channel, and drops exactly the connections whose channel is full
  or closed.
\<close>

theorem broadcast_reaches_everyone:
  assumes "mpsc_laws ts queued accepting"
    and "iteration_order (cm_senders (rs_connections room)) order"
    and "distinct_channels (rs_connections room)"
    and "broadcast ts order room f w = (room', w')"
  shows "cm_senders (rs_connections room') u =
      (case cm_senders (rs_connections room) u of
         None \<Rightarrow> None | Some tx \<Rightarrow> if accepting w tx then Some tx else None) \<and>
    queued w' tx = queued w tx @
      (if tx \<in> ran (cm_senders (rs_connections room)) \<and> accepting w tx then [f] else [])"
  using broadcast_delivery [OF assms] by blast

theorem broadcast_reaches_everyone_witness:
  "sample_send 0 sample_frame (\<lambda>_. []) = (Sent, (\<lambda>_. [])(0 := [sample_frame])) \<and>
   snd (broadcast sample_send [7] (register 0 7 (lit ''bob'') 0 sample_room) sample_frame (\<lambda>_. [])) 0
     = [sample_frame]"
proof -
  let ?room = "register 0 7 (lit ''bob'') 0 sample_room"
  have senders: "cm_senders (rs_connections ?room) = [7 \<mapsto> 0]"
    by (simp add: store_simps sample_room_def room_state_new_def)
  obtain room' w' where b: "broadcast sample_send [7] ?room sample_frame (\<lambda>_. []) = (room', w')"
    by (cases "broadcast sample_send [7] ?room sample_frame (\<lambda>_. [])")
  have "w' 0 = [sample_frame]"
    using broadcast_reaches_everyone [OF sample_send_laws _ _ b, of 7 0]
    by (simp add: senders iteration_order_def distinct_channels_def sample_accepting_def
        OUTBOX_DEPTH_def del: lit_simps)
  with b show ?thesis by (simp add: sample_send_def sample_accepting_def OUTBOX_DEPTH_def)
qed

text \<open>
  C18. In every reachable state of a room the welcome for a new user, with the whole history,
  and every frame the room announced fit a Noise message and a wire frame once encoded and
  sealed.
\<close>

theorem server_frames_fit:
  assumes "postcard_sizes to_vec" and "reachable ts (machine_init room_id salt psk w) m"
  shows "(\<forall>b. to_vec (Welcome u (ms_snapshot (rs_messages (mc_room m)))) = Some b \<longrightarrow> fits b) \<and>
    (\<forall>f \<in> set (mc_log m). \<forall>b. to_vec f = Some b \<longrightarrow> fits b)"
  using reachable_machine_inv [OF assms(2)] welcome_fits [OF assms(1)] announced_fits [OF assms(1)]
  by (auto simp: machine_inv_def room_inv_def log_ok_def)

theorem server_frames_fit_witness:
  "fits (replicate (frame_size (Welcome 8 (ms_snapshot (rs_messages (mc_room (sample_run 4)))))) 0)"
proof -
  have "postcard_sizes (\<lambda>f. Some (replicate (frame_size f) 0))" by (simp add: postcard_sizes_def)
  from server_frames_fit [OF this sample_run_reachable [unfolded sample_init_def], of 8]
  show ?thesis by simp
qed

text \<open>
  C19. Before authentication an unknown room behaves exactly like a configured room with the
  salt and key that were drawn for it: the same frames, the same outcome.
\<close>

theorem unknown_room_indistinguishable:
  assumes "hub_rooms hub name = None" and "co_fake_salt orc = Some salt" and "co_fake_psk orc = Some psk"
    and "rs_room_id room = name" and "rs_room_salt room = salt" and "rs_psk room = psk"
  shows "auth_view (authenticate env orc hub s) =
    auth_view (authenticate env orc (hub\<lparr>hub_rooms := (hub_rooms hub)(name \<mapsto> room)\<rparr>) s)"
  by (rule unknown_room_view [OF assms])

theorem unknown_room_indistinguishable_witness:
  "auth_view (authenticate sample_env sample_oracle (sample_hub\<lparr>hub_rooms := Map.empty\<rparr>) ([[1], [8], [2]], []))
     = (Inr (lit ''bob'', ()), ([], [[11], [9]]))"
proof -
  let ?hub = "sample_hub\<lparr>hub_rooms := Map.empty\<rparr>"
  let ?room = "room_state_new (lit ''main'') (replicate 32 5) [6] :: nat room_state"
  have "auth_view (authenticate sample_env sample_oracle ?hub ([[1], [8], [2]], [])) =
      auth_view (authenticate sample_env sample_oracle
        (?hub\<lparr>hub_rooms := (hub_rooms ?hub)(lit ''main'' \<mapsto> ?room)\<rparr>) ([[1], [8], [2]], []))"
    by (rule unknown_room_indistinguishable) (simp_all add: sample_oracle_def)
  then show ?thesis by (simp add: sample_authenticate auth_view_def del: lit_simps)
qed

text \<open>
  C20. The unauthenticated phase ends, whatever the client does or leaves undone, after at most
  15 seconds and the time that the server's own two sends take. This is no slack: every
  connection that is let in could have been let in after waiting exactly that long, so that the
  budget of HANDSHAKE_TIMEOUT that the documentation gives to the whole phase is one for each of
  its three reads.
\<close>

theorem handshake_wait_bounded:
  assumes "co_hello_send orc = Some a" and "co_refusal_send orc = Some b"
  shows "(\<exists>d. fst (authenticate_timed env orc hub s) = Some d \<and> d \<le> from_secs 15 + a + b) \<and>
    (authenticate env orc hub s = (Inr (room, username, t), s') \<longrightarrow>
      authenticate env (slowest orc) hub s = (Inr (room, username, t), s') \<and>
      fst (authenticate_timed env (slowest orc) hub s) = Some (from_secs 15))"
proof -
  have limit: "3 * HANDSHAKE_TIMEOUT = from_secs 15" by (simp add: HANDSHAKE_TIMEOUT_def from_secs_def)
  with authenticate_within [OF assms, of env hub s] slowest_authenticates [of env orc hub s room username t s']
  show ?thesis by (auto simp: within_def split: option.splits)
qed

theorem handshake_wait_bounded_witness:
  "\<exists>c2s ts s1. authenticate toy_server (slowest toy_oracle) toy_hub (c2s, []) =
      (Inr (toy_room, lit ''bob'', ts), ([], s1)) \<and>
    fst (authenticate_timed toy_server (slowest toy_oracle) toy_hub (c2s, [])) = Some (from_secs 15)"
proof -
  obtain c2s s1 ts where run:
    "authenticate toy_server toy_oracle toy_hub (c2s, []) = (Inr (toy_room, lit ''bob'', ts), ([], s1))"
    using toy_session by metis
  have "co_hello_send toy_oracle = Some 0" "co_refusal_send toy_oracle = Some 0"
    by (simp_all add: toy_oracle_def)
  from handshake_wait_bounded [OF this, of toy_server toy_hub "(c2s, [])"] run show ?thesis by blast
qed

text \<open>
  C21. When exactly a connection authenticates: its three reads come in time, and on its stream,
  one after the other, it selects an acceptable room, is sent that room's hello, completes the
  responder's handshake under that room's key with the prologue of its id, salt and version, and
  sends a hello with an acceptable name that opens under the transport of that very handshake;
  nothing read in plaintext will do. What it gets is that room, that name and that transport.
\<close>

theorem authentication_requires_key:
  "authenticate env orc hub s = (Inr (room, username, t), s') \<longleftrightarrow>
     in_time (co_select orc) \<and> in_time (co_handshake orc) \<and> in_time (co_hello orc) \<and>
     (\<exists>name s0 s1 t1 s2.
       recv_postcard (se_stream env) (se_from_bytes env) s = (Inr (RoomSelect name), s0) \<and>
       name \<noteq> [] \<and> str_len name \<le> MAX_ROOM_ID_LEN \<and> find_room orc hub name = Inr room \<and>
       send_postcard (se_stream env) (se_to_vec env)
         (ServerHello (rs_room_salt room) PROTOCOL_VERSION) s0 = (Inr (), s1) \<and>
       handshake_responder (se_noise env) (se_stream env) (rs_psk room)
         (build_prologue (rs_room_id room) (rs_room_salt room) PROTOCOL_VERSION) s1 = (Inr t1, s2) \<and>
       recv_encrypted (se_noise env) (se_stream env) (se_from_bytes env) s2 t1 =
         (Inr (ClientHello username), s', t) \<and> username_ok username)"
  by (rule authenticates)

theorem authentication_requires_key_witness:
  "\<exists>c2s ts s' name s0 s1 t1 s2.
     authenticate toy_server toy_oracle toy_hub (c2s, []) = (Inr (toy_room, lit ''bob'', ts), s') \<and>
     recv_postcard pipe_ops (se_from_bytes toy_server) (c2s, []) = (Inr (RoomSelect name), s0) \<and>
     handshake_responder (se_noise toy_server) pipe_ops (rs_psk toy_room)
       (build_prologue (rs_room_id toy_room) (rs_room_salt toy_room) PROTOCOL_VERSION) s1 = (Inr t1, s2) \<and>
     recv_encrypted (se_noise toy_server) pipe_ops (se_from_bytes toy_server) s2 t1 =
       (Inr (ClientHello (lit ''bob'')), s', ts)"
proof -
  obtain c2s s1 ts where run:
    "authenticate toy_server toy_oracle toy_hub (c2s, []) = (Inr (toy_room, lit ''bob'', ts), ([], s1))"
    using toy_session by metis
  have "se_stream toy_server = pipe_ops" by (simp add: toy_server_def)
  with run iffD1 [OF authentication_requires_key run] show ?thesis by (elim conjE exE) (simp only:, blast)
qed

text \<open>
  A connection that does not authenticate leaves the whole hub as it was: no session, no
  history, no limiter entry, and its connection slot is given back.
\<close>

theorem unauthenticated_no_effect:
  assumes "authenticate env orc (hub\<lparr>hub_active_conns := hub_active_conns hub + 1\<rparr>) s = (Inl e, s')"
    and "hub_active_conns hub < MAX_ACTIVE_CONNS"
  shows "handle_connection env orc events hub s w = (Some (Inl e), hub, s', w)"
  by (rule handle_connection_unauthenticated [OF assms])

theorem unauthenticated_no_effect_witness:
  "handle_connection sample_env sample_oracle [] sample_hub ([], []) (\<lambda>_. [])
     = (Some (Inl Closed), sample_hub, ([], []), \<lambda>_. [])"
proof (rule unauthenticated_no_effect)
  show "authenticate sample_env sample_oracle
      (sample_hub\<lparr>hub_active_conns := hub_active_conns sample_hub + 1\<rparr>) ([], []) = (Inl Closed, ([], []))"
    by (simp add: authenticate_out select_out awaited_def in_time_defs recv_postcard_def recv_bytes_def
        sample_env_defs)
  show "hub_active_conns sample_hub < MAX_ACTIVE_CONNS"
    by (simp add: sample_hub_def MAX_ACTIVE_CONNS_def)
qed

text \<open>
  However a connection ends, the connection counter is back where it was; while it runs, it
  holds exactly one slot.
\<close>

theorem connection_slot_balanced:
  assumes "handle_connection env orc events hub s w = (out, hub', s', w')"
  shows "hub_active_conns hub' = hub_active_conns hub + (if out = None then 1 else 0)"
  by (rule handle_connection_slot [OF assms])

theorem connection_slot_balanced_witness:
  "hub_active_conns (fst (snd (handle_connection sample_env sample_oracle [] sample_hub
     ([[1], [8], [2]], []) (\<lambda>_. [])))) = 1"
proof -
  let ?h = "handle_connection sample_env sample_oracle [] sample_hub ([[1], [8], [2]], []) (\<lambda>_. [])"
  obtain out hub' s' w' where h: "?h = (out, hub', s', w')" by (cases ?h)
  let ?s = "serve sample_env sample_oracle [] (lit ''bob'') sample_room ([], [[11], [9]]) () (\<lambda>_. [])"
  have "authenticate sample_env sample_oracle (sample_hub\<lparr>hub_active_conns := 1\<rparr>) ([[1], [8], [2]], [])
      = (Inr (sample_room, lit ''bob'', ()), ([], [[11], [9]]))"
    using sample_authenticate [of "sample_hub\<lparr>hub_active_conns := 1\<rparr>" sample_room "[8]" "[]" "[]"]
    by (simp add: sample_hub_def)
  moreover have "fst ?s = None"
    by (simp add: serve_def Let_def sample_oracle_def sample_env_def send_encrypted_def
        transport_seal_def sample_noise_def sample_stream_def sample_to_vec_def send_bytes_def)
  then obtain rest where "?s = (None, rest)" by (cases ?s) simp
  moreover have "hub_active_conns sample_hub = 0" by (simp add: sample_hub_def)
  ultimately have "fst ?h = None"
    by (cases rest) (simp add: handle_connection_def try_acquire_def MAX_ACTIVE_CONNS_def Let_def
        del: lit_simps)
  with h connection_slot_balanced [OF h] show ?thesis by (simp add: sample_hub_def)
qed

text \<open>
  Under any interleaving of the counter's atomic additions, roll-backs and drops, at most max
  connections hold a guard at the same time, and the counter is the number of tasks inside the
  guard.
\<close>

theorem connection_cap_concurrent:
  assumes "guard_reachable max_conns g"
  shows "card (holders g) \<le> unat max_conns \<and> unat (gs_active g) = card (dom (gs_phase g))"
  using guard_reachable_inv [OF assms] by (simp add: guard_inv_def)

theorem connection_cap_concurrent_witness:
  "card (holders \<lparr>gs_active = 2, gs_phase = [0 \<mapsto> Holding, 1 \<mapsto> Overshot]\<rparr>) \<le> 1"
proof -
  have "guard_reachable 1 \<lparr>gs_active = 1, gs_phase = [0 \<mapsto> Holding]\<rparr>"
    using guard_reachable.move [OF guard_reachable.idle guard_step.add, of 0 1]
    by (simp add: fetch_add_phase_def usize_max_def)
  from guard_reachable.move [OF this guard_step.add, of 1]
  have "guard_reachable 1 \<lparr>gs_active = 2, gs_phase = [0 \<mapsto> Holding, 1 \<mapsto> Overshot]\<rparr>"
    by (simp add: fetch_add_phase_def usize_max_def)
  from connection_cap_concurrent [OF this] show ?thesis by simp
qed

text \<open>
  C22. After a connection that got its welcome has ended, for whatever reason, its user has
  neither a session nor an outbox in the room; when sending the welcome fails, both entries stay
  behind.
\<close>

theorem departed_user_forgotten:
  assumes "serve env orc events name room s t w = (Some r, room', s', t', w')"
    and "co_before_join orc (room, w) = (room1, w1)" and "se_channel env w1 = (tx, w2)"
    and "co_before_history orc (register (co_now orc) (co_user_id orc) name tx room1, w2) = (room2, w3)"
    and "send_encrypted (se_noise env) (se_stream env) (se_to_vec env)
      (Welcome (co_user_id orc) (ms_snapshot (rs_messages room2))) s t = (out, s1, t1)"
  shows "case out of
      Inl e \<Rightarrow> r = Inl e \<and> room' = room2
    | Inr _ \<Rightarrow> ss_sessions (rs_sessions room') (co_user_id orc) = None \<and>
        cm_senders (rs_connections room') (co_user_id orc) = None"
  by (rule serve_leaves [OF assms])

theorem departed_user_forgotten_witness:
  "ss_sessions (rs_sessions (fst (snd (serve sample_env sample_oracle [PumpShutdown] (lit ''bob'')
     sample_room ([], []) () (\<lambda>_. []))))) 7 = None"
proof -
  let ?s = "serve sample_env sample_oracle [PumpShutdown] (lit ''bob'') sample_room ([], []) () (\<lambda>_. [])"
  obtain r room' rest where s: "?s = (Some r, room', rest)"
  proof -
    have "fst ?s = Some (Inr ())"
      by (simp add: serve_def Let_def sample_oracle_def sample_env_def send_encrypted_def
          transport_seal_def sample_noise_def sample_stream_def sample_to_vec_def send_bytes_def)
    then show thesis using that by (cases ?s) simp
  qed
  obtain s' t' w' where rest: "rest = (s', t', w')" by (cases rest)
  let ?reg = "register 10 7 (lit ''bob'') 0 sample_room"
  have join: "co_before_join sample_oracle (sample_room, \<lambda>_. []) = (sample_room, \<lambda>_. [])"
    "se_channel sample_env (\<lambda>_. []) = (0, \<lambda>_. [])"
    "co_before_history sample_oracle
      (register (co_now sample_oracle) (co_user_id sample_oracle) (lit ''bob'') 0 sample_room, \<lambda>_. [])
      = (?reg, \<lambda>_. [])"
    by (simp_all add: sample_oracle_def sample_env_def fun_eq_iff)
  have "send_encrypted (se_noise sample_env) (se_stream sample_env) (se_to_vec sample_env)
      (Welcome (co_user_id sample_oracle) (ms_snapshot (rs_messages ?reg))) ([], []) ()
      = (Inr (), ([], [[12]]), ())"
    by (simp add: sample_env_def send_encrypted_def transport_seal_def sample_noise_def
        sample_stream_def sample_to_vec_def send_bytes_def)
  from departed_user_forgotten [OF s [unfolded rest] join this] s show ?thesis
    by (simp add: sample_oracle_def)
qed

text \<open>
  A whole connection, from joining to cleanup, with any frames its client sends and any well-
  behaved activity of other tasks in between, keeps its room well-formed.
\<close>

theorem connection_keeps_room:
  assumes "join_ok env orc name room w" and "room_inv (co_now orc) room" and "username_ok name"
    and "pump_events (rs_room_id room) (co_user_id orc) name (co_now orc) events now"
    and "serve env orc events name room s t w = (r, room', s', t', w')"
  shows "room_inv now room' \<and> rs_room_id room' = rs_room_id room"
  by (rule serve_room_ok [OF assms])

theorem connection_keeps_room_witness:
  "room_inv 12 (fst (snd (serve sample_env sample_oracle [PumpIncoming sample_clock] (lit ''bob'')
     sample_room ([[3]], []) () (\<lambda>_. []))))"
proof -
  let ?s = "serve sample_env sample_oracle [PumpIncoming sample_clock] (lit ''bob'')
     sample_room ([[3]], []) () (\<lambda>_. [])"
  obtain r room' s' t' w' where s: "?s = (r, room', s', t', w')" by (cases ?s)
  have "join_ok sample_env sample_oracle (lit ''bob'') sample_room (\<lambda>_. [])"
    by (simp add: join_ok_def sample_oracle_def sample_env_def sample_room_def room_state_new_def
        history_counters_def)
  moreover have "room_inv (co_now sample_oracle) sample_room"
    by (simp add: sample_room_def room_inv_new)
  moreover have "pump_events (rs_room_id sample_room) (co_user_id sample_oracle) (lit ''bob'')
      (co_now sample_oracle) [PumpIncoming sample_clock] 12"
    by (intro pump_events.incoming pump_events.no_event)
      (simp_all add: sample_oracle_def sample_clock_def)
  ultimately have "room_inv 12 room' \<and> rs_room_id room' = rs_room_id sample_room"
    using connection_keeps_room [OF _ _ sample_bob _ s] by blast
  with s show ?thesis by simp
qed

text \<open>
  C23. An interrupt ends the server. The accept loop cancels the shutdown token and stops; from
  then on the sweeper and every connection see it, and once each of them has had one more turn -
  the sweeper one at which it does not handle a tick first, a connection one of its select loop,
  and it was not stuck in a send before - all of them have ended and the run returns. Without an
  interrupt it never does. A connection does nothing after the turn at which it finds the token
  cancelled.
\<close>

theorem shutdown_completes:
  fixes hub :: "'tx server_hub" and sch :: "('tx, 'w) turn list"
  assumes "server_hub_new kdf configs draws = Inr hub" and "bound"
    and "sch = before @ MainTurn CtrlC # later"
    and "SweeperTurn (SweeperPoll tick cancel_first) \<in> set later" and "tick = None \<or> cancel_first"
    and "\<And>k. k < length (fst (run_loop (main_events before) hub)) \<Longrightarrow>
      (\<exists>outbox stuck socket. ConnTurn k (Poll outbox stuck socket) \<in> set later) \<and>
      (\<forall>socket. ConnTurn k (Poll True True socket) \<notin> set before)"
  shows "server_run kdf configs draws bound sch conn = Some (Inr ()) \<and>
    (\<forall>sch'. MainTurn CtrlC \<notin> set sch' \<longrightarrow> server_run kdf configs draws bound sch' conn = None) \<and>
    handle_connection env orc (xs @ PumpShutdown # ys) hub s w =
      handle_connection env orc (xs @ [PumpShutdown]) hub s w"
  unfolding assms(3)
  by (intro conjI allI impI server_run_ends [OF assms(1,2,4,5,6)] server_run_goes_on [OF assms(1,2)]
      connection_cancelled_prefix)

theorem shutdown_completes_witness:
  "server_run toy_kdf [\<lparr>rc_name = lit ''main'', rc_password = lit ''123456789012''\<rparr>] [Some toy_salt] True
     (toy_before @ MainTurn CtrlC # toy_afterwards) (\<lambda>_. toy_task) = Some (Inr ()) \<and>
   server_run toy_kdf [\<lparr>rc_name = lit ''main'', rc_password = lit ''123456789012''\<rparr>] [Some toy_salt] True
     (toy_before @ toy_afterwards) (\<lambda>_. toy_task) = None"
proof -
  obtain hub :: "nat server_hub" where hub: "server_hub_new toy_kdf
      [\<lparr>rc_name = lit ''main'', rc_password = lit ''123456789012''\<rparr>] [Some toy_salt] = Inr hub"
    using toy_hub_new by blast
  then have limiter: "hub_ratelimit hub = rate_limiter_new RATELIMIT_MAX RATELIMIT_WINDOW"
    by (auto simp: server_hub_new_def and_then_Inr_iff)
  have accepted: "main_events toy_before = [Accepted 1 (V4 1)]"
    by (simp add: toy_before_def main_events_def map_filter_simps)
  have one: "length (fst (run_loop (main_events toy_before) hub)) = 1"
    unfolding accepted one_spawned [OF limiter] by simp
  have sweeper: "SweeperTurn (SweeperPoll None False) \<in> set toy_afterwards"
    by (simp add: toy_afterwards_def)
  have turns: "(\<exists>outbox stuck socket. ConnTurn k (Poll outbox stuck socket) \<in> set toy_afterwards) \<and>
      (\<forall>socket. ConnTurn k (Poll True True socket) \<notin> set toy_before)"
    if "k < length (fst (run_loop (main_events toy_before) hub))" for k
    using that one by (auto simp: toy_before_def toy_afterwards_def)
  note ends = shutdown_completes [OF hub TrueI refl sweeper disjI1 [OF refl] turns]
  have "MainTurn CtrlC \<notin> set (toy_before @ toy_afterwards)"
    by (simp add: toy_before_def toy_afterwards_def)
  then show ?thesis
    using ends [THEN conjunct1] ends [THEN conjunct2, THEN conjunct1, THEN spec, THEN mp] by (intro conjI)
qed

text \<open>
  C24. A peer that stops reading keeps the server from ending: a connection that is in the
  middle of sending it a frame polls nothing else, so that it is not ended by the shutdown, and
  the run of the server waits for it for ever, whatever comes after, the interrupt and the
  cancelled token included.
\<close>

theorem stalled_peer_blocks_shutdown:
  fixes hub :: "'tx server_hub" and sch :: "('tx, 'w) turn list"
  assumes "server_hub_new kdf configs draws = Inr hub" and "bound"
    and "sch = before @ ConnTurn k (Poll True True socket) # later"
    and "k < length (fst (run_loop (main_events before) hub))" and "MainTurn CtrlC \<notin> set before"
    and "fst (handle_connection (ct_env (conn k)) (ct_oracle (conn k))
      (poll_events (conn_polls hub k (before @ [ConnTurn k (Poll True True socket)]))) (ct_hub (conn k))
      (ct_socket (conn k)) (ct_chan (conn k))) = None"
  shows "spawned_task (conn k) (conn_polls hub k sch) = None \<and>
    server_run kdf configs draws bound sch conn = None"
proof -
  have "spawned_task (conn k) (conn_polls hub k sch) = None"
    unfolding assms(3) by (rule spawned_stuck [OF assms(4-6)])
  moreover have "k < length (fst (run_loop (main_events sch) hub))"
    using assms(4) run_loop_more [of "main_events before" hub] unfolding assms(3) main_events_append
    by (meson less_le_trans)
  ultimately show ?thesis using server_run_blocked [OF assms(1,2)] by blast
qed

theorem stalled_peer_blocks_shutdown_witness:
  "\<exists>s. server_run toy_kdf [\<lparr>rc_name = lit ''main'', rc_password = lit ''123456789012''\<rparr>] [Some toy_salt]
     True (stalled_before @ ConnTurn 0 (Poll True True None) # MainTurn CtrlC # toy_afterwards)
     (\<lambda>_. stalled_task s) = None"
proof -
  obtain hub :: "nat server_hub" where hub: "server_hub_new toy_kdf
      [\<lparr>rc_name = lit ''main'', rc_password = lit ''123456789012''\<rparr>] [Some toy_salt] = Inr hub"
    using toy_hub_new by blast
  then have limiter: "hub_ratelimit hub = rate_limiter_new RATELIMIT_MAX RATELIMIT_WINDOW"
    by (auto simp: server_hub_new_def and_then_Inr_iff)
  have accepted: "main_events stalled_before = [Accepted 1 (V4 1)]"
    by (simp add: stalled_before_def main_events_def map_filter_simps)
  have spawned: "0 < length (fst (run_loop (main_events stalled_before) hub))"
    unfolding accepted one_spawned [OF limiter] by simp
  have uninterrupted: "MainTurn CtrlC \<notin> set stalled_before" by (simp add: stalled_before_def)
  obtain s where s: "fst (handle_connection toy_server toy_oracle (poll_events stalled_polls) toy_hub s
      (\<lambda>_. [])) = None" by (rule toy_stalled)
  have "server_run toy_kdf [\<lparr>rc_name = lit ''main'', rc_password = lit ''123456789012''\<rparr>] [Some toy_salt]
     True (stalled_before @ ConnTurn 0 (Poll True True None) # MainTurn CtrlC # toy_afterwards)
     (\<lambda>_. stalled_task s) = None"
    using stalled_peer_blocks_shutdown [OF hub TrueI refl spawned uninterrupted,
        of "\<lambda>_. stalled_task s" None "MainTurn CtrlC # toy_afterwards"] s
    by (simp add: stalled_task_def stalled_seen [OF limiter])
  then show ?thesis by blast
qed

text \<open>
  C25. The accept loop spawns, per address, exactly the connections that an ideal limiter with a
  complete memory would admit, so at most 60 in any 60 seconds, whatever the sweeper and the
  connections do meanwhile.
\<close>

theorem accept_rate_bounded:
  assumes "hub_ratelimit hub = rate_limiter_new RATELIMIT_MAX RATELIMIT_WINDOW"
    and "sorted (map event_time (limiter_events es))"
  shows "admitted_for ip (fst (run_loop es hub)) =
      spec_run RATELIMIT_MAX RATELIMIT_WINDOW ip [] (limiter_events es) \<and>
    within_rate RATELIMIT_MAX RATELIMIT_WINDOW (admitted_for ip (fst (run_loop es hub)))"
  using limiter.window_run_spec [of "hub_ratelimit hub" ip, OF _ _ assms(2)]
    limiter.window_run_within_rate [of "hub_ratelimit hub" ip, OF _ _ assms(2)] assms(1)
  by (simp add: run_loop_spawned)

theorem accept_rate_bounded_witness:
  "admitted_for (V4 1)
     (fst (run_loop [Accepted 5 (V4 1), SweepTick 6 [], Accepted 7 (V4 1), CtrlC] sample_hub)) = [5, 7]"
proof -
  let ?es = "[Accepted 5 (V4 1), SweepTick 6 [], Accepted 7 (V4 1), CtrlC] :: nat server_event list"
  have "hub_ratelimit sample_hub = rate_limiter_new RATELIMIT_MAX RATELIMIT_WINDOW"
    "sorted (map event_time (limiter_events ?es))"
    by (simp_all add: sample_hub_def)
  from accept_rate_bounded [OF this, of "V4 1"]
  have "admitted_for (V4 1) (fst (run_loop ?es sample_hub)) =
      spec_run RATELIMIT_MAX RATELIMIT_WINDOW (V4 1) [] (limiter_events ?es)" ..
  also have "\<dots> = [5, 7]"
    by (simp add: recent_def RATELIMIT_MAX_def RATELIMIT_WINDOW_def from_secs_def)
  finally show ?thesis .
qed

text \<open>
  On a well-formed table the limiter's clean-up keeps exactly the stamps of the last window,
  keeps an entry exactly for the addresses that have one, and changes no verdict.
\<close>

theorem cleanup_shrinks_table:
  assumes "rl_inv m rl" and "m \<le> now" and "\<not> rl_poisoned rl"
  shows "rl_stamps (cleanup now rl) ip = filter (\<lambda>t. now \<le> t + rl_window rl) (rl_stamps rl ip) \<and>
    dom (rl_by_ip (cleanup now rl)) = {ip. \<exists>t \<in> set (rl_stamps rl ip). now \<le> t + rl_window rl} \<and>
    fst (check now ip (cleanup now rl)) = fst (check now ip rl)"
  using cleanup_window [OF assms] by blast

theorem cleanup_shrinks_table_witness:
  "rl_stamps (cleanup (from_secs 61) (snd (check 5 (V4 1) (rate_limiter_new 60 (from_secs 60))))) (V4 1) = []"
proof -
  let ?rl = "snd (check 5 (V4 1) (rate_limiter_new 60 (from_secs 60)))"
  have "rl_inv 5 ?rl" by (rule rl_inv_check [OF rl_inv_new order_refl])
  moreover have "\<not> rl_poisoned ?rl" "5 \<le> from_secs 61" by (simp_all add: frame_simps from_secs_def)
  ultimately show ?thesis using cleanup_shrinks_table [of 5 ?rl "from_secs 61" "V4 1"]
    by (simp add: check_def rate_limiter_new_def rl_stamps_def from_secs_def duration_since_def)
qed

text \<open>
  C26. A session's accepted message attempts are exactly those of an ideal 30-per-10-seconds
  limiter, so no window of 10 seconds holds more than 30, whatever other session operations are
  interleaved.
\<close>

theorem message_quota_bounded:
  assumes "has_session st u" and "msg_stamps st u = []" and "sorted (map event_time es)"
  shows "within_rate MSG_RATE_MAX MSG_RATE_WINDOW
      (admitted_for u (window_run try_consume_message_quota quota_side_step st es)) \<and>
    admitted_for u (window_run try_consume_message_quota quota_side_step st es) =
      spec_run MSG_RATE_MAX MSG_RATE_WINDOW u [] es"
  using quota.window_run_within_rate [OF assms] quota.window_run_spec [OF assms] by simp

theorem message_quota_bounded_witness:
  "admitted_for 7 (window_run try_consume_message_quota quota_side_step
     (ss_insert 0 7 (lit ''bob'') (session_store_new SESSION_TIMEOUT))
     [Attempt 1 7, Other 2 (QTouch 7), Attempt 3 7]) = [1, 3]"
proof -
  let ?st = "ss_insert 0 7 (lit ''bob'') (session_store_new SESSION_TIMEOUT)"
  let ?es = "[Attempt 1 7, Other 2 (QTouch 7), Attempt 3 7]"
  have "has_session ?st 7" "msg_stamps ?st 7 = []"
    by (simp_all add: has_session_def msg_stamps_def store_simps fresh_session_def)
  from message_quota_bounded [OF this, of ?es] show ?thesis
    by (simp add: recent_def MSG_RATE_MAX_def MSG_RATE_WINDOW_def from_secs_def)
qed

text \<open>
  A session's accepted clears are at least 30 seconds apart, whatever other session operations
  are interleaved.
\<close>

theorem clears_spaced_out:
  assumes "has_session st u" and "clear_stamps st u = []" and "sorted (map event_time es)"
  shows "sorted_wrt (\<lambda>a b. a + CLEAR_COOLDOWN \<le> b)
    (admitted_for u (window_run try_consume_clear clear_side_step st es))"
proof -
  let ?log = "admitted_for u (window_run try_consume_clear clear_side_step st es)"
  have "sorted ?log"
    using spec_run_sorted [OF assms(3)] cooldown.window_run_spec [OF assms] by simp
  with cooldown.window_run_within_rate [OF assms]
  have "sorted_wrt (\<lambda>a b. a + (CLEAR_COOLDOWN - 1) < b) ?log"
    by (rule within_rate_one_gaps)
  then show ?thesis
    by (rule sorted_wrt_mono_rel [rotated]) (simp add: CLEAR_COOLDOWN_def from_secs_def)
qed

theorem clears_spaced_out_witness:
  "sorted_wrt (\<lambda>a b. a + CLEAR_COOLDOWN \<le> b)
     (admitted_for 7 (window_run try_consume_clear clear_side_step
       (ss_insert 0 7 (lit ''bob'') (session_store_new SESSION_TIMEOUT))
       [Attempt 1 7, Attempt 2 7, Attempt (from_secs 40) 7]))"
  by (rule clears_spaced_out)
    (simp_all add: has_session_def clear_stamps_def store_simps fresh_session_def from_secs_def)

text \<open>
  C27. A user who falls silent is left alone by the sweeper up to the session timeout, and is
  gone, with session and outbox, one sweep interval later, up to the delay with which a tick is
  handled: the ticks come every SWEEP_INTERVAL from the start of the server, each visits every
  room.
\<close>

theorem silent_user_removed:
  assumes "timely start \<delta> now turns" and "quiet n u turns hub" and "SweeperCancelled \<notin> set turns"
    and "room_timeout n hub = Some SESSION_TIMEOUT" and "user_of n u hub = Some s"
    and "start \<le> us_last_active s + SESSION_TIMEOUT"
  shows "(now \<le> us_last_active s + from_secs 3600 \<longrightarrow> user_of n u (snd (sweeper turns hub)) = Some s) \<and>
    (us_last_active s + from_secs 3900 + \<delta> \<le> now \<longrightarrow>
      user_of n u (snd (sweeper turns hub)) = None \<and> outbox_of n u (snd (sweeper turns hub)) = None)"
proof -
  have "from_secs 3600 = SESSION_TIMEOUT" "from_secs 3900 = SESSION_TIMEOUT + SWEEP_INTERVAL"
    by (simp_all add: SESSION_TIMEOUT_def SWEEP_INTERVAL_def from_secs_def)
  then show ?thesis using silent_user [OF assms] by (simp add: ac_simps)
qed

theorem silent_user_removed_witness:
  "user_of (lit ''main'') 7 (snd (sweeper (silent_turns 13) silent_hub)) = None \<and>
     outbox_of (lit ''main'') 7 silent_hub = Some 0 \<and>
     outbox_of (lit ''main'') 7 (snd (sweeper (silent_turns 13) silent_hub)) = None \<and>
     user_of (lit ''main'') 7 (snd (sweeper (silent_turns 12) silent_hub)) =
       Some (fresh_session 7 (lit ''bob'', 0))"
proof -
  have s: "us_last_active (fresh_session 7 (lit ''bob'', 0)) = 0" by (simp add: fresh_session_def)
  have start: "0 \<le> us_last_active (fresh_session 7 (lit ''bob'', 0)) + SESSION_TIMEOUT" by simp
  note removed = silent_user_removed [OF silent_timely silent_quiet silent_uncancelled silent_hub_facts(1,2) start,
      unfolded s]
  have "user_of (lit ''main'') 7 (snd (sweeper (silent_turns 13) silent_hub)) = None"
    "outbox_of (lit ''main'') 7 (snd (sweeper (silent_turns 13) silent_hub)) = None"
    "user_of (lit ''main'') 7 (snd (sweeper (silent_turns 12) silent_hub)) =
       Some (fresh_session 7 (lit ''bob'', 0))"
    using removed [of 13] removed [of 12] by (simp_all add: tick_due_def SWEEP_INTERVAL_def from_secs_def)
  with silent_hub_facts(3) show ?thesis by simp
qed

text \<open>
  C28. The sweeper can evict a user who is active: after it has read the stale ids, a frame of a
  user among them may arrive and refresh the session, which is removed nevertheless, with the
  outbox. The connection goes on without, and whatever the frame was, its handler then ends the
  connection.
\<close>

theorem active_user_evicted:
  assumes "reachable ts (machine_init room_id salt psk w) m" and "mc_sweep m = []"
    and "mc_tasks m u = Some tk" and "tk_stage tk = Ready"
    and "ss_sessions (rs_sessions (mc_room m)) u = Some s"
    and "ss_timeout (rs_sessions (mc_room m)) < duration_since (mc_now m) (us_last_active s)"
  shows "\<exists>m1 m2. reachable ts (machine_init room_id salt psk w) m1 \<and> machine_step ts m1 m2 \<and>
    ss_sessions (rs_sessions (mc_room m1)) u = Some (s\<lparr>us_last_active := mc_now m1\<rparr>) \<and>
    ss_sessions (rs_sessions (mc_room m2)) u = None \<and>
    cm_senders (rs_connections (mc_room m2)) u = None \<and>
    mc_tasks m2 u = Some (tk\<lparr>tk_stage := Handling f\<rparr>) \<and>
    fst (task_block ts t order u name (Handling f, mc_room m2, w')) = Leaving"
  by (rule evicted_while_active [OF assms])

theorem active_user_evicted_witness:
  "\<exists>m1 m2. machine_step sample_send m1 m2 \<and>
     ss_sessions (rs_sessions (mc_room m1)) 7 =
       Some ((sample_session 0 [])\<lparr>us_last_active := mc_now m1\<rparr>) \<and>
     ss_sessions (rs_sessions (mc_room m2)) 7 = None \<and>
     mc_tasks m2 7 = Some \<lparr>tk_username = lit ''bob'', tk_stage = Handling Clear\<rparr>"
proof -
  have facts: "mc_sweep sample_late = []" "mc_tasks sample_late 7 = Some \<lparr>tk_username = lit ''bob'', tk_stage = Ready\<rparr>"
    "ss_sessions (rs_sessions (mc_room sample_late)) 7 = Some (sample_session 0 [])"
    "ss_timeout (rs_sessions (mc_room sample_late)) <
      duration_since (mc_now sample_late) (us_last_active (sample_session 0 []))"
    using sample_late_facts by simp_all
  have ready: "tk_stage \<lparr>tk_username = lit ''bob'', tk_stage = Ready\<rparr> = Ready" by simp
  from active_user_evicted [OF sample_late_reachable [unfolded sample_init_def] facts(1,2) ready facts(3,4),
      where f = Clear]
  show ?thesis by (elim meta_allE exE conjE) (auto simp del: lit_simps)
qed

text \<open>
  One sweep of a visited room removes exactly the sessions silent for longer than the timeout,
  each together with its outbox, and nothing else.
\<close>

theorem sweep_evicts_stale:
  assumes "distinct (map fst visits)" and "(n, now, order) \<in> set visits"
    and "hub_rooms hub n = Some room"
    and "iteration_order (ss_sessions (rs_sessions room)) order"
  shows "\<exists>room'. hub_rooms (sweeper_tick t visits hub) n = Some room' \<and>
    rs_messages room' = rs_messages room \<and>
    ss_sessions (rs_sessions room') u =
      (case ss_sessions (rs_sessions room) u of
         None \<Rightarrow> None
       | Some s \<Rightarrow> if ss_timeout (rs_sessions room) < duration_since now (us_last_active s)
           then None else Some s) \<and>
    cm_senders (rs_connections room') u =
      (case ss_sessions (rs_sessions room) u of
         None \<Rightarrow> cm_senders (rs_connections room) u
       | Some s \<Rightarrow> if ss_timeout (rs_sessions room) < duration_since now (us_last_active s)
           then None else cm_senders (rs_connections room) u)"
  using sweep_rooms_visited [OF assms(1,2), of "hub_rooms hub"] sweep_room_stores [OF assms(4), of now]
    assms(3)
  by (simp add: sweeper_tick_def)

theorem sweep_evicts_stale_witness:
  "\<exists>room'. hub_rooms (sweeper_tick 0 [(lit ''main'', from_secs 4000, [7])]
      (sample_hub\<lparr>hub_rooms := [lit ''main'' \<mapsto> register 0 7 (lit ''bob'') 0 sample_room]\<rparr>)) (lit ''main'')
      = Some room' \<and> ss_sessions (rs_sessions room') 7 = None"
proof -
  let ?room = "register 0 7 (lit ''bob'') 0 sample_room"
  let ?hub = "sample_hub\<lparr>hub_rooms := [lit ''main'' \<mapsto> ?room]\<rparr>"
  have ss: "ss_sessions (rs_sessions ?room) = [7 \<mapsto> fresh_session 7 (lit ''bob'', 0)]"
    "ss_timeout (rs_sessions ?room) = SESSION_TIMEOUT"
    by (simp_all add: store_simps sample_room_def room_state_new_def register_def frame_simps)
  have "iteration_order (ss_sessions (rs_sessions ?room)) [7]"
    unfolding ss by (simp add: iteration_order_def)
  from sweep_evicts_stale [of "[(lit ''main'', from_secs 4000, [7])]" "lit ''main''" "from_secs 4000" "[7]"
      ?hub, OF _ _ _ this, of 0 7]
  show ?thesis
    by (auto simp: ss fresh_session_def duration_since_def SESSION_TIMEOUT_def from_secs_def
        simp del: lit_simps)
qed

text \<open>
  C29. A successfully started server has exactly the configured rooms, each well-formed, under
  its own id, with a drawn salt and the key of the password configured for it, and no active
  connection.
\<close>

theorem server_starts_well_formed:
  assumes "server_hub_new kdf cfgs draws = Inr hub"
  shows "hub_inv now hub \<and> dom (hub_rooms hub) = rc_name ` set cfgs \<and> hub_active_conns hub = 0 \<and>
    (\<forall>n r. hub_rooms hub n = Some r \<longrightarrow> set_up_from kdf cfgs draws r)"
  using server_hub_new_inv [OF assms] server_hub_new_keys [OF assms] by blast

theorem server_starts_well_formed_witness:
  "\<exists>hub :: nat server_hub. server_hub_new
      \<lparr>kdf_argon = (\<lambda>_ _ _ _ pw salt. Some (pw @ salt)), kdf_mac = (\<lambda>key msg. Some (key @ msg))\<rparr>
      [\<lparr>rc_name = lit ''main'', rc_password = lit ''correct horse''\<rparr>] [Some (replicate 32 1)] = Inr hub \<and>
    dom (hub_rooms hub) = {lit ''main''}"
proof -
  let ?kdf = "\<lparr>kdf_argon = (\<lambda>_ _ _ _ pw salt. Some (pw @ salt)), kdf_mac = (\<lambda>key msg. Some (key @ msg))\<rparr>"
  let ?cfg = "\<lparr>rc_name = lit ''main'', rc_password = lit ''correct horse''\<rparr>"
  have "\<exists>hub :: nat server_hub. server_hub_new ?kdf [?cfg] [Some (replicate 32 1)] = Inr hub"
    by (simp add: server_hub_new_def derive_keys_def blake2s_kdf_def del: lit_simps)
  then obtain hub :: "nat server_hub" where
    hub: "server_hub_new ?kdf [?cfg] [Some (replicate 32 1)] = Inr hub" by blast
  from server_starts_well_formed [OF hub] hub show ?thesis by (intro exI [of _ hub]) simp
qed

text \<open>
  C30. Of any sequence of presented (user, counter) pairs the server accepts each pair at most
  once and each user's in strictly increasing order, above the session's previous counter.
\<close>

theorem server_refuses_replays:
  "distinct (accept_run try_advance_counter st xs) \<and>
   sorted_wrt (<) (counters_of u (accept_run try_advance_counter st xs)) \<and>
   set (counters_of u (accept_run try_advance_counter st xs)) \<subseteq> {c. session_counter st u < c}"
  using replay.accept_run_distinct [of st xs] replay.accept_run_increasing [of u st xs] by auto

text \<open>
  C31. The counters of the messages a client sends, in any session of keys, frames, ticks and
  draws short of 2^64 operations, all pass the server's replay check.
\<close>

theorem honest_sender_never_refused:
  assumes "has_session st (ui_user_id s)" and "session_counter st (ui_user_id s) < ui_next_counter s"
    and "unat (ui_next_counter s) + length ops < 2 ^ 64"
  shows "counters_of (ui_user_id s) (accept_run try_advance_counter st
      (map (\<lambda>ad. (ad_from ad, ad_counter ad)) (sent_ads ae key ops s))) =
    map ad_counter (sent_ads ae key ops s)"
proof -
  let ?ads = "sent_ads ae key ops s" and ?u = "ui_user_id s"
  note ads = sent_ads_counters [OF assms(3), of ae key]
  then have "\<forall>ad \<in> set ?ads. ad_from ad = ?u" by (auto simp: identity_def)
  then have eq: "counters_of ?u (map (\<lambda>ad. (ad_from ad, ad_counter ad)) ?ads) = map ad_counter ?ads"
    by (simp add: counters_of_def filter_map comp_def)
  have "counters_of ?u (accept_run try_advance_counter st (map (\<lambda>ad. (ad_from ad, ad_counter ad)) ?ads))
      = counters_of ?u (map (\<lambda>ad. (ad_from ad, ad_counter ad)) ?ads)"
    by (rule replay.accept_run_complete [OF assms(1)])
      (use ads assms(2) in \<open>auto simp: eq intro: less_le_trans\<close>)
  with eq show ?thesis by simp
qed

theorem honest_sender_never_refused_witness:
  "counters_of 7 (accept_run try_advance_counter
      (ss_insert 0 7 (lit ''bob'') (session_store_new SESSION_TIMEOUT))
      (map (\<lambda>ad. (ad_from ad, ad_counter ad)) (sent_ads sample_aead [] [OpKey sample_enter sample_inputs] sample_ui)))
    = [1]"
proof -
  let ?st = "ss_insert 0 7 (lit ''bob'') (session_store_new SESSION_TIMEOUT)"
  have u: "ui_user_id sample_ui = 7" "ui_next_counter sample_ui = 1"
    by (simp_all add: sample_ui_def ui_state_new_def)
  have "has_session ?st (ui_user_id sample_ui)"
    "session_counter ?st (ui_user_id sample_ui) < ui_next_counter sample_ui"
    unfolding u by (simp_all add: has_session_def session_counter_def store_simps fresh_session_def)
  moreover have "unat (ui_next_counter sample_ui) + length [OpKey sample_enter sample_inputs] < 2 ^ 64"
    unfolding u by simp
  ultimately show ?thesis
    using honest_sender_never_refused [of ?st sample_ui "[OpKey sample_enter sample_inputs]" sample_aead "[]"]
    by (simp only: u sample_sent)
qed

text \<open>
  Every configuration the parser accepts has at least one room, all names valid and distinct,
  all passwords long enough, trimmed and on one line.
\<close>

theorem rooms_config_sound:
  assumes "parse text = Inr rooms"
  shows "rooms \<noteq> [] \<and> (\<forall>rc \<in> set rooms. config_ok rc) \<and> distinct (map rc_name rooms)"
  by (rule parse_sound [OF assms])

theorem rooms_config_sound_witness:
  "config_ok \<lparr>rc_name = lit ''a'', rc_password = lit ''123456789012''\<rparr>"
proof -
  have "parse (lit ''a=123456789012'') = Inr [\<lparr>rc_name = lit ''a'', rc_password = lit ''123456789012''\<rparr>]"
    by (simp add: parse_def lines_def strip_cr_def trim_def trim_start_def trim_end_def
        is_whitespace_def starts_with_hash_def split_once_def validate_name_def str_len_def
        utf8_def utf8_char_def MAX_ROOM_ID_LEN_def all_name_bytes_def is_ascii_alphanumeric_def
        MIN_PW_LEN_def Let_def)
  from rooms_config_sound [OF this] show ?thesis by simp
qed

text \<open>
  C32. Printing a valid configuration in the documented format and parsing it gives the same
  rooms in the same order.
\<close>

theorem rooms_config_roundtrip:
  assumes "rooms \<noteq> []" and "\<forall>rc \<in> set rooms. config_ok rc" and "distinct (map rc_name rooms)"
  shows "parse (print_rooms rooms) = Inr rooms"
  by (rule parse_print [OF assms])

theorem rooms_config_roundtrip_witness:
  "parse (print_rooms [\<lparr>rc_name = lit ''a'', rc_password = lit ''1234 = 678901''\<rparr>]) =
    Inr [\<lparr>rc_name = lit ''a'', rc_password = lit ''1234 = 678901''\<rparr>]"
  by (rule rooms_config_roundtrip)
    (simp_all add: config_ok_def validate_name_def str_len_def utf8_def utf8_char_def
      MAX_ROOM_ID_LEN_def all_name_bytes_def is_ascii_alphanumeric_def MIN_PW_LEN_def trim_def
      trim_start_def trim_end_def is_whitespace_def)

text \<open>
  Two prologues over 32-byte salts are equal only if room id, salt and version all are: the
  handshake cannot confuse rooms, salts or versions.
\<close>

theorem prologue_binds:
  assumes "length salt = 32" and "length salt' = 32"
    and "\<forall>c \<in> set room. scalar c" and "\<forall>c \<in> set room'. scalar c"
  shows "build_prologue room salt v = build_prologue room' salt' v' \<longleftrightarrow>
    room = room' \<and> salt = salt' \<and> v = v'"
  by (rule prologue_inject [OF assms])

theorem prologue_binds_witness:
  "build_prologue (lit ''a'') (replicate 32 1) 2 \<noteq> build_prologue (lit ''a'') (replicate 32 1) 1"
  using prologue_binds [of "replicate 32 1" "replicate 32 1" "lit ''a''" "lit ''a''" 2 1]
  by (simp add: scalar_def)

text \<open>
  What a user types and sends is what every client holding the room key shows: the line without
  trailing white space, or the text behind the ephemeral prefix, with the sender's ephemeral
  flag.
\<close>

theorem typed_text_arrives:
  assumes "aead_correct ae" and "\<forall>c \<in> set (ui_input s). scalar c"
    and "\<forall>nonce. ki_random ki = Some nonce \<longrightarrow> length nonce = NONCE_LEN"
    and "handle_key ae ki key k s = (SendFrame (ClientMessage ad ct), s')"
  shows "dm_kind (decrypt_to_display ae now key (stored_message u name ad ct)) =
      DisplayMessage name (fst (line_body (trim_end (ui_input s)))) \<and>
    (dm_ephemeral (decrypt_to_display ae now key (stored_message u name ad ct)) \<noteq> None) =
      snd (line_body (trim_end (ui_input s)))"
  by (rule typed_text_shown [OF assms])

theorem typed_text_arrives_witness:
  "\<exists>ct. dm_kind (decrypt_to_display sample_aead 3 [] (stored_message 7 (lit ''bob'') sample_ad ct)) =
     DisplayMessage (lit ''bob'') (lit ''hi'')"
proof -
  obtain ct s' where k: "handle_key sample_aead sample_inputs [] sample_enter sample_ui =
      (SendFrame (ClientMessage sample_ad ct), s')"
    using sample_submit by blast
  have "\<forall>c \<in> set (ui_input sample_ui). scalar c"
    "\<forall>nonce. ki_random sample_inputs = Some nonce \<longrightarrow> length nonce = NONCE_LEN"
    by (simp_all add: sample_ui_def scalar_def sample_inputs_def)
  from typed_text_arrives [OF sample_aead_correct this k, of 3 7 "lit ''bob''"] show ?thesis
    by (auto simp: sample_ui_def sample_line simp del: lit_simps)
qed

text \<open>
  C33. A message whose associated data differ in any field from those it was sealed with is
  shown as a decryption failure, never as text.
\<close>

theorem tampered_message_hidden:
  assumes "aead_binding ae" and "ad_injective ae"
    and "seal ae random key pt ad = Inr (rm_ciphertext m)"
    and "\<And>nonce. random = Some nonce \<Longrightarrow> length nonce = NONCE_LEN" and "rm_ad m \<noteq> ad"
  shows "dm_kind (decrypt_to_display ae now key m) =
    DisplaySystem (lit ''[decryption failed] '' @ rm_username m)"
  by (rule display_tampered [OF assms])

theorem tampered_message_hidden_witness:
  "\<exists>ct. dm_kind (decrypt_to_display sample_aead 3 []
      (stored_message 7 (lit ''eve'') (sample_ad\<lparr>ad_username := lit ''eve''\<rparr>) ct)) =
    DisplaySystem (lit ''[decryption failed] '' @ lit ''eve'')"
proof -
  let ?nonce = "replicate NONCE_LEN 0"
  obtain ct where ct: "seal sample_aead (Some ?nonce) [] [1, 2, 3] sample_ad = Inr ct"
    by (simp add: seal_def sample_aead_def sample_ad_to_vec_def)
  let ?m = "stored_message 7 (lit ''eve'') (sample_ad\<lparr>ad_username := lit ''eve''\<rparr>) ct"
  have "rm_ad ?m \<noteq> sample_ad" by (simp add: stored_message_def sample_ad_def)
  then have "dm_kind (decrypt_to_display sample_aead 3 [] ?m) =
      DisplaySystem (lit ''[decryption failed] '' @ rm_username ?m)"
    by (intro tampered_message_hidden [OF sample_aead_binding sample_ad_injective, of "Some ?nonce" "[]" "[1, 2, 3]" sample_ad])
      (use ct in \<open>auto simp: stored_message_def sample_ad_def\<close>)
  then show ?thesis by (auto simp: stored_message_def simp del: lit_simps)
qed

text \<open>
  Lossy UTF-8 decoding gives back every string of Unicode scalar values from its encoding.
\<close>

theorem utf8_lossy_inverts:
  assumes "\<forall>c \<in> set s. scalar c"
  shows "from_utf8_lossy (utf8 s) = s"
  by (rule from_utf8_lossy_utf8 [OF assms])

theorem utf8_lossy_inverts_witness:
  "from_utf8_lossy (utf8 [65, 233, 8364, 128512]) = [65, 233, 8364, 128512]"
  by (rule utf8_lossy_inverts) (simp add: scalar_def)

text \<open>
  C34. Through a whole client run, from the seeded history over any keys, frames, ticks and
  draws, the pane holds at most 500 messages and is never scrolled past the oldest screenful.
\<close>

theorem client_pane_well_formed:
  assumes "client_run env ops draws addr name room pw clk events s x = (r, Some st, s', x')"
  shows "length (ui_messages st) \<le> HISTORY_CAP \<and> ui_scroll st \<le> max_scroll st"
  using client_run_pane [OF assms] by (simp add: pane_ok_def)

theorem client_pane_well_formed_witness:
  "\<exists>st. fst (snd sample_client_run) = Some st \<and> ui_input st = lit ''x'' \<and>
     ui_scroll st \<le> max_scroll st"
proof -
  obtain r st s x where run: "sample_client_run = (r, Some st, s, x)" "ui_input st = lit ''x''"
    using sample_client_runs by blast
  from client_pane_well_formed [OF run(1) [unfolded sample_client_run_def]]
  have "ui_scroll st \<le> max_scroll st" by blast
  with run(2) show ?thesis unfolding run(1) by simp
qed

text \<open>
  C35. A client that returns leaves the terminal as it should be: untouched if it never
  connected, and out of raw mode and the alternate screen however the session ended; only when
  the guard fails to enter does raw mode stay on.
\<close>

theorem terminal_restored:
  assumes "term_laws ops raw alt" and "restorable ops"
    and "client_run env ops draws addr name room pw clk events s x = (Some r, st, s', x')"
  shows "case st of
      None \<Rightarrow> x' = x
    | Some _ \<Rightarrow>
        (case guard_enter ops x of
           (Inr _, _) \<Rightarrow> \<not> raw x' \<and> \<not> alt x'
         | (Inl e, x1) \<Rightarrow> x' = x1 \<and> (fst (to_enable_raw ops x) \<longrightarrow> raw x'))"
  by (rule client_run_terminal [OF assms])

theorem terminal_restored_witness:
  "snd (snd (snd sample_client_run)) = (False, False) \<and> snd (guard_enter sample_term (False, False)) = (True, True)"
proof -
  obtain r st s x where run: "sample_client_run = (Some r, Some st, s, x)"
    using sample_client_runs by blast
  have g: "guard_enter sample_term (False, False) = (Inr (), (True, True))"
    by (simp add: guard_enter_def sample_term_def)
  from terminal_restored [OF sample_term_laws sample_term_restorable run [unfolded sample_client_run_def]]
  have "\<not> fst x \<and> \<not> snd x" by (simp add: g)
  with g show ?thesis unfolding run by (cases x) simp
qed

text \<open>A pane of two lines, scrolled back by one, with \<open>n\<close> messages.\<close>

definition sample_line_msg :: "nat \<Rightarrow> display_msg" where
  "sample_line_msg i = \<lparr>dm_ts_ms = of_nat i, dm_kind = DisplaySystem [], dm_ephemeral = None\<rparr>"

definition sample_pane :: "nat \<Rightarrow> ui_state" where
  "sample_pane n = (ui_state_new [] 0 (SocketV4 1 80) [])
     \<lparr>ui_messages := map sample_line_msg [0..<n], ui_last_inner_h := 2, ui_scroll := 1\<rparr>"

text \<open>
  The pane always shows as many messages as fit: Home shows the oldest screenful, End the
  latest, and no scroll position leaves blank lines.
\<close>

theorem window_shows_messages:
  assumes "pane_ok s" and "ui_last_inner_h s = h" and "0 < h"
  shows "length (visible h s) = min h (length (ui_messages s)) \<and>
    visible h (scroll_to_oldest s) = take h (ui_messages s) \<and>
    visible h (scroll_to_latest s) = last_n h (ui_messages s)"
  using length_visible [OF assms] visible_oldest [OF assms(2,3)]
    visible_pinned [of "scroll_to_latest s" h]
  by (simp add: scroll_to_latest_def)

theorem window_shows_messages_witness:
  "length (visible 2 (sample_pane 5)) = 2 \<and>
   visible 2 (scroll_to_oldest (sample_pane 5)) = [sample_line_msg 0, sample_line_msg 1]"
proof -
  have "pane_ok (sample_pane 5)" "ui_last_inner_h (sample_pane 5) = 2" "(0 :: nat) < 2"
    by (simp_all add: sample_pane_def pane_ok_def max_scroll_def HISTORY_CAP_def)
  from window_shows_messages [OF this] show ?thesis by (simp add: sample_pane_def upt_rec)
qed

text \<open>
  Below the cap, a message that arrives while the user reads back does not move the visible
  window.
\<close>

theorem view_anchored:
  assumes "pane_ok s" and "0 < ui_scroll s" and "length (ui_messages s) < HISTORY_CAP"
  shows "visible h (ui_push m s) = visible h s"
  by (rule visible_push_anchored [OF assms])

theorem view_anchored_witness:
  "visible 2 (ui_push (sample_line_msg 9) (sample_pane 5)) = visible 2 (sample_pane 5)"
  by (rule view_anchored)
    (simp_all add: sample_pane_def pane_ok_def max_scroll_def HISTORY_CAP_def)

text \<open>
  At the cap of 500 messages the window of a reading user slides down by one message with every
  arrival.
\<close>

theorem capped_view_drifts:
  assumes "pane_ok s" and "0 < ui_scroll s" and "length (ui_messages s) = HISTORY_CAP"
    and "ui_last_inner_h s = h" and "0 < h"
  shows "visible h s = take h (drop (HISTORY_CAP - ui_scroll s - h) (ui_messages s)) \<and>
    visible h (ui_push m s) = take h (drop (HISTORY_CAP - ui_scroll s - h + 1) (ui_messages s))"
  using visible_push_capped [OF assms] by blast

theorem capped_view_drifts_witness:
  "visible 2 (ui_push (sample_line_msg 9) (sample_pane HISTORY_CAP)) =
   take 2 (drop 498 (ui_messages (sample_pane HISTORY_CAP)))"
proof -
  let ?s = "sample_pane HISTORY_CAP"
  have "pane_ok ?s" "0 < ui_scroll ?s" "length (ui_messages ?s) = HISTORY_CAP"
    "ui_last_inner_h ?s = 2" "(0 :: nat) < 2"
    by (simp_all add: sample_pane_def pane_ok_def max_scroll_def HISTORY_CAP_def)
  from capped_view_drifts [OF this, of "sample_line_msg 9"]
  have "visible 2 (ui_push (sample_line_msg 9) ?s) =
      take 2 (drop (HISTORY_CAP - ui_scroll ?s - 2 + 1) (ui_messages ?s))" ..
  moreover have "HISTORY_CAP - ui_scroll ?s - 2 + 1 = 498"
    by (simp add: sample_pane_def HISTORY_CAP_def)
  ultimately show ?thesis by simp
qed

text \<open>
  Outside its reveal window an ephemeral message's line does not depend on its text: it shows
  the fixed mask.
\<close>

theorem masked_line_hides_text:
  assumes "masked now m" and "dm_kind m = DisplayMessage name t"
  shows "format_line now (m\<lparr>dm_kind := DisplayMessage name t'\<rparr>) = format_line now m \<and>
    snd (format_line now m ! 2) = EPHEMERAL_MASK"
  using format_line_masked [OF assms] by blast

theorem masked_line_hides_text_witness:
  "snd (format_line 5 \<lparr>dm_ts_ms = 0, dm_kind = DisplayMessage (lit ''bob'') (lit ''secret''),
     dm_ephemeral = Some \<lparr>es_received_at = 1, es_revealed_until = Some 4\<rparr>\<rparr> ! 2) = EPHEMERAL_MASK"
proof -
  let ?m = "\<lparr>dm_ts_ms = 0, dm_kind = DisplayMessage (lit ''bob'') (lit ''secret''),
     dm_ephemeral = Some \<lparr>es_received_at = 1, es_revealed_until = Some 4\<rparr>\<rparr>"
  have "masked 5 ?m" by (simp add: masked_def)
  moreover have "dm_kind ?m = DisplayMessage (lit ''bob'') (lit ''secret'')" by simp
  ultimately show ?thesis by (rule masked_line_hides_text [THEN conjunct2])
qed

text \<open>A pane with a secret that was revealed for a moment.\<close>

definition sample_secret_pane :: ui_state where
  "sample_secret_pane = (ui_state_new [] 0 (SocketV4 1 80) [])
     \<lparr>ui_messages := [\<lparr>dm_ts_ms = 0, dm_kind = DisplayMessage [] [],
        dm_ephemeral = Some \<lparr>es_received_at = 1, es_revealed_until = Some 4\<rparr>\<rparr>]\<rparr>"

text \<open>
  C36. A tick drops exactly the ephemeral messages that are 30 seconds old or older, and keeps
  the others in their order; of those left none is revealed past its window and each shows
  between 1 and 30 seconds to live; ordinary messages are untouched.
\<close>

theorem ephemerals_expire:
  "map dm_kind (ui_messages (tick_expire_ephemerals now s)) =
     map dm_kind (filter (\<lambda>m. case dm_ephemeral m of
       None \<Rightarrow> True | Some e \<Rightarrow> now < es_received_at e + from_secs 30) (ui_messages s)) \<and>
   (\<forall>m \<in> set (ui_messages (tick_expire_ephemerals now s)). \<forall>e. dm_ephemeral m = Some e \<longrightarrow>
      now < es_received_at e + from_secs 30 \<and>
      (case es_revealed_until e of None \<Rightarrow> True | Some t \<Rightarrow> now < t) \<and>
      ephemeral_secs_left (es_received_at e) now \<in> {1..30}) \<and>
   filter (\<lambda>m. dm_ephemeral m = None) (ui_messages (tick_expire_ephemerals now s)) =
     filter (\<lambda>m. dm_ephemeral m = None) (ui_messages s)"
proof -
  have ttl: "from_millis EPHEMERAL_TTL_MS = from_secs 30"
    by (simp add: from_millis_def from_secs_def EPHEMERAL_TTL_MS_def)
  have live: "ttl_live now = (\<lambda>m. case dm_ephemeral m of
      None \<Rightarrow> True | Some e \<Rightarrow> now < es_received_at e + from_secs 30)"
    by (rule ext) (auto simp: ttl_live_def duration_since_def ttl from_secs_def split: option.split)
  have "map dm_kind (ui_messages (tick_expire_ephemerals now s)) =
      map dm_kind (filter (\<lambda>m. case dm_ephemeral m of
        None \<Rightarrow> True | Some e \<Rightarrow> now < es_received_at e + from_secs 30) (ui_messages s))"
    unfolding live [symmetric] by (simp add: ui_simps comp_def)
  moreover have "now < es_received_at e + from_secs 30 \<and>
      (case es_revealed_until e of None \<Rightarrow> True | Some t \<Rightarrow> now < t) \<and>
      ephemeral_secs_left (es_received_at e) now \<in> {1..30}"
    if "m \<in> set (ui_messages (tick_expire_ephemerals now s))" "dm_ephemeral m = Some e" for m e
    using tick_expires [OF that] secs_left_bounds(1) [of "es_received_at e" now]
      secs_left_bounds(2) [of now "es_received_at e"]
    by (auto simp: ttl split: option.split)
  ultimately show ?thesis using tick_keeps_plain by blast
qed

theorem ephemerals_expire_witness:
  "\<exists>m. m \<in> set (ui_messages (tick_expire_ephemerals 5 sample_secret_pane)) \<and>
     dm_ephemeral m = Some \<lparr>es_received_at = 1, es_revealed_until = None\<rparr> \<and>
     ephemeral_secs_left 1 5 \<in> {1..30}"
proof -
  let ?m = "\<lparr>dm_ts_ms = 0, dm_kind = DisplayMessage [] [],
    dm_ephemeral = Some \<lparr>es_received_at = 1, es_revealed_until = None\<rparr>\<rparr>"
  have m: "?m \<in> set (ui_messages (tick_expire_ephemerals 5 sample_secret_pane))"
    by (simp add: ui_simps sample_secret_pane_def ttl_live_def remask_def duration_since_def
        from_millis_def EPHEMERAL_TTL_MS_def)
  have e: "dm_ephemeral ?m = Some \<lparr>es_received_at = 1, es_revealed_until = None\<rparr>" by simp
  with ephemerals_expire [of 5 sample_secret_pane] m have "ephemeral_secs_left 1 5 \<in> {1..30}"
    by fastforce
  with m e show ?thesis by blast
qed

text \<open>
  C37. Whatever messages a server sends, each leaves one entry in the pane, its decryption if
  the replay check passes it and a notice if not, and those that pass have pairwise different
  (sender, counter) pairs, strictly increasing per sender.
\<close>

theorem replays_never_shown:
  assumes "length (ui_messages s) \<le> HISTORY_CAP"
  shows "ui_messages (received ae key fs s) =
      last_n HISTORY_CAP (ui_messages s @ map2 (pane_entry ae key) (verdicts ae key fs s) fs) \<and>
    distinct (map presented (shown ae key fs s)) \<and>
    sorted_wrt (<) (counters_of u (map presented (shown ae key fs s)))"
  using received_pane [OF assms] shown_accept_run [of ae key fs s]
    client_replay.accept_run_distinct client_replay.accept_run_increasing
  by simp

theorem replays_never_shown_witness:
  "ui_messages (received sample_aead [] [(1, 2, sample_message), (3, 4, sample_message)] (sample_pane 0)) =
     [decrypt_to_display sample_aead 1 [] sample_message,
      \<lparr>dm_ts_ms = 4, dm_kind = DisplaySystem (lit ''dropped replay from '' @ rm_username sample_message),
       dm_ephemeral = None\<rparr>]"
proof -
  let ?fs = "[(1, 2, sample_message), (3, 4, sample_message)] :: (instant \<times> u64 \<times> room_message) list"
  have "length (ui_messages (sample_pane 0)) \<le> HISTORY_CAP" by (simp add: sample_pane_def)
  moreover have "verdicts sample_aead [] ?fs (sample_pane 0) = [True, False]"
    by (simp add: client_replay.accept_iff handle_message_frame)
      (simp add: seen_counter_def ui_simps try_accept_counter_def sample_pane_def ui_state_new_def
        sample_message_def sample_ad_def)
  ultimately show ?thesis
    using replays_never_shown [of "sample_pane 0" sample_aead "[]" ?fs]
    by (simp add: sample_pane_def last_n_all HISTORY_CAP_def del: lit_simps)
qed

text \<open>
  C38. A process that fails says so: its exit code is the one of a failure, it was a command
  that failed, and its error is written to standard error as the last line, unless valid
  directives in RUST_LOG filter it out. These are read after the .env file, which never
  overrides the environment, and core dumps are off.
\<close>

theorem failure_is_reported:
  assumes "main_rs ok dotenv ops server client parse_addr prompt args p = (Some ExitFailure, p')"
    and "pr_tracing p = None" and "default_means ops" and "dotenv_keeps dotenv"
  shows "\<exists>cmd e. args = Some cmd \<and>
    run_command server client (dotenv (pr_env p)) parse_addr prompt cmd = Some (Inl e) \<and>
    pr_stderr p' = pr_stderr p @
      (case Option.bind (dotenv (pr_env p) RUST_LOG) (ef_parse ops) of
         None \<Rightarrow> [(fatal, e)]
       | Some f \<Rightarrow> if ef_enabled ops f ErrorLevel ''chat_rs'' then [(fatal, e)] else []) \<and>
    (\<forall>k v. pr_env p k = Some v \<longrightarrow> dotenv (pr_env p) k = Some v) \<and>
    (ok \<longrightarrow> pr_core_limit p' = (0, 0))"
proof -
  have "fst (main_rs ok dotenv ops server client parse_addr prompt args p) = Some ExitFailure"
    using assms(1) by simp
  from exit_failure [OF this assms(2)] obtain cmd e where "args = Some cmd"
    "run_command server client (dotenv (pr_env p)) parse_addr prompt cmd = Some (Inl e)"
    "pr_stderr p' = pr_stderr p @
      (if ef_enabled ops (env_filter ops (dotenv (pr_env p))) ErrorLevel ''chat_rs'' then [(fatal, e)] else [])"
    using assms(1) by auto
  moreover have "ok \<longrightarrow> pr_core_limit p' = (0, 0)"
    using core_dumps_off [of dotenv ops server client parse_addr prompt args p] assms(1) by (cases ok) auto
  ultimately show ?thesis
    using assms(3,4)
    by (auto simp: env_filter_def default_means_def dotenv_keeps_def split: option.splits)
qed

theorem failure_is_reported_witness:
  "\<exists>p'. main_rs True (\<lambda>env. env) toy_filter (\<lambda>_ _. None) (\<lambda>_ _ _ _. None) (\<lambda>_. None) None
       (Some Serve) toy_process = (Some ExitFailure, p') \<and>
     pr_stderr p' = [(fatal, MissingEnv BIND_ENV)] \<and> pr_core_limit p' = (0, 0)"
proof -
  let ?run = "main_rs True (\<lambda>env. env) toy_filter (\<lambda>_ _. None) (\<lambda>_ _ _ _. None) (\<lambda>_. None) None
    (Some Serve) toy_process"
  have cmd: "run_command (\<lambda>_ _. None) (\<lambda>_ _ _ _. None) (pr_env toy_process) (\<lambda>_. None) None Serve =
      Some (Inl (MissingEnv BIND_ENV))"
    by (simp add: run_command_def cli_run_def read_addr_def require_env_def toy_process_def)
  have env: "pr_env toy_process RUST_LOG = None" "pr_tracing toy_process = None" "pr_stderr toy_process = []"
    by (simp_all add: toy_process_def)
  obtain p' where run: "?run = (Some ExitFailure, p')"
    using cmd by (simp add: main_rs_def disable_core_dumps_def Let_def)
  have "dotenv_keeps (\<lambda>env. env)" by (simp add: dotenv_keeps_def)
  from failure_is_reported [OF run env(2) toy_filter_default this] cmd env run show ?thesis by auto
qed

text \<open>
  C39. A server is only started on a sound room configuration, a client only with a name, a
  valid room name and a password of at least 12 bytes.
\<close>

theorem launch_checked:
  assumes "cli_run env parse_addr prompt cmd = Inr l"
  shows "case l of
      LaunchServer addr configs \<Rightarrow>
        configs \<noteq> [] \<and> (\<forall>rc \<in> set configs. config_ok rc) \<and> distinct (map rc_name configs)
    | LaunchClient addr name room pw \<Rightarrow>
        name \<noteq> [] \<and> validate_name room = Inr () \<and> CLI_MIN_PW_LEN \<le> length pw"
proof (cases l)
  case (LaunchServer addr configs)
  with cli_run_server [OF assms [unfolded LaunchServer]] show ?thesis by simp
next
  case (LaunchClient addr name room pw)
  with cli_run_client [OF assms [unfolded LaunchClient]] show ?thesis by simp
qed

theorem launch_checked_witness:
  "\<exists>pw. cli_run (\<lambda>k. if k = SERVER_ENV then Some (lit ''x'') else if k = PASSWORD_ENV then None
      else Some (lit ''bob'')) (\<lambda>_. Some (SocketV4 1 80)) (Some (lit ''correct horse'')) Connect =
      Inr (LaunchClient (SocketV4 1 80) (lit ''bob'') (lit ''bob'') pw) \<and> CLI_MIN_PW_LEN \<le> length pw"
proof -
  have run: "cli_run (\<lambda>k. if k = SERVER_ENV then Some (lit ''x'') else if k = PASSWORD_ENV then None
      else Some (lit ''bob'')) (\<lambda>_. Some (SocketV4 1 80)) (Some (lit ''correct horse'')) Connect =
      Inr (LaunchClient (SocketV4 1 80) (lit ''bob'') (lit ''bob'') (utf8 (lit ''correct horse'')))"
    by (simp add: cli_run_def read_addr_def require_env_def read_password_def validate_name_def
        SERVER_ENV_def USERNAME_ENV_def ROOM_ENV_def PASSWORD_ENV_def str_len_def utf8_def
        utf8_char_def MAX_ROOM_ID_LEN_def all_name_bytes_def is_ascii_alphanumeric_def CLI_MIN_PW_LEN_def)
  from launch_checked [OF run] have "CLI_MIN_PW_LEN \<le> length (utf8 (lit ''correct horse''))"
    by (simp only: launch.case)
  with run show ?thesis by (intro exI conjI)
qed

text \<open>
  C40. The sender name a client shows is the outer, unauthenticated one: replacing it leaves
  decryption intact and changes the name shown.
\<close>

theorem shown_name_unauthenticated:
  assumes "dm_kind (decrypt_to_display ae now key m) = DisplayMessage name t"
  shows "dm_kind (decrypt_to_display ae now key (m\<lparr>rm_username := other\<rparr>)) = DisplayMessage other t"
  by (rule display_relabelled [OF assms])

theorem shown_name_unauthenticated_witness:
  "\<exists>m t. dm_kind (decrypt_to_display sample_aead 3 [] m) = DisplayMessage (lit ''bob'') t \<and>
     ad_username (rm_ad m) = lit ''bob'' \<and>
     dm_kind (decrypt_to_display sample_aead 3 [] (m\<lparr>rm_username := lit ''eve''\<rparr>)) =
       DisplayMessage (lit ''eve'') t"
proof -
  let ?nonce = "replicate NONCE_LEN 0"
  obtain ct where ct: "seal sample_aead (Some ?nonce) [] (utf8 (lit ''hi'')) sample_ad = Inr ct"
    by (simp add: seal_def sample_aead_def sample_ad_to_vec_def)
  let ?m = "stored_message 7 (lit ''bob'') sample_ad ct"
  have shown: "dm_kind (decrypt_to_display sample_aead 3 [] ?m) = DisplayMessage (lit ''bob'') (lit ''hi'')"
    using display_sealed [OF sample_aead_correct, of "Some ?nonce" "[]" "lit ''hi''" ?m 3] ct
    by (simp add: stored_message_def scalar_def)
  have "ad_username (rm_ad ?m) = lit ''bob''" by (simp add: stored_message_def sample_ad_def)
  with shown_name_unauthenticated [OF shown, of "lit ''eve''"] shown show ?thesis by blast
qed

end
